(* ===== verification/Prelude.thy ===== *)
theory Prelude
  imports Main "HOL-Library.Word" "HOL-Library.List_Lexorder"
begin

text \<open>
  The vocabulary every component shares: the machine types of the Rust sources
  (\<open>u8\<close>, \<open>u64\<close>, \<open>Bytes\<close>), the simplification collections, and generic lemmas on
  strictly sorted lists and on 64-bit words.  Bytes are ordered lexicographically, as
  \<open>bytes::Bytes\<close> and \<open>&[u8]\<close> are.
\<close>

unbundle bit_operations_syntax

section \<open>Machine types\<close>

type_synonym u8 = "8 word"
type_synonym u64 = "64 word"
type_synonym bytes = "u8 list"

abbreviation u64_MAX :: u64 where
  "u64_MAX \<equiv> - 1"

section \<open>Collections of facts\<close>

named_theorems om_simps \<open>lookups and keys of ordered maps after an operation\<close>
named_theorems wf_intros \<open>well-formedness is kept by every operation\<close>
named_theorems frame_simps \<open>fields an operation leaves alone\<close>

section \<open>Words\<close>

lemma unat_u64_Suc:
  assumes "(x :: u64) < u64_MAX"
  shows "unat (x + 1) = Suc (unat x)"
proof -
  from assms have "1 + x \<noteq> 0" by (metis add_eq_0_iff order_less_irrefl)
  then show ?thesis using unatSuc [of x] by (simp add: add.commute)
qed

lemma unat_u64_MAX: "unat u64_MAX = 2 ^ 64 - 1"
  by (simp add: unsigned_minus_1_eq_mask mask_eq_exp_minus_1)

lemma u64_less_Suc: "(x :: u64) < u64_MAX \<Longrightarrow> x < x + 1"
  by (simp add: word_less_nat_alt unat_u64_Suc)

lemma u64_zero_less_MAX [simp]: "(0 :: u64) < u64_MAX"
  by (simp add: word_less_nat_alt unat_u64_MAX)

lemma u64_one_less_MAX [simp]: "(1 :: u64) < u64_MAX"
  by (simp add: word_less_nat_alt unat_u64_MAX)

lemma u64_Suc_le_iff: "(x :: u64) < u64_MAX \<Longrightarrow> x + 1 \<le> y \<longleftrightarrow> x < y"
  by (simp add: word_less_nat_alt word_le_nat_alt unat_u64_Suc Suc_le_eq)

lemma u64_less_Suc_iff: "(x :: u64) < u64_MAX \<Longrightarrow> y < x + 1 \<longleftrightarrow> y \<le> x"
  using u64_Suc_le_iff [of x y] by (simp add: linorder_not_le [symmetric])

section \<open>Strictly sorted lists\<close>

abbreviation ssorted :: "'a::linorder list \<Rightarrow> bool" where
  "ssorted xs \<equiv> sorted_wrt (<) xs"

lemma ssorted_distinct: "ssorted xs \<Longrightarrow> distinct xs"
  by (simp add: strict_sorted_iff)

lemma ssorted_filter: "ssorted (map f xs) \<Longrightarrow> ssorted (map f (filter P xs))"
  by (simp add: sorted_wrt_map sorted_wrt_filter)

lemma ssorted_take: "ssorted (map f xs) \<Longrightarrow> ssorted (map f (take n xs))"
  using sorted_wrt_take [of "(<)" "map f xs" n] by (simp add: take_map)

lemma ssorted_drop: "ssorted (map f xs) \<Longrightarrow> ssorted (map f (drop n xs))"
  using sorted_wrt_drop [of "(<)" "map f xs" n] by (simp add: drop_map)

lemma ssorted_hd_le:
  assumes "ssorted xs" and "x \<in> set xs"
  shows "hd xs \<le> x"
  using assms by (cases xs) (auto intro: less_imp_le)

lemma ssorted_le_last:
  assumes "ssorted xs" and "x \<in> set xs"
  shows "x \<le> last xs"
proof -
  from assms(2) have "xs \<noteq> []" by auto
  then have "xs = butlast xs @ [last xs]" by simp
  with assms show ?thesis
    by (metis (no_types, lifting) Un_iff less_imp_le list.set(1) list.set_intros(1)
        order_refl set_append set_ConsD sorted_wrt_append empty_iff)
qed

section \<open>Prefixes cut by a monotone predicate\<close>

text \<open>
  On a strictly sorted list a threshold predicate holds on a prefix, so the prefix
  \<open>takeWhile\<close> cuts is the whole \<open>filter\<close>, and every index is classified by its position.
\<close>

definition downward :: "('a \<Rightarrow> 'k::linorder) \<Rightarrow> ('a \<Rightarrow> bool) \<Rightarrow> bool" where
  "downward key P \<longleftrightarrow> (\<forall>x y. key x < key y \<longrightarrow> P y \<longrightarrow> P x)"

lemma downward_le: "downward key (\<lambda>x. key x \<le> b)"
  by (auto simp: downward_def)

lemma downward_less: "downward key (\<lambda>x. key x < b)"
  by (auto simp: downward_def)

lemma takeWhile_eq_filter_sorted:
  assumes "ssorted (map key xs)" and "downward key P"
  shows "takeWhile P xs = filter P xs"
  using assms by (induction xs) (auto simp: downward_def filter_empty_conv eq_commute [of "[]"])

lemma partitioned_nth:
  assumes "ssorted (map key xs)" and "downward key P" and "i < length xs"
  shows "P (xs ! i) \<longleftrightarrow> i < length (takeWhile P xs)"
proof
  assume Pi: "P (xs ! i)"
  show "i < length (takeWhile P xs)"
  proof (rule ccontr)
    let ?n = "length (takeWhile P xs)"
    assume "\<not> i < ?n"
    then have n: "?n \<le> i" by simp
    with assms(3) have not: "\<not> P (xs ! ?n)" by (simp add: nth_length_takeWhile)
    with Pi n have "?n < i" by (metis le_neq_implies_less)
    with assms(1,3) have "key (xs ! ?n) < key (xs ! i)"
      by (simp add: sorted_wrt_iff_nth_less)
    with assms(2) Pi not show False by (auto simp: downward_def)
  qed
next
  assume "i < length (takeWhile P xs)"
  then show "P (xs ! i)" by (metis nth_mem set_takeWhileD takeWhile_nth)
qed


lemma find_SomeD: "find P xs = Some x \<Longrightarrow> x \<in> set xs \<and> P x"
  by (induction xs) (auto split: if_splits)

section \<open>Printing\<close>

text \<open>The decimal text of a number.\<close>

fun show_nat :: "nat \<Rightarrow> string" where
  "show_nat n = (if n < 10 then [char_of (48 + n)] else show_nat (n div 10) @ [char_of (48 + n mod 10)])"

definition show_int :: "int \<Rightarrow> string" where
  "show_int i = (if i < 0 then CHR ''-'' # show_nat (nat (- i)) else show_nat (nat i))"

declare show_nat.simps [simp del]

lemma digit_char: "n < 10 \<Longrightarrow> char_of (48 + n) = ''0123456789'' ! n"
proof -
  assume "n < 10"
  then have "n \<in> set [0..<10]" by simp
  moreover have "list_all (\<lambda>n. char_of (48 + n) = ''0123456789'' ! n) [0..<10]" by code_simp
  ultimately show ?thesis unfolding list_all_iff by blast
qed

lemma show_nat_digits:
  "n < 10 \<Longrightarrow> show_nat n = [''0123456789'' ! n]"
  "10 \<le> n \<Longrightarrow> show_nat n = show_nat (n div 10) @ [''0123456789'' ! (n mod 10)]"
  by (simp_all add: show_nat.simps [of n] digit_char)

lemma read_show_nat: "foldl (\<lambda>n c. 10 * n + (of_char c - 48)) 0 (show_nat n) = n"
  by (induction n rule: show_nat.induct) (auto simp: show_nat.simps)

lemma show_nat_eq [simp]: "show_nat m = show_nat n \<longleftrightarrow> m = n"
  using read_show_nat by metis

section \<open>Runs and simulations\<close>

inductive trace :: "('s \<Rightarrow> 'e \<Rightarrow> 's \<Rightarrow> bool) \<Rightarrow> 's \<Rightarrow> 'e list \<Rightarrow> 's \<Rightarrow> bool"
  for st :: "'s \<Rightarrow> 'e \<Rightarrow> 's \<Rightarrow> bool" where
  trace_Nil: "trace st s [] s"
| trace_Cons: "trace st s (e # es) s2" if "st s e s1" "trace st s1 es s2"

inductive_simps trace_Nil_iff [simp]: "trace st s [] s'"
inductive_simps trace_Cons_iff [simp]: "trace st s (e # es) s'"

text \<open>
  A detailed machine implements an abstract one with the same events: every step of the first, from
  a state satisfying its invariant, is a step of the second between the abstractions.
\<close>

locale simulation =
  fixes cstep :: "'c \<Rightarrow> 'e \<Rightarrow> 'c \<Rightarrow> bool"
    and astep :: "'a \<Rightarrow> 'e \<Rightarrow> 'a \<Rightarrow> bool"
    and abs :: "'c \<Rightarrow> 'a"
    and inv :: "'c \<Rightarrow> bool"
  assumes inv_step: "inv s \<Longrightarrow> cstep s e s' \<Longrightarrow> inv s'"
    and sim_step: "inv s \<Longrightarrow> cstep s e s' \<Longrightarrow> astep (abs s) e (abs s')"
begin

lemma trace_sim: "trace cstep s es s' \<Longrightarrow> inv s \<Longrightarrow> inv s' \<and> trace astep (abs s) es (abs s')"
  by (induction rule: trace.induct) (auto intro: inv_step sim_step)

lemma abs_invariant:
  assumes "\<And>a e a'. P a \<Longrightarrow> astep a e a' \<Longrightarrow> P a'"
  shows "trace cstep s es s' \<Longrightarrow> inv s \<Longrightarrow> P (abs s) \<Longrightarrow> P (abs s')"
  by (induction rule: trace.induct) (auto intro: inv_step dest: sim_step assms)

end

end
