(* ===== verification/Oracle.thy ===== *)
theory Oracle
  imports Prelude
begin

text \<open>
  The timestamp oracle (\<open>src/oracle/inner.rs\<close>, \<open>src/oracle/oracle.rs\<close>): a high-water mark of issued
  versions and an anchor pairing a wall-clock reading with a monotonic one.  Clock readings come from
  the operating system and are arguments: \<open>unix\<close> is the wall clock in nanoseconds since the epoch
  (\<open>None\<close> before it), \<open>now\<close> a monotonic reading in nanoseconds.
\<close>

record Oracle =
  timestamp :: u64
  reference :: "u64 \<times> nat"
  resync_enable :: bool
  resync_handle :: bool
  resync_interval :: nat

text \<open>\<open>SystemTime::duration_since\<close> fails before the epoch and \<open>unwrap\<close> panics (\<open>None\<close>); \<open>as u64\<close> truncates.\<close>

definition current_unix_ns :: "nat option \<Rightarrow> u64 option" where
  "current_unix_ns unix = map_option of_nat unix"

definition background_resync :: "Oracle \<Rightarrow> Oracle" where
  "background_resync o' = o'\<lparr>resync_handle := True\<rparr>"

definition Oracle_new :: "nat \<Rightarrow> nat option \<Rightarrow> nat \<Rightarrow> Oracle option" where
  "Oracle_new interval unix now =
     (case current_unix_ns unix of
        None \<Rightarrow> None
      | Some reference_unix \<Rightarrow>
          Some (background_resync
            \<lparr>timestamp = reference_unix, reference = (reference_unix, now), resync_enable = True,
             resync_handle = False, resync_interval = interval\<rparr>))"

text \<open>\<open>Instant::elapsed\<close> saturates at zero; the addition is on 64 bits.\<close>

definition current_time_ns :: "Oracle \<Rightarrow> nat \<Rightarrow> u64" where
  "current_time_ns o' now = fst (reference o') + of_nat (now - snd (reference o'))"

text \<open>
  One round of the background thread: the flag is read before it parks and not again after it
  wakes, so a round that was entered replaces the anchor even when a shutdown came in between.
\<close>

definition resync_round :: "Oracle \<Rightarrow> nat option \<Rightarrow> nat \<Rightarrow> Oracle option" where
  "resync_round o' unix now =
     (if resync_enable o' then
        (case current_unix_ns unix of
           None \<Rightarrow> None
         | Some reference_unix \<Rightarrow> Some (o'\<lparr>reference := (reference_unix, now)\<rparr>))
      else Some o')"

definition oracle_shutdown :: "Oracle \<Rightarrow> Oracle" where
  "oracle_shutdown o' = o'\<lparr>resync_enable := False, resync_handle := False\<rparr>"

text \<open>\<open>AtomicU64::fetch_max\<close> on the high-water mark.\<close>

definition fetch_max_timestamp :: "Oracle \<Rightarrow> u64 \<Rightarrow> Oracle" where
  "fetch_max_timestamp o' v = o'\<lparr>timestamp := max (timestamp o') v\<rparr>"

text \<open>The candidate version of one \<open>atomic_merge\<close> attempt: the clock, or one past the high-water mark.\<close>

definition candidate_version :: "Oracle \<Rightarrow> nat \<Rightarrow> u64" where
  "candidate_version o' now =
     (let ver = current_time_ns o' now; last_ts = timestamp o'
      in if ver \<le> last_ts then last_ts + 1 else ver)"

section \<open>Facts\<close>

lemma candidate_above: "timestamp o' < u64_MAX \<Longrightarrow> timestamp o' < candidate_version o' now"
  by (simp add: candidate_version_def Let_def u64_less_Suc not_le)

lemma fetch_max_timestamp_le [simp]:
  "timestamp (fetch_max_timestamp o' v) = max (timestamp o') v"
  by (simp add: fetch_max_timestamp_def)

lemma resync_round_timestamp: "resync_round o' unix now = Some o'' \<Longrightarrow> timestamp o'' = timestamp o'"
  by (auto simp: resync_round_def split: if_splits option.splits)

lemma oracle_shutdown_timestamp [simp]: "timestamp (oracle_shutdown o') = timestamp o'"
  by (simp add: oracle_shutdown_def)

lemma resync_after_shutdown: "resync_round (oracle_shutdown o') unix now = Some (oracle_shutdown o')"
  by (simp add: resync_round_def oracle_shutdown_def)

lemma unat_current_time_ns:
  assumes "unat (fst (reference o')) + (now - snd (reference o')) < 2 ^ 64"
  shows "unat (current_time_ns o' now) = unat (fst (reference o')) + (now - snd (reference o'))"
proof -
  let ?d = "now - snd (reference o')"
  have "unat (of_nat ?d :: u64) = ?d" using assms by (simp add: unat_of_nat)
  then show ?thesis using assms
    by (simp add: current_time_ns_def unat_word_ariths)
qed

lemma current_time_ns_mono:
  assumes "unat (fst (reference o')) + (later - snd (reference o')) < 2 ^ 64" and "now \<le> later"
  shows "current_time_ns o' now \<le> current_time_ns o' later"
  using assms by (simp add: word_le_nat_alt unat_current_time_ns)

end
