(* ===== verification/Ordered_Map.thy ===== *)
theory Ordered_Map
  imports Prelude "HOL-Library.Multiset"
begin

text \<open>
  Ordered maps as strictly sorted association lists.  They stand for the standard library's
  \<open>BTreeMap\<close> (write sets) and, through the documented behaviour of an ordered map, for the
  skip lists the database keeps its queues, counters and data in.  Lookup is \<open>map_of\<close>.
\<close>

type_synonym ('k, 'v) omap = "('k \<times> 'v) list"

definition om_wf :: "('k::linorder, 'v) omap \<Rightarrow> bool" where
  "om_wf m \<longleftrightarrow> ssorted (map fst m)"

fun om_insert :: "'k::linorder \<Rightarrow> 'v \<Rightarrow> ('k, 'v) omap \<Rightarrow> ('k, 'v) omap" where
  "om_insert k v [] = [(k, v)]"
| "om_insert k v (e # m) =
     (if k < fst e then (k, v) # e # m
      else if fst e < k then e # om_insert k v m
      else (k, v) # m)"

definition om_remove :: "'k \<Rightarrow> ('k, 'v) omap \<Rightarrow> ('k, 'v) omap" where
  "om_remove k m = filter (\<lambda>e. fst e \<noteq> k) m"

definition om_get_or_insert :: "'k::linorder \<Rightarrow> 'v \<Rightarrow> ('k, 'v) omap \<Rightarrow> 'v \<times> ('k, 'v) omap" where
  "om_get_or_insert k v m =
     (case map_of m k of Some w \<Rightarrow> (w, m) | None \<Rightarrow> (v, om_insert k v m))"

section \<open>Lookups and keys\<close>

lemma map_of_om_insert [om_simps]: "map_of (om_insert k v m) = (map_of m)(k \<mapsto> v)"
  by (induction m) (auto simp: fun_eq_iff)

lemma map_of_om_remove [om_simps]: "map_of (om_remove k m) = (map_of m)(k := None)"
  by (induction m) (auto simp: om_remove_def fun_eq_iff)

lemma keys_om_insert [om_simps]: "fst ` set (om_insert k v m) = insert k (fst ` set m)"
  by (induction m) auto

lemma keys_om_remove [om_simps]: "fst ` set (om_remove k m) = fst ` set m - {k}"
  by (auto simp: om_remove_def)

lemma map_of_filter_key: "map_of (filter (\<lambda>e. P (fst e)) m) k = (if P k then map_of m k else None)"
  by (induction m) auto

section \<open>Well-formedness\<close>

lemma om_wf_Nil [simp]: "om_wf []"
  by (simp add: om_wf_def)

lemma om_wf_insert [wf_intros]: "om_wf m \<Longrightarrow> om_wf (om_insert k v m)"
proof (induction m)
  case Nil
  then show ?case by (simp add: om_wf_def)
next
  case (Cons e m)
  then have IH: "om_wf (om_insert k v m)" by (simp add: om_wf_def)
  have keys: "set (map fst (om_insert k v m)) = insert k (set (map fst m))"
    using keys_om_insert [of k v m] by simp
  show ?case using Cons.prems IH keys by (auto simp: om_wf_def)
qed

lemma om_wf_filter [wf_intros]: "om_wf m \<Longrightarrow> om_wf (filter P m)"
  by (simp add: om_wf_def ssorted_filter)

lemma om_wf_remove [wf_intros]: "om_wf m \<Longrightarrow> om_wf (om_remove k m)"
  by (simp add: om_remove_def om_wf_filter)

lemma om_wf_distinct: "om_wf m \<Longrightarrow> distinct (map fst m)"
  by (simp add: om_wf_def ssorted_distinct)

lemma om_wf_map_of_iff: "om_wf m \<Longrightarrow> map_of m k = Some v \<longleftrightarrow> (k, v) \<in> set m"
  by (simp add: om_wf_distinct)

lemma set_om_remove: "set (om_remove k m) = {e \<in> set m. fst e \<noteq> k}"
  by (auto simp: om_remove_def)

lemma set_om_insert:
  assumes "om_wf m"
  shows "set (om_insert k v m) = insert (k, v) {e \<in> set m. fst e \<noteq> k}"
proof -
  have "(j, x) \<in> set (om_insert k v m) \<longleftrightarrow> (j, x) \<in> insert (k, v) {e \<in> set m. fst e \<noteq> k}" for j x
    using om_wf_map_of_iff [OF om_wf_insert [OF assms], of k v j x] om_wf_map_of_iff [OF assms, of j x]
    by (auto simp: om_simps split: if_splits)
  then show ?thesis by auto
qed

lemma map_of_None_keys: "map_of m k = None \<longleftrightarrow> k \<notin> fst ` set m"
  by (simp add: map_of_eq_None_iff)

lemma om_insert_twice [simp]: "om_insert k v (om_insert k u m) = om_insert k v m"
  by (induction m) auto

section \<open>Entries as multisets\<close>

lemma mset_om_insert_new: "map_of m k = None \<Longrightarrow> mset (om_insert k v m) = add_mset (k, v) (mset m)"
  by (induction m) (auto split: if_splits)

lemma map_om_insert_same:
  assumes "om_wf m" and "map_of m k = Some old" and "h (k, v) = h (k, old)"
  shows "map h (om_insert k v m) = map h m"
  using assms
proof (induction m)
  case Nil
  then show ?case by simp
next
  case (Cons e m)
  show ?case
  proof (cases "fst e = k")
    case True
    with Cons.prems show ?thesis by (cases e) auto
  next
    case False
    with Cons.prems have mem: "map_of m k = Some old" by auto
    then have "(k, old) \<in> set m" by (rule map_of_SomeD)
    with Cons.prems have "fst e < k" by (auto simp: om_wf_def)
    with Cons mem False show ?thesis by (auto simp: om_wf_def)
  qed
qed

lemma mset_om_remove:
  assumes "om_wf m" and "map_of m k = Some v"
  shows "mset (om_remove k m) = mset m - {#(k, v)#}"
  using assms
proof (induction m)
  case Nil
  then show ?case by simp
next
  case (Cons e m)
  show ?case
  proof (cases "fst e = k")
    case True
    with Cons.prems have "filter (\<lambda>x. fst x \<noteq> k) m = m" by (auto simp: om_wf_def filter_id_conv)
    with True Cons.prems show ?thesis by (cases e) (simp add: om_remove_def)
  next
    case False
    with Cons show ?thesis by (cases e) (auto simp: om_remove_def om_wf_def)
  qed
qed

section \<open>The interface\<close>

text \<open>
  What the clients rely on: a lookup after an update, and a well-formedness predicate every
  update keeps.  A sequence of updates then leaves the last value written for each key.
\<close>

locale ordered_map =
  fixes get :: "'m \<Rightarrow> 'k \<Rightarrow> 'v option"
    and ins :: "'k \<Rightarrow> 'v \<Rightarrow> 'm \<Rightarrow> 'm"
    and rem :: "'k \<Rightarrow> 'm \<Rightarrow> 'm"
    and wf :: "'m \<Rightarrow> bool"
  assumes get_ins: "wf m \<Longrightarrow> get (ins k v m) = (get m)(k \<mapsto> v)"
    and get_rem: "wf m \<Longrightarrow> get (rem k m) = (get m)(k := None)"
    and wf_ins: "wf m \<Longrightarrow> wf (ins k v m)"
    and wf_rem: "wf m \<Longrightarrow> wf (rem k m)"
begin

lemma wf_fold_ins: "wf m \<Longrightarrow> wf (fold (\<lambda>(k, v). ins k v) es m)"
  by (induction es arbitrary: m) (auto simp: wf_ins)

lemma get_fold_ins: "wf m \<Longrightarrow> get (fold (\<lambda>(k, v). ins k v) es m) = get m ++ map_of (rev es)"
proof (induction es arbitrary: m)
  case Nil
  then show ?case by simp
next
  case (Cons e es)
  then show ?case by (cases e) (simp add: wf_ins get_ins fun_eq_iff map_add_def split: option.splits)
qed

lemma get_ins_rem_same: "wf m \<Longrightarrow> get (rem k (ins k v m)) = (get m)(k := None)"
  by (simp add: get_rem get_ins wf_ins)

end

interpretation om: ordered_map map_of om_insert om_remove om_wf
  by unfold_locales (auto simp: om_simps intro: wf_intros)

end
