(* ===== verification/Counters.thy ===== *)
theory Counters
  imports Ordered_Map "HOL-Library.Multiset"
begin

text \<open>
  The reference counts of active snapshots (\<open>register_counter\<close> and \<open>release_counter\<close> of
  \<open>src/tx/transaction_inner.rs\<close>, \<open>earliest_active\<close> and the tombstone of \<open>src/db/inner.rs\<close>).  A table
  maps a snapshot number to a shared counter; the counters live in a store of cells, so that a slot
  of the table and a transaction can hold the same counter and \<open>Arc::ptr_eq\<close> is equality of cells.
  The table is shown to implement the multiset of active snapshots, whose minimum the collectors use
  as their watermark.
\<close>

definition COUNTER_TOMBSTONE :: u64 where
  "COUNTER_TOMBSTONE = u64_MAX"

record Counters =
  slots :: "(u64, nat) omap"
  cells :: "u64 list"

definition Counters_new :: Counters where
  "Counters_new = \<lparr>slots = [], cells = []\<rparr>"

section \<open>Operations\<close>

text \<open>\<open>map.get_or_insert_with(v, || Arc::new(AtomicU64::new(0)))\<close>.\<close>

definition slot_get_or_insert :: "Counters \<Rightarrow> u64 \<Rightarrow> nat \<times> Counters" where
  "slot_get_or_insert t v =
     (case map_of (slots t) v of
        Some c \<Rightarrow> (c, t)
      | None \<Rightarrow> (length (cells t),
          t\<lparr>slots := om_insert v (length (cells t)) (slots t), cells := cells t @ [0]\<rparr>))"

text \<open>The increment loop: it gives up on a tombstone and otherwise ends with the counter raised by one.\<close>

definition acquire_counter :: "Counters \<Rightarrow> nat \<Rightarrow> bool \<times> Counters" where
  "acquire_counter t c =
     (let current = cells t ! c in
      if current = COUNTER_TOMBSTONE then (False, t)
      else (True, t\<lparr>cells := (cells t)[c := current + 1]\<rparr>))"

text \<open>
  The decrement loop: \<open>None\<close> when it never returns, which happens at 0 (the exchange from 1 always
  fails); otherwise whether the counter was the last and is now a tombstone.
\<close>

definition release_counter :: "Counters \<Rightarrow> nat \<Rightarrow> (bool \<times> Counters) option" where
  "release_counter t c =
     (let current = cells t ! c in
      if current > 1 then Some (False, t\<lparr>cells := (cells t)[c := current - 1]\<rparr>)
      else if current = 1 then Some (True, t\<lparr>cells := (cells t)[c := COUNTER_TOMBSTONE]\<rparr>)
      else None)"

definition remove_slot_if_same :: "Counters \<Rightarrow> u64 \<Rightarrow> nat \<Rightarrow> Counters" where
  "remove_slot_if_same t v c =
     (case map_of (slots t) v of
        Some c' \<Rightarrow> if c' = c then t\<lparr>slots := om_remove v (slots t)\<rparr> else t
      | None \<Rightarrow> t)"

text \<open>
  The registration loop.  In round \<open>i\<close> the two loads of the shared number give
  \<open>fst (loads i)\<close> and \<open>snd (loads i)\<close>, and the load of the collector's floor, if there is one,
  gives \<open>floor i\<close>; other threads may move both between rounds.
\<close>

partial_function (option) register_counter ::
  "(nat \<Rightarrow> u64 \<times> u64) \<Rightarrow> (nat \<Rightarrow> u64) option \<Rightarrow> nat \<Rightarrow> Counters \<Rightarrow> (u64 \<times> nat \<times> Counters) option" where
  "register_counter loads gc_floor i t =
     (let v = fst (loads i);
          (counter, t1) = slot_get_or_insert t v;
          (acquired, t2) = acquire_counter t1 counter in
      if \<not> acquired then register_counter loads gc_floor (i + 1) t2
      else
        let atomic_stable = (snd (loads i) = v);
            floor_ok = (case gc_floor of Some fl \<Rightarrow> fl i \<le> v | None \<Rightarrow> True) in
        if atomic_stable \<and> floor_ok then Some (v, counter, t2)
        else
          (case release_counter t2 counter of
             None \<Rightarrow> None
           | Some (zero, t3) \<Rightarrow>
               register_counter loads gc_floor (i + 1)
                 (if zero then remove_slot_if_same t3 v counter else t3)))"

text \<open>What \<open>Transaction::drop\<close> does with each of its two counters.\<close>

definition drop_counter :: "Counters \<Rightarrow> u64 \<Rightarrow> nat \<Rightarrow> Counters option" where
  "drop_counter t v c =
     (case release_counter t c of
        None \<Rightarrow> None
      | Some (zero, t') \<Rightarrow> Some (if zero then t'\<lparr>slots := om_remove v (slots t')\<rparr> else t'))"

definition earliest_active :: "Counters \<Rightarrow> u64 \<Rightarrow> u64" where
  "earliest_active t fallback =
     (case find (\<lambda>e. cells t ! snd e \<noteq> 0 \<and> cells t ! snd e \<noteq> COUNTER_TOMBSTONE) (slots t) of
        Some e \<Rightarrow> fst e
      | None \<Rightarrow> fallback)"

section \<open>Invariant\<close>

text \<open>
  \<open>hs\<close> is the multiset of handles (snapshot, cell) that live transactions hold: every slot counts
  its handles and is held by at least one, every handle is in its slot, distinct slots have
  distinct cells.
\<close>

definition counters_inv :: "Counters \<Rightarrow> (u64 \<times> nat) multiset \<Rightarrow> bool" where
  "counters_inv t hs \<longleftrightarrow>
     om_wf (slots t) \<and> inj_on snd (set (slots t)) \<and> snd ` set (slots t) \<subseteq> {..<length (cells t)}
     \<and> size hs < 2 ^ 64 - 1
     \<and> set_mset hs = set (slots t)
     \<and> (\<forall>e\<in>set (slots t). cells t ! snd e = of_nat (count hs e))"

lemma counters_inv_new: "counters_inv Counters_new {#}"
  by (simp add: counters_inv_def Counters_new_def)

lemma counters_inv_slot:
  assumes "counters_inv t hs"
  shows "map_of (slots t) v = Some c \<longleftrightarrow> (v, c) \<in># hs"
  using assms by (auto simp: counters_inv_def om_wf_map_of_iff)

lemma counters_inv_cell:
  assumes "counters_inv t hs" and "e \<in># hs"
  shows "unat (cells t ! snd e) = count hs e" and "cells t ! snd e \<noteq> 0"
    and "cells t ! snd e \<noteq> COUNTER_TOMBSTONE" and "snd e < length (cells t)"
proof -
  have le: "count hs e \<le> size hs" by (rule count_le_size)
  from assms have cell: "cells t ! snd e = of_nat (count hs e)" and sz: "size hs < 2 ^ 64 - 1"
    by (auto simp: counters_inv_def)
  with le show u: "unat (cells t ! snd e) = count hs e" by (simp add: unat_of_nat)
  with assms(2) show "cells t ! snd e \<noteq> 0" by (metis count_greater_zero_iff neq0_conv unat_0)
  show "cells t ! snd e \<noteq> COUNTER_TOMBSTONE"
  proof
    assume "cells t ! snd e = COUNTER_TOMBSTONE"
    with u have "count hs e = unat u64_MAX" by (simp add: COUNTER_TOMBSTONE_def)
    with le sz show False by (simp add: unat_u64_MAX)
  qed
  from assms show "snd e < length (cells t)" by (auto simp: counters_inv_def)
qed

lemma counters_inv_upd_cell:
  assumes "counters_inv t hs" and "(v, c) \<in># hs" and "e \<in> set (slots t)" and "e \<noteq> (v, c)"
  shows "(cells t)[c := x] ! snd e = cells t ! snd e"
proof -
  from assms have "(v, c) \<in> set (slots t)" and inj: "inj_on snd (set (slots t))"
    by (auto simp: counters_inv_def)
  with assms(3,4) have "snd e \<noteq> c" by (metis inj_onD snd_conv)
  then show ?thesis by simp
qed

lemma acquire_inv:
  assumes inv: "counters_inv t hs" and sz: "Suc (size hs) < 2 ^ 64 - 1"
    and get: "slot_get_or_insert t v = (c, t1)" and acq: "acquire_counter t1 c = (a, t2)"
  shows "a \<and> counters_inv t2 (add_mset (v, c) hs)"
proof (cases "map_of (slots t) v")
  case (Some c')
  with get have c: "c' = c" and t1: "t1 = t" by (auto simp: slot_get_or_insert_def)
  from Some inv have mem: "(v, c) \<in># hs" by (simp add: counters_inv_slot c)
  note cell = counters_inv_cell [OF inv mem, simplified]
  from acq cell(3) have a: a and t2: "t2 = t\<lparr>cells := (cells t)[c := cells t ! c + 1]\<rparr>"
    by (auto simp: acquire_counter_def t1 Let_def)
  have "cells t2 ! snd e = of_nat (count (add_mset (v, c) hs) e)" if "e \<in> set (slots t)" for e
    using that inv mem counters_inv_upd_cell [OF inv mem that] cell(4)
    by (cases "e = (v, c)") (auto simp: t2 counters_inv_def add.commute)
  with a inv mem sz show ?thesis by (auto simp: counters_inv_def t2)
next
  case None
  let ?n = "length (cells t)"
  from None get have c: "c = ?n"
    and t1: "t1 = t\<lparr>slots := om_insert v ?n (slots t), cells := cells t @ [0]\<rparr>"
    by (auto simp: slot_get_or_insert_def)
  have "(0 :: u64) \<noteq> COUNTER_TOMBSTONE" by (simp add: COUNTER_TOMBSTONE_def)
  with acq have a: a and t2: "t2 = t1\<lparr>cells := cells t @ [1]\<rparr>"
    by (auto simp: acquire_counter_def t1 c Let_def nth_append)
  have wf: "om_wf (slots t)" and ids: "snd ` set (slots t) \<subseteq> {..<?n}" and hs: "set_mset hs = set (slots t)"
    using inv by (auto simp: counters_inv_def)
  have set: "set (om_insert v ?n (slots t)) = insert (v, ?n) (set (slots t))"
    using None by (auto simp: set_om_insert [OF wf] map_of_None_keys)
  have new: "(v, ?n) \<notin># hs" using ids hs by force
  then have "count hs (v, ?n) = 0" by (simp add: not_in_iff)
  moreover have "cells t2 ! snd e = of_nat (count hs e)" if "e \<in> set (slots t)" for e
    using that inv ids by (auto simp: t2 counters_inv_def nth_append)
  moreover have "inj_on snd (insert (v, ?n) (set (slots t)))"
    using inv ids by (auto simp: counters_inv_def)
  moreover have "(v, ?n) \<notin> set (slots t)" using new hs by simp
  ultimately show ?thesis
    using a sz hs ids om_wf_insert [OF wf] 
    by (auto simp: counters_inv_def t1 t2 c set nth_append)
qed

lemma counters_inv_other_slot:
  assumes "counters_inv t hs" and "(v, c) \<in># hs"
  shows "{e \<in> set (slots t). fst e \<noteq> v} = set (slots t) - {(v, c)}"
proof -
  from assms have "map_of (slots t) v = Some c" by (simp add: counters_inv_slot)
  moreover have "om_wf (slots t)" using assms by (simp add: counters_inv_def)
  ultimately show ?thesis by (auto simp: om_wf_map_of_iff) (metis om_wf_map_of_iff option.inject)
qed

lemma release_inv:
  assumes inv: "counters_inv t hs" and mem: "(v, c) \<in># hs"
  obtains z t' where "release_counter t c = Some (z, t')"
    and "counters_inv (if z then t'\<lparr>slots := om_remove v (slots t')\<rparr> else t') (hs - {#(v, c)#})"
    and "map_of (slots t') v = Some c"
proof -
  note cell = counters_inv_cell [OF inv mem, simplified]
  have slot: "map_of (slots t) v = Some c" using inv mem by (simp add: counters_inv_slot)
  have wf: "om_wf (slots t)" and hs: "set_mset hs = set (slots t)" using inv by (auto simp: counters_inv_def)
  have sz: "size (hs - {#(v, c)#}) < 2 ^ 64 - 1"
    using inv by (auto simp: counters_inv_def size_Diff_singleton [OF mem])
  have other: "(cells t)[c := x] ! snd e = of_nat (count (hs - {#(v, c)#}) e)"
    if "e \<in> set (slots t)" "e \<noteq> (v, c)" for e x
    using counters_inv_upd_cell [OF inv mem that] that inv by (simp add: counters_inv_def)
  show ?thesis
  proof (cases "count hs (v, c) = 1")
    case True
    with cell(1) have one: "cells t ! c = 1" by (simp add: word_unat_eq_iff)
    let ?t = "t\<lparr>cells := (cells t)[c := COUNTER_TOMBSTONE]\<rparr>"
    have set: "set (om_remove v (slots t)) = set (slots t) - {(v, c)}"
      by (simp add: set_om_remove counters_inv_other_slot [OF inv mem])
    have "e \<in># hs - {#(v, c)#} \<longleftrightarrow> e \<in> set (slots t) - {(v, c)}" for e
      using True hs by (cases "e = (v, c)") (auto simp: in_diff_count simp flip: hs)
    then have "set_mset (hs - {#(v, c)#}) = set (slots t) - {(v, c)}" by blast
    with sz other inv have "counters_inv (?t\<lparr>slots := om_remove v (slots ?t)\<rparr>) (hs - {#(v, c)#})"
      by (auto simp: counters_inv_def set intro: om_wf_remove inj_on_subset)
    with that [of True ?t] slot one show ?thesis by (simp add: release_counter_def)
  next
    case False
    with mem have gt: "1 < count hs (v, c)" by (metis One_nat_def Suc_lessI count_greater_zero_iff)
    with cell(1) have gtw: "1 < cells t ! c" by (simp add: word_less_nat_alt)
    let ?t = "t\<lparr>cells := (cells t)[c := cells t ! c - 1]\<rparr>"
    have "e \<in># hs - {#(v, c)#} \<longleftrightarrow> e \<in># hs" for e
      using gt mem by (cases "e = (v, c)") (auto simp: in_diff_count)
    then have set: "set_mset (hs - {#(v, c)#}) = set (slots t)" using hs by auto
    have "cells t ! c = of_nat (count hs (v, c))"
      using inv mem hs by (auto simp: counters_inv_def)
    moreover have "(of_nat (count hs (v, c) - 1) :: u64) = of_nat (count hs (v, c)) - 1"
      using gt by (metis less_imp_le of_nat_1 of_nat_diff)
    ultimately have "cells ?t ! c = of_nat (count (hs - {#(v, c)#}) (v, c))"
      using cell(4) by simp
    with other have "cells ?t ! snd e = of_nat (count (hs - {#(v, c)#}) e)" if "e \<in> set (slots t)" for e
      using that by (cases "e = (v, c)") auto
    with sz set inv have "counters_inv ?t (hs - {#(v, c)#})"
      by (simp add: counters_inv_def)
    with that [of False ?t] slot gtw show ?thesis by (simp add: release_counter_def)
  qed
qed

lemma drop_counter_inv:
  assumes "counters_inv t hs" and "(v, c) \<in># hs"
  shows "\<exists>t'. drop_counter t v c = Some t' \<and> counters_inv t' (hs - {#(v, c)#})"
proof -
  obtain z t' where "release_counter t c = Some (z, t')"
    and "counters_inv (if z then t'\<lparr>slots := om_remove v (slots t')\<rparr> else t') (hs - {#(v, c)#})"
    using release_inv [OF assms] by blast
  then show ?thesis by (simp add: drop_counter_def)
qed

section \<open>Registration\<close>

text \<open>A round of the loop either returns or leaves the registered handles as they were.\<close>

abbreviation round_ok :: "(nat \<Rightarrow> u64 \<times> u64) \<Rightarrow> (nat \<Rightarrow> u64) option \<Rightarrow> nat \<Rightarrow> bool" where
  "round_ok loads gc_floor i \<equiv>
     snd (loads i) = fst (loads i) \<and> (\<forall>fl. gc_floor = Some fl \<longrightarrow> fl i \<le> fst (loads i))"

lemma register_counter_round:
  assumes "counters_inv t hs" and "Suc (size hs) < 2 ^ 64 - 1"
  shows "if round_ok loads gc_floor i
    then \<exists>c t'. register_counter loads gc_floor i t = Some (fst (loads i), c, t')
           \<and> counters_inv t' (add_mset (fst (loads i), c) hs)
    else \<exists>t'. register_counter loads gc_floor i t = register_counter loads gc_floor (i + 1) t'
           \<and> counters_inv t' hs"
proof -
  let ?v = "fst (loads i)"
  obtain c t1 where get: "slot_get_or_insert t ?v = (c, t1)" by fastforce
  obtain a t2 where acq: "acquire_counter t1 c = (a, t2)" by fastforce
  from acquire_inv [OF assms get acq] have a: a and inv: "counters_inv t2 (add_mset (?v, c) hs)" by auto
  have floor: "(case gc_floor of None \<Rightarrow> True | Some fl \<Rightarrow> fl i \<le> ?v)
      \<longleftrightarrow> (\<forall>fl. gc_floor = Some fl \<longrightarrow> fl i \<le> ?v)" by (cases gc_floor) auto
  show ?thesis
  proof (cases "round_ok loads gc_floor i")
    case True
    with a inv show ?thesis
      by (simp add: register_counter.simps [of loads gc_floor i t] get acq floor Let_def)
  next
    case False
    from release_inv [OF inv, of ?v c] obtain z t3 where rel: "release_counter t2 c = Some (z, t3)"
      and inv3: "counters_inv (if z then t3\<lparr>slots := om_remove ?v (slots t3)\<rparr> else t3) hs"
      and slot: "map_of (slots t3) ?v = Some c" by auto
    from slot inv3 have "counters_inv (if z then remove_slot_if_same t3 ?v c else t3) hs"
      by (cases z) (simp_all add: remove_slot_if_same_def)
    moreover have "register_counter loads gc_floor i t
        = register_counter loads gc_floor (i + 1) (if z then remove_slot_if_same t3 ?v c else t3)"
      using False a by (subst register_counter.simps) (auto simp: get acq rel floor Let_def)
    ultimately show ?thesis using False by auto
  qed
qed

lemma register_counter_returns:
  assumes "counters_inv t hs" and "Suc (size hs) < 2 ^ 64 - 1"
    and "i \<le> n" and "round_ok loads gc_floor n"
  shows "\<exists>j c t'. i \<le> j \<and> j \<le> n \<and> round_ok loads gc_floor j
    \<and> register_counter loads gc_floor i t = Some (fst (loads j), c, t')
    \<and> counters_inv t' (add_mset (fst (loads j), c) hs)"
  using assms(3,1)
proof (induction i arbitrary: t rule: inc_induct)
  case base
  then show ?case using register_counter_round [OF _ assms(2), where t = t and loads = loads and gc_floor = gc_floor and i = n] assms(4) by auto
next
  case (step i)
  show ?case
  proof (cases "round_ok loads gc_floor i")
    case True
    with step register_counter_round [OF _ assms(2), where t = t and loads = loads and gc_floor = gc_floor and i = i] show ?thesis
      by (metis less_or_eq_imp_le order_refl)
  next
    case False
    with step.prems register_counter_round [OF _ assms(2), where t = t and loads = loads and gc_floor = gc_floor and i = i]
    obtain t' where eq: "register_counter loads gc_floor i t = register_counter loads gc_floor (i + 1) t'"
      and inv: "counters_inv t' hs" by auto
    from step.IH [OF inv] obtain j c u where "Suc i \<le> j" "j \<le> n" "round_ok loads gc_floor j"
      "register_counter loads gc_floor (Suc i) t' = Some (fst (loads j), c, u)"
      "counters_inv u (add_mset (fst (loads j), c) hs)" by blast
    with eq show ?thesis by (intro exI [of _ j] exI [of _ c] exI [of _ u]) auto
  qed
qed

section \<open>The watermark\<close>

lemma find_Some_hd:
  assumes "\<forall>x\<in>set xs. P x"
  shows "find P xs = (if xs = [] then None else Some (hd xs))"
  using assms by (cases xs) auto

lemma earliest_active_hd:
  assumes "counters_inv t hs"
  shows "earliest_active t fallback = (if slots t = [] then fallback else fst (hd (slots t)))"
proof -
  have "\<forall>e\<in>set (slots t). cells t ! snd e \<noteq> 0 \<and> cells t ! snd e \<noteq> COUNTER_TOMBSTONE"
    using counters_inv_cell [OF assms] assms by (auto simp: counters_inv_def)
  from find_Some_hd [OF this] show ?thesis by (simp add: earliest_active_def)
qed

lemma earliest_active_Min:
  assumes "counters_inv t hs"
  shows "earliest_active t fallback = (if hs = {#} then fallback else Min (fst ` set_mset hs))"
proof (cases "slots t")
  case Nil
  with assms show ?thesis by (simp add: earliest_active_hd [OF assms] counters_inv_def)
next
  case (Cons e es)
  have "Min (fst ` set_mset hs) = fst e"
    using assms Cons by (intro Min_eqI) (auto simp: counters_inv_def om_wf_def less_imp_le)
  moreover have "hs \<noteq> {#}" using assms Cons by (auto simp: counters_inv_def)
  ultimately show ?thesis by (simp add: earliest_active_hd [OF assms] Cons)
qed

text \<open>
  What transactions and collectors rely on: a handle can be registered and dropped, and the
  watermark is the least registered snapshot.  A watermark therefore bounds every live snapshot
  from below, and moves up only when the oldest snapshots are dropped.
\<close>

locale snapshot_registry =
  fixes register :: "'t \<Rightarrow> u64 \<Rightarrow> (u64 \<times> 'h \<times> 't) option"
    and unregister :: "'t \<Rightarrow> u64 \<Rightarrow> 'h \<Rightarrow> 't option"
    and watermark :: "'t \<Rightarrow> u64 \<Rightarrow> u64"
    and inv :: "'t \<Rightarrow> (u64 \<times> 'h) multiset \<Rightarrow> bool"
    and capacity :: nat
  assumes register_ok: "inv t hs \<Longrightarrow> Suc (size hs) < capacity \<Longrightarrow>
      \<exists>h t'. register t v = Some (v, h, t') \<and> inv t' (add_mset (v, h) hs)"
    and unregister_ok: "inv t hs \<Longrightarrow> (v, h) \<in># hs \<Longrightarrow>
      \<exists>t'. unregister t v h = Some t' \<and> inv t' (hs - {#(v, h)#})"
    and watermark_Min: "inv t hs \<Longrightarrow>
      watermark t fallback = (if hs = {#} then fallback else Min (fst ` set_mset hs))"
begin

lemma watermark_le: "inv t hs \<Longrightarrow> (v, h) \<in># hs \<Longrightarrow> watermark t fallback \<le> v"
  by (auto simp: watermark_Min intro!: Min_le rev_image_eqI)

lemma watermark_le_fallback:
  "inv t hs \<Longrightarrow> \<forall>e\<in>#hs. fst e \<le> fallback \<Longrightarrow> watermark t fallback \<le> fallback"
  by (cases hs) (auto simp: watermark_Min Min_le_iff)

lemma register_watermark:
  assumes "inv t hs" "Suc (size hs) < capacity" "register t v = Some (v, h, t')"
    and "watermark t fallback \<le> v"
  shows "watermark t' v = (if hs = {#} then v else watermark t fallback)"
proof -
  from register_ok [OF assms(1,2), of v] assms(3) have inv: "inv t' (add_mset (v, h) hs)" by auto
  show ?thesis
  proof (cases "hs = {#}")
    case True
    with inv show ?thesis by (simp add: watermark_Min)
  next
    case False
    with assms(1,4) have "Min (fst ` set_mset hs) \<le> v" by (simp add: watermark_Min)
    with False inv assms(1) show ?thesis by (simp add: watermark_Min min_absorb2)
  qed
qed

end

abbreviation register_now :: "Counters \<Rightarrow> u64 \<Rightarrow> (u64 \<times> nat \<times> Counters) option" where
  "register_now t v \<equiv> register_counter (\<lambda>_. (v, v)) None 0 t"

interpretation reg: snapshot_registry register_now drop_counter earliest_active counters_inv "2 ^ 64 - 1"
proof unfold_locales
  show "\<exists>h t'. register_now t v = Some (v, h, t') \<and> counters_inv t' (add_mset (v, h) hs)"
    if "counters_inv t hs" "Suc (size hs) < 2 ^ 64 - 1" for t hs v
    using register_counter_returns
      [OF that, where i = 0 and n = 0 and loads = "\<lambda>_. (v, v)" and gc_floor = None] by auto
qed (simp_all add: drop_counter_inv earliest_active_Min)

end
