(* ===== verification/Versions.thy ===== *)
theory Versions
  imports Prelude
begin

text \<open>
  The version chain of one key (\<open>src/versions/version.rs\<close>, \<open>src/versions/versions.rs\<close>):
  a list of (version, value) pairs in strictly ascending version order, a value \<open>None\<close> being
  a deletion mark.  The index searches are shown equal to their reference on sorted chains,
  \<open>push\<close> equal to a one-path insertion, and reads and garbage collection are related to the
  history a chain denotes, the value visible at each snapshot.
\<close>

section \<open>Standard-library searches\<close>

text \<open>\<open>Iterator::rposition\<close>: the last index that satisfies the predicate, scanned from the back.\<close>

fun rposition_below :: "('a \<Rightarrow> bool) \<Rightarrow> 'a list \<Rightarrow> nat \<Rightarrow> nat option" where
  "rposition_below P xs 0 = None"
| "rposition_below P xs (Suc i) = (if P (xs ! i) then Some i else rposition_below P xs i)"

definition rposition :: "('a \<Rightarrow> bool) \<Rightarrow> 'a list \<Rightarrow> nat option" where
  "rposition P xs = rposition_below P xs (length xs)"

text \<open>\<open>slice::partition_point\<close>: the branch-reduced binary search of the standard library.\<close>

fun bisect :: "('a \<Rightarrow> bool) \<Rightarrow> 'a list \<Rightarrow> nat \<Rightarrow> nat \<Rightarrow> nat" where
  "bisect P xs base sz =
     (if 1 < sz
      then let half = sz div 2; mid = base + half
           in bisect P xs (if P (xs ! mid) then mid else base) (sz - half)
      else base)"

declare bisect.simps [simp del]

definition partition_point :: "('a \<Rightarrow> bool) \<Rightarrow> 'a list \<Rightarrow> nat" where
  "partition_point P xs =
     (if xs = [] then 0
      else let base = bisect P xs 0 (length xs)
           in if P (xs ! base) then base + 1 else base)"

section \<open>Data\<close>

record Version =
  version :: u64
  value_of :: "bytes option"

type_synonym Versions = "Version list"

datatype IndexOrUpdate = Ignore | Index nat | Update nat

definition Versions_new :: Versions where
  "Versions_new = []"

definition Versions_from :: "Version \<Rightarrow> Versions" where
  "Versions_from v = [v]"

definition Version_cmp_less :: "Version \<Rightarrow> Version \<Rightarrow> bool" where
  "Version_cmp_less a b \<longleftrightarrow> version a < version b"

section \<open>Index searches\<close>

definition find_index_lt_version :: "Versions \<Rightarrow> u64 \<Rightarrow> nat" where
  "find_index_lt_version inner ver =
     (if inner \<noteq> [] \<and> ver > version (last inner) then length inner
      else if length inner \<le> 4
      then (case rposition (\<lambda>v. version v < ver) inner of None \<Rightarrow> 0 | Some i \<Rightarrow> i + 1)
      else partition_point (\<lambda>v. version v < ver) inner)"

definition find_index_lte_version :: "Versions \<Rightarrow> u64 \<Rightarrow> nat" where
  "find_index_lte_version inner ver =
     (if inner \<noteq> [] \<and> ver \<ge> version (last inner) then length inner
      else if length inner \<le> 4
      then (case rposition (\<lambda>v. version v \<le> ver) inner of None \<Rightarrow> 0 | Some i \<Rightarrow> i + 1)
      else partition_point (\<lambda>v. version v \<le> ver) inner)"

section \<open>Writes\<close>

definition fetch_index_or_update :: "Versions \<Rightarrow> Version \<Rightarrow> IndexOrUpdate" where
  "fetch_index_or_update inner val =
     (let idx = find_index_lte_version inner (version val) in
      if idx = 0 then (if value_of val = None then Ignore else Index idx)
      else if idx - 1 < length inner then
        (let existing = inner ! (idx - 1) in
         if version existing = version val
         then (if value_of existing = value_of val then Ignore else Update (idx - 1))
         else if value_of existing = value_of val then Ignore
         else Index idx)
      else Index idx)"

definition insert_at :: "nat \<Rightarrow> 'a \<Rightarrow> 'a list \<Rightarrow> 'a list" where
  "insert_at i x xs = take i xs @ x # drop i xs"

definition push_slow :: "Versions \<Rightarrow> Version \<Rightarrow> Versions" where
  "push_slow inner val =
     (case fetch_index_or_update inner val of
        Ignore \<Rightarrow> inner
      | Index idx \<Rightarrow> insert_at idx val inner
      | Update i \<Rightarrow> inner[i := (inner ! i)\<lparr>value_of := value_of val\<rparr>])"

definition push :: "Versions \<Rightarrow> Version \<Rightarrow> Versions" where
  "push inner val =
     (if inner \<noteq> [] then
        (let l = last inner in
         if version val > version l
         then (if value_of val \<noteq> value_of l then inner @ [val] else inner)
         else if version val = version l
         then (if value_of val \<noteq> value_of l
               then inner[length inner - 1 := l\<lparr>value_of := value_of val\<rparr>] else inner)
         else push_slow inner val)
      else if value_of val \<noteq> None then [val] else inner)"

section \<open>Reads and garbage collection\<close>

definition fetch_version :: "Versions \<Rightarrow> u64 \<Rightarrow> bytes option" where
  "fetch_version inner ver =
     (let idx = find_index_lte_version inner ver in
      if idx > 0 then (if idx - 1 < length inner then value_of (inner ! (idx - 1)) else None)
      else None)"

definition exists_version :: "Versions \<Rightarrow> u64 \<Rightarrow> bool" where
  "exists_version inner ver =
     (let idx = find_index_lte_version inner ver in
      if idx > 0 then idx - 1 < length inner \<and> value_of (inner ! (idx - 1)) \<noteq> None
      else False)"

definition all_versions :: "Versions \<Rightarrow> (u64 \<times> bytes option) list" where
  "all_versions inner = map (\<lambda>v. (version v, value_of v)) inner"

definition drain_to :: "nat \<Rightarrow> Versions \<Rightarrow> Versions" where
  "drain_to n inner = drop n inner"

text \<open>The chain after the call and the returned length.\<close>

definition gc_older_versions :: "Versions \<Rightarrow> u64 \<Rightarrow> Versions \<times> nat" where
  "gc_older_versions inner ver =
     (let lte = find_index_lte_version inner ver in
      if lte = 0 then (inner, length inner)
      else let visible = lte - 1;
               inner' = (if value_of (inner ! visible) = None
                         then drain_to lte inner else drain_to visible inner)
           in (inner', length inner'))"

section \<open>Invariant and reference semantics\<close>

definition versions_wf :: "Versions \<Rightarrow> bool" where
  "versions_wf inner \<longleftrightarrow> ssorted (map version inner)"

text \<open>The history of a chain: the value of the newest entry not newer than the snapshot.\<close>

definition value_at :: "Versions \<Rightarrow> u64 \<Rightarrow> bytes option" where
  "value_at inner w =
     (let seen = filter (\<lambda>v. version v \<le> w) inner
      in if seen = [] then None else value_of (last seen))"

definition push_reference :: "Versions \<Rightarrow> Version \<Rightarrow> Versions" where
  "push_reference inner val =
     (let pre = filter (\<lambda>v. version v \<le> version val) inner;
          post = filter (\<lambda>v. version val < version v) inner in
      if pre = [] then (if value_of val = None then post else val # post)
      else if version (last pre) = version val then butlast pre @ val # post
      else if value_of (last pre) = value_of val then pre @ post
      else pre @ val # post)"

section \<open>The searches are correct on sorted chains\<close>

lemma rposition_below_threshold:
  "(\<And>i. i < k \<Longrightarrow> P (xs ! i) \<longleftrightarrow> i < n) \<Longrightarrow>
     (case rposition_below P xs k of None \<Rightarrow> 0 | Some i \<Rightarrow> i + 1) = min k n"
  by (induction k) (simp_all add: min_def)

lemma rposition_sorted:
  assumes "ssorted (map key xs)" and "downward key P"
  shows "(case rposition P xs of None \<Rightarrow> 0 | Some i \<Rightarrow> i + 1) = length (takeWhile P xs)"
  using rposition_below_threshold [of "length xs" P xs, OF partitioned_nth [OF assms]]
    length_takeWhile_le [of P xs]
  by (simp add: rposition_def)

lemma bisect_invariant:
  assumes part: "\<And>i. i < length xs \<Longrightarrow> P (xs ! i) \<longleftrightarrow> i < n"
    and "0 < sz" and "base + sz \<le> length xs" and "base = 0 \<or> base < n" and "n \<le> base + sz"
  shows "bisect P xs base sz < length xs
    \<and> (bisect P xs base sz = 0 \<or> bisect P xs base sz < n) \<and> n \<le> bisect P xs base sz + 1"
  using assms
proof (induction P xs base sz rule: bisect.induct)
  case (1 P xs base sz)
  note part = "1.prems"(1)
  show ?case
  proof (cases "1 < sz")
    case False
    with "1.prems" show ?thesis by (simp add: bisect.simps [of P xs base sz])
  next
    case True
    let ?half = "sz div 2"
    let ?base = "if P (xs ! (base + ?half)) then base + ?half else base"
    from True "1.prems" have half: "0 < ?half" "?half < sz" by auto
    have half_le: "?half \<le> sz - ?half" by arith
    from half "1.prems" have mid: "base + ?half < length xs" by arith
    note P = part [OF mid]
    from half have "0 < sz - ?half" by simp
    moreover have "?base + (sz - ?half) \<le> length xs"
      using "1.prems" half by (cases "P (xs ! (base + ?half))") (simp_all del: div_mult_self1)
    moreover have "?base = 0 \<or> ?base < n" using "1.prems" P by simp
    moreover have "n \<le> ?base + (sz - ?half)"
      using "1.prems" P half half_le by (cases "base + ?half < n") simp_all
    ultimately have goal: "0 < sz - ?half" "?base + (sz - ?half) \<le> length xs" "?base = 0 \<or> ?base < n"
      "n \<le> ?base + (sz - ?half)" by blast+
    with True part have "bisect P xs ?base (sz - ?half) < length xs
      \<and> (bisect P xs ?base (sz - ?half) = 0 \<or> bisect P xs ?base (sz - ?half) < n)
      \<and> n \<le> bisect P xs ?base (sz - ?half) + 1"
      by (intro "1.IH") auto
    with True show ?thesis by (simp add: bisect.simps [of P xs base sz] Let_def)
  qed
qed

lemma partition_point_sorted:
  assumes "ssorted (map key xs)" and "downward key P"
  shows "partition_point P xs = length (takeWhile P xs)"
proof (cases "xs = []")
  case True
  then show ?thesis by (simp add: partition_point_def)
next
  case False
  let ?n = "length (takeWhile P xs)" and ?b = "bisect P xs 0 (length xs)"
  note part = partitioned_nth [OF assms]
  have "?b < length xs \<and> (?b = 0 \<or> ?b < ?n) \<and> ?n \<le> ?b + 1"
    by (rule bisect_invariant) (use False part in \<open>auto simp: length_takeWhile_le\<close>)
  with False part [of ?b] show ?thesis by (auto simp: partition_point_def Let_def)
qed

lemma sorted_last_downward:
  assumes "ssorted (map key xs)" and "downward key P" and "xs \<noteq> []" and "P (last xs)"
  shows "length (takeWhile P xs) = length xs"
  using partitioned_nth [OF assms(1,2), of "length xs - 1"] assms(3,4)
  by (simp add: last_conv_nth) (metis Suc_pred length_greater_0_conv length_takeWhile_le less_Suc_eq
      less_eq_Suc_le not_less_less_Suc_eq order_antisym)

lemma find_index_lte_takeWhile:
  assumes "versions_wf inner"
  shows "find_index_lte_version inner ver = length (takeWhile (\<lambda>v. version v \<le> ver) inner)"
  using assms sorted_last_downward [of version inner, OF _ downward_le [of version ver]]
    rposition_sorted [of version inner, OF _ downward_le [of version ver]]
    partition_point_sorted [of version inner, OF _ downward_le [of version ver]]
  by (cases "inner = []") (simp_all add: find_index_lte_version_def versions_wf_def rposition_def)

lemma find_index_lt_takeWhile:
  assumes "versions_wf inner"
  shows "find_index_lt_version inner ver = length (takeWhile (\<lambda>v. version v < ver) inner)"
  using assms sorted_last_downward [of version inner, OF _ downward_less [of version ver]]
    rposition_sorted [of version inner, OF _ downward_less [of version ver]]
    partition_point_sorted [of version inner, OF _ downward_less [of version ver]]
  by (cases "inner = []") (simp_all add: find_index_lt_version_def versions_wf_def rposition_def)

lemma versions_split:
  assumes "versions_wf inner"
  shows "takeWhile (\<lambda>v. version v \<le> w) inner = filter (\<lambda>v. version v \<le> w) inner"
    and "dropWhile (\<lambda>v. version v \<le> w) inner = filter (\<lambda>v. w < version v) inner"
    and "filter (\<lambda>v. version v \<le> w) inner @ filter (\<lambda>v. w < version v) inner = inner"
proof -
  show tw: "takeWhile (\<lambda>v. version v \<le> w) inner = filter (\<lambda>v. version v \<le> w) inner"
    using assms downward_le by (auto simp: versions_wf_def intro: takeWhile_eq_filter_sorted)
  show dw: "dropWhile (\<lambda>v. version v \<le> w) inner = filter (\<lambda>v. w < version v) inner"
    using assms by (induction inner) (auto simp: versions_wf_def not_le intro!: filter_True [symmetric])
  show "filter (\<lambda>v. version v \<le> w) inner @ filter (\<lambda>v. w < version v) inner = inner"
    by (simp flip: tw dw)
qed

section \<open>Reads\<close>

lemma nth_takeWhile_last:
  assumes "takeWhile P xs \<noteq> []"
  shows "xs ! (length (takeWhile P xs) - 1) = last (takeWhile P xs)"
  using assms by (metis diff_less last_conv_nth length_greater_0_conv takeWhile_nth zero_less_one)

lemma fetch_version_value_at:
  assumes "versions_wf inner"
  shows "fetch_version inner w = value_at inner w"
proof -
  let ?pre = "takeWhile (\<lambda>v. version v \<le> w) inner"
  have "length ?pre - 1 < length inner" if "?pre \<noteq> []"
    using that length_takeWhile_le [of "\<lambda>v. version v \<le> w" inner]
    by (metis diff_less length_greater_0_conv less_le_trans zero_less_one)
  then show ?thesis
    using nth_takeWhile_last [of "\<lambda>v. version v \<le> w" inner]
    by (simp add: fetch_version_def value_at_def find_index_lte_takeWhile [OF assms]
        versions_split(1) [OF assms, symmetric] Let_def)
qed

lemma exists_version_fetch: "exists_version inner w \<longleftrightarrow> fetch_version inner w \<noteq> None"
  by (simp add: exists_version_def fetch_version_def Let_def)

lemma value_at_append:
  "value_at (xs @ ys) w =
     (if \<exists>y\<in>set ys. version y \<le> w then value_at ys w else value_at xs w)"
proof (cases "\<exists>y\<in>set ys. version y \<le> w")
  case True
  then have "filter (\<lambda>v. version v \<le> w) ys \<noteq> []" by (auto simp: filter_empty_conv)
  then show ?thesis using True by (simp add: value_at_def Let_def)
next
  case False
  then have "filter (\<lambda>v. version v \<le> w) ys = []" by (auto simp: filter_empty_conv)
  then show ?thesis using False by (simp add: value_at_def Let_def)
qed

lemma value_at_Nil [simp]: "value_at [] w = None"
  by (simp add: value_at_def)

lemma value_at_None: "\<forall>y\<in>set xs. \<not> version y \<le> w \<Longrightarrow> value_at xs w = None"
  by (simp add: value_at_def filter_empty_conv)

lemma value_at_Cons:
  "value_at (x # xs) w =
     (if \<exists>y\<in>set xs. version y \<le> w then value_at xs w
      else if version x \<le> w then value_of x else None)"
  using value_at_append [of "[x]" xs w] by (simp add: value_at_def)

section \<open>Push\<close>

lemma push_slow_reference:
  assumes "versions_wf inner"
  shows "push_slow inner val = push_reference inner val"
proof -
  let ?P = "\<lambda>v. version v \<le> version val"
  let ?pre = "filter ?P inner" and ?post = "filter (\<lambda>v. version val < version v) inner"
  have idx: "find_index_lte_version inner (version val) = length ?pre"
    by (simp add: find_index_lte_takeWhile [OF assms] versions_split(1) [OF assms])
  note split = versions_split(3) [OF assms, of "version val"]
  have take: "take (length ?pre) inner = ?pre" and drop: "drop (length ?pre) inner = ?post"
    by (metis split append_eq_conv_conj)+
  show ?thesis
  proof (cases "?pre = []")
    case True
    with split have "?post = inner" by simp
    with True show ?thesis
      by (simp add: push_slow_def push_reference_def fetch_index_or_update_def idx insert_at_def)
  next
    case False
    let ?i = "length ?pre - 1"
    have nth: "inner ! ?i = last ?pre"
      using False by (metis split last_conv_nth nth_append diff_less length_greater_0_conv zero_less_one)
    have "length ?pre \<le> length inner" by (metis length_filter_le)
    with False have lt: "?i < length inner" by (metis diff_less length_greater_0_conv less_le_trans zero_less_one)
    have upd: "inner[?i := z] = butlast ?pre @ z # ?post" for z
    proof -
      have "inner = butlast ?pre @ last ?pre # ?post"
        using False split by (metis append.assoc append_Cons append_Nil append_butlast_last_id)
      moreover have "?i = length (butlast ?pre)" by simp
      ultimately show ?thesis by (metis list_update_length)
    qed
    have eq: "z\<lparr>value_of := value_of val\<rparr> = val" if "version z = version val" for z :: Version
      using that by (cases z, cases val) simp
    have keep: "butlast ?pre @ val # ?post = inner"
      if "version (last ?pre) = version val" "value_of (last ?pre) = value_of val"
    proof -
      have "last ?pre = val" using that eq [of "last ?pre"] by (cases "last ?pre", cases val) simp
      then show ?thesis using False split by (metis append.assoc append_Cons append_Nil append_butlast_last_id)
    qed
    consider (same) "version (last ?pre) = version val" "value_of (last ?pre) = value_of val"
      | (update) "version (last ?pre) = version val" "value_of (last ?pre) \<noteq> value_of val"
      | (older) "version (last ?pre) \<noteq> version val" by blast
    then show ?thesis
    proof cases
      case same
      with False lt nth have "push_slow inner val = inner"
        by (simp add: push_slow_def fetch_index_or_update_def idx Let_def)
      moreover from same have "push_reference inner val = butlast ?pre @ val # ?post"
        using False by (simp add: push_reference_def Let_def)
      ultimately show ?thesis using keep same by simp
    next
      case update
      with False lt nth have "push_slow inner val = butlast ?pre @ val # ?post"
        by (simp add: push_slow_def fetch_index_or_update_def idx upd [unfolded One_nat_def] eq Let_def)
      with update False show ?thesis by (simp add: push_reference_def Let_def)
    next
      case older
      with False lt nth take drop split show ?thesis
        by (simp add: push_slow_def push_reference_def fetch_index_or_update_def idx insert_at_def
            Let_def)
    qed
  qed
qed

lemma push_eq_reference:
  assumes "versions_wf inner"
  shows "push inner val = push_reference inner val"
proof (cases "inner = [] \<or> version val < version (last inner)")
  case True
  then show ?thesis
    using push_slow_reference [OF assms, of val]
    by (auto simp: push_def push_reference_def Let_def)
next
  case False
  then have ne: "inner \<noteq> []" and le: "version (last inner) \<le> version val" by auto
  have all: "version v \<le> version val" if "v \<in> set inner" for v
    using ssorted_le_last [of "map version inner" "version v"] that assms ne le
    by (auto simp: versions_wf_def last_map)
  then have pre: "filter (\<lambda>v. version v \<le> version val) inner = inner"
    and post: "filter (\<lambda>v. version val < version v) inner = []"
    by (auto simp: filter_True filter_empty_conv not_less)
  have upd: "inner[length inner - 1 := z] = butlast inner @ [z]" for z
    using ne by (metis append_butlast_last_id length_butlast list_update_length)
  have eq: "version (last inner) = version val \<Longrightarrow> (last inner)\<lparr>value_of := value_of val\<rparr> = val"
    by (cases "last inner", cases val) simp
  have same: "version (last inner) = version val \<Longrightarrow> value_of (last inner) = value_of val \<Longrightarrow>
      butlast inner @ [val] = inner"
    using eq ne by (cases "last inner", cases val) (simp, metis append_butlast_last_id)
  show ?thesis using ne le same eq
    by (auto simp: push_def push_reference_def pre post upd [unfolded One_nat_def] Let_def)
qed

lemma ssorted_insert_between:
  assumes "versions_wf inner"
    and "pre = filter (\<lambda>v. version v \<le> version val) inner"
    and "post = filter (\<lambda>v. version val < version v) inner"
    and "\<forall>v\<in>set mid. v \<in> set pre \<and> version v < version val"
    and "ssorted (map version mid)"
  shows "versions_wf (mid @ val # post)"
  using assms by (auto simp: versions_wf_def sorted_wrt_append ssorted_filter)

lemma sorted_butlast_less:
  assumes "ssorted (map version xs)" and "v \<in> set (butlast xs)"
  shows "version v < version (last xs)"
  using assms by (cases xs rule: rev_cases) (auto simp: sorted_wrt_append)

lemma push_versions_wf [wf_intros]:
  assumes "versions_wf inner"
  shows "versions_wf (push inner val)"
proof -
  let ?pre = "filter (\<lambda>v. version v \<le> version val) inner"
    and ?post = "filter (\<lambda>v. version val < version v) inner"
  have pre: "ssorted (map version ?pre)" and post: "versions_wf ?post"
    using assms by (simp_all add: versions_wf_def ssorted_filter)
  have ins: "versions_wf (mid @ val # ?post)"
    if "\<forall>v\<in>set mid. v \<in> set ?pre \<and> version v < version val" "ssorted (map version mid)" for mid
    using ssorted_insert_between [OF assms refl refl that] .
  have "versions_wf (butlast ?pre @ val # ?post)" if "version (last ?pre) = version val"
    using sorted_butlast_less [OF pre] that pre
    by (intro ins) (auto simp: butlast_conv_take dest: in_set_takeD intro: ssorted_take)
  moreover have "versions_wf (?pre @ val # ?post)" if "version (last ?pre) \<noteq> version val" "?pre \<noteq> []"
  proof (intro ins ballI conjI)
    fix v assume v: "v \<in> set ?pre"
    then have "version v \<le> version (last ?pre)"
      using ssorted_le_last [OF pre, of "version v"] that(2) by (auto simp: last_map)
    also have "last ?pre \<in> set ?pre" using that(2) by (rule last_in_set)
    then have "version (last ?pre) < version val" using that(1) by (simp add: order_less_le)
    finally show "version v < version val" .
  qed (use pre in simp_all)
  moreover have "versions_wf (val # ?post)" using ins [of "[]"] by simp
  ultimately show ?thesis
    using assms post versions_split(3) [OF assms, of "version val"]
    by (auto simp: push_eq_reference push_reference_def Let_def)
qed

lemma value_at_push:
  assumes "versions_wf inner"
  shows "value_at (push inner val) w =
    (if version val \<le> w \<and> (\<forall>y\<in>set inner. version y \<le> version val \<or> w < version y)
     then value_of val else value_at inner w)"
proof -
  let ?pre = "filter (\<lambda>v. version v \<le> version val) inner"
    and ?post = "filter (\<lambda>v. version val < version v) inner"
  have inner: "value_at inner w = value_at (?pre @ ?post) w"
    by (simp only: versions_split(3) [OF assms])
  have later: "(\<forall>y\<in>set inner. version y \<le> version val \<or> w < version y)
      \<longleftrightarrow> \<not> (\<exists>y\<in>set ?post. version y \<le> w)"
    by (auto simp: linorder_not_le) (meson linorder_not_le)+
  show ?thesis
  proof (cases "\<exists>y\<in>set ?post. version y \<le> w")
    case True
    then show ?thesis
      unfolding later inner push_eq_reference [OF assms] push_reference_def Let_def
      by (simp add: value_at_append value_at_Cons)
  next
    case False
    show ?thesis
    proof (cases "version val \<le> w")
      case True
      have "value_at ?pre w = (if ?pre = [] then None else value_of (last ?pre))"
      proof -
        have "filter (\<lambda>v. version v \<le> w) ?pre = ?pre"
          using True by (intro filter_True) auto
        then show ?thesis by (simp only: value_at_def Let_def)
      qed
      then show ?thesis
        unfolding later inner push_eq_reference [OF assms] push_reference_def Let_def
        using False True by (auto simp: value_at_append value_at_Cons value_at_None)
    next
      case less: False
      have old: "value_at (butlast ?pre) w = value_at ?pre w"
        if "?pre \<noteq> []" "version (last ?pre) = version val"
        using value_at_append [of "butlast ?pre" "[last ?pre]" w] that less by simp
      show ?thesis
        unfolding later inner push_eq_reference [OF assms] push_reference_def Let_def
        using False less old by (auto simp: value_at_append value_at_Cons value_at_None)
    qed
  qed
qed

section \<open>Garbage collection\<close>

lemma gc_older_versions_split:
  assumes "versions_wf inner"
  shows "fst (gc_older_versions inner c) =
    (let pre = filter (\<lambda>v. version v \<le> c) inner; post = filter (\<lambda>v. c < version v) inner
     in if pre = [] \<or> value_of (last pre) = None then post else last pre # post)"
proof -
  let ?pre = "filter (\<lambda>v. version v \<le> c) inner" and ?post = "filter (\<lambda>v. c < version v) inner"
  have idx: "find_index_lte_version inner c = length ?pre"
    by (simp add: find_index_lte_takeWhile [OF assms] versions_split(1) [OF assms])
  note split = versions_split(3) [OF assms, of c]
  show ?thesis
  proof (cases ?pre rule: rev_cases)
    case Nil
    with split show ?thesis by (simp add: gc_older_versions_def idx)
  next
    case (snoc xs x)
    with split have inner: "inner = xs @ x # ?post" by simp
    then have "drop (length xs) inner = x # ?post" "drop (Suc (length xs)) inner = ?post"
      "inner ! length xs = x" by (metis append_eq_conv_conj drop_Suc nth_append_length list.sel(3) drop_tl)+
    with snoc show ?thesis by (simp add: gc_older_versions_def idx drain_to_def Let_def)
  qed
qed

lemma gc_older_versions_length: "snd (gc_older_versions inner c) = length (fst (gc_older_versions inner c))"
  by (simp add: gc_older_versions_def Let_def)

lemma gc_versions_wf [wf_intros]:
  assumes "versions_wf inner"
  shows "versions_wf (fst (gc_older_versions inner c))"
  using assms by (auto simp: gc_older_versions_def drain_to_def versions_wf_def Let_def intro: ssorted_drop)

lemma value_at_gc:
  assumes "versions_wf inner" and "c \<le> w"
  shows "value_at (fst (gc_older_versions inner c)) w = value_at inner w"
proof -
  let ?pre = "filter (\<lambda>v. version v \<le> c) inner" and ?post = "filter (\<lambda>v. c < version v) inner"
  have "filter (\<lambda>v. version v \<le> w) ?pre = ?pre" using assms(2) by (intro filter_True) auto
  then have pre: "value_at ?pre w = (if ?pre = [] then None else value_of (last ?pre))"
    by (simp only: value_at_def Let_def)
  have last_le: "?pre \<noteq> [] \<Longrightarrow> version (last ?pre) \<le> w"
    using assms(2) last_in_set [of ?pre] by fastforce
  have "value_at inner w = value_at (?pre @ ?post) w"
    by (simp only: versions_split(3) [OF assms(1)])
  with pre last_le show ?thesis
    by (auto simp: gc_older_versions_split [OF assms(1)] value_at_append value_at_Cons value_at_None
        Let_def)
qed

lemma gc_bounded:
  assumes "versions_wf inner"
  shows "length (filter (\<lambda>v. version v \<le> c) (fst (gc_older_versions inner c))) \<le> 1"
  by (simp add: gc_older_versions_split [OF assms] Let_def filter_empty_conv not_le)

section \<open>The interface of a version chain\<close>

text \<open>
  What the database relies on: a push leaves every older snapshot alone and, at a version not
  older than the stored ones, is what newer snapshots read; compaction at a floor keeps every read
  at or above it.  A snapshot above all floors and below all pushes therefore reads the same value
  through any sequence of pushes and compactions.
\<close>

locale version_chain =
  fixes fetch :: "'c \<Rightarrow> u64 \<Rightarrow> bytes option"
    and add :: "'c \<Rightarrow> Version \<Rightarrow> 'c"
    and gc :: "'c \<Rightarrow> u64 \<Rightarrow> 'c"
    and newest_le :: "'c \<Rightarrow> u64 \<Rightarrow> bool"
    and wf :: "'c \<Rightarrow> bool"
  assumes fetch_add_below: "wf c \<Longrightarrow> w < version x \<Longrightarrow> fetch (add c x) w = fetch c w"
    and fetch_add_newest: "wf c \<Longrightarrow> newest_le c (version x) \<Longrightarrow> version x \<le> w \<Longrightarrow>
      fetch (add c x) w = value_of x"
    and fetch_gc: "wf c \<Longrightarrow> f \<le> w \<Longrightarrow> fetch (gc c f) w = fetch c w"
    and newest_le_add: "newest_le c m \<Longrightarrow> version x \<le> m \<Longrightarrow> wf c \<Longrightarrow> newest_le (add c x) m"
    and newest_le_gc: "newest_le c m \<Longrightarrow> wf c \<Longrightarrow> newest_le (gc c f) m"
    and newest_le_mono: "newest_le c m \<Longrightarrow> m \<le> m' \<Longrightarrow> newest_le c m'"
    and fetch_beyond_newest: "wf c \<Longrightarrow> newest_le c m \<Longrightarrow> m \<le> w \<Longrightarrow> fetch c w = fetch c m"
    and wf_add: "wf c \<Longrightarrow> wf (add c x)"
    and wf_gc: "wf c \<Longrightarrow> wf (gc c f)"
begin

lemma snapshot_stable:
  assumes "wf c"
    and "\<forall>op\<in>set ops. case op of Inl x \<Rightarrow> w < version x | Inr f \<Rightarrow> f \<le> w"
  shows "wf (foldl (\<lambda>c op. case op of Inl x \<Rightarrow> add c x | Inr f \<Rightarrow> gc c f) c ops)
    \<and> fetch (foldl (\<lambda>c op. case op of Inl x \<Rightarrow> add c x | Inr f \<Rightarrow> gc c f) c ops) w = fetch c w"
  using assms
proof (induction ops arbitrary: c)
  case Nil
  then show ?case by simp
next
  case (Cons op ops)
  then show ?case
    by (cases op) (auto simp: wf_add wf_gc fetch_add_below fetch_gc)
qed

lemma fetch_add_then_gc:
  assumes "wf c" "newest_le c (version x)" "version x \<le> w" "f \<le> w"
  shows "fetch (gc (add c x) f) w = value_of x"
  using assms by (simp add: fetch_gc wf_add fetch_add_newest)

end

definition versions_newest_le :: "Versions \<Rightarrow> u64 \<Rightarrow> bool" where
  "versions_newest_le inner m \<longleftrightarrow> (\<forall>v\<in>set inner. version v \<le> m)"

lemma set_push_subset: "versions_wf inner \<Longrightarrow> set (push inner val) \<subseteq> insert val (set inner)"
  by (auto simp: push_eq_reference push_reference_def Let_def dest: in_set_butlastD split: if_splits)

lemma set_gc_subset: "set (fst (gc_older_versions inner c)) \<subseteq> set inner"
  by (auto simp: gc_older_versions_def drain_to_def Let_def dest: in_set_dropD)

interpretation vc: version_chain fetch_version push "\<lambda>c f. fst (gc_older_versions c f)"
  versions_newest_le versions_wf
proof unfold_locales
  show "fetch_version (push c x) w = fetch_version c w"
    if "versions_wf c" "w < version x" for c x w
    using that by (auto simp: fetch_version_value_at push_versions_wf value_at_push)
  show "fetch_version (push c x) w = value_of x"
    if "versions_wf c" "versions_newest_le c (version x)" "version x \<le> w" for c x w
    using that by (auto simp: fetch_version_value_at push_versions_wf value_at_push versions_newest_le_def)
  show "fetch_version (fst (gc_older_versions c f)) w = fetch_version c w"
    if "versions_wf c" "f \<le> w" for c f w
    using that by (simp add: fetch_version_value_at gc_versions_wf value_at_gc)
  show "versions_newest_le (push c x) m"
    if "versions_newest_le c m" "version x \<le> m" "versions_wf c" for c x m
    using that set_push_subset by (fastforce simp: versions_newest_le_def)
  show "versions_newest_le (fst (gc_older_versions c f)) m"
    if "versions_newest_le c m" for c f m
    using that set_gc_subset by (fastforce simp: versions_newest_le_def)
  show "fetch_version c w = fetch_version c m"
    if "versions_wf c" "versions_newest_le c m" "m \<le> w" for c m w
  proof -
    have "filter (\<lambda>v. version v \<le> w) c = filter (\<lambda>v. version v \<le> m) c"
      using that(2,3) by (intro filter_cong) (auto simp: versions_newest_le_def)
    with that(1) show ?thesis by (simp add: fetch_version_value_at value_at_def)
  qed
qed (auto simp: versions_newest_le_def intro: wf_intros order_trans)

end
