(* ===== verification/Bloom.thy ===== *)
theory Bloom
  imports Prelude
begin

text \<open>
  The Bloom filter of \<open>src/bloom/bloom.rs\<close>: 4096 bits in 512 bytes, three positions per key
  derived from a 64-bit FNV-1a hash and its mixed companion.  The theory shows that every array
  access is in range, that an inserted key is always reported (no false negative), and that a fresh
  or cleared filter reports nothing; these are the laws of the interface \<open>membership_filter\<close>, in
  which the use of a filter as a pre-check for disjointness is proved once.
\<close>

definition BLOOM_BITS :: nat where
  "BLOOM_BITS = 4096"

definition BLOOM_BYTES :: nat where
  "BLOOM_BYTES = BLOOM_BITS div 8"

definition BLOOM_HASHE_NUMS :: nat where
  "BLOOM_HASHE_NUMS = 3"

record BloomFilter =
  bits :: "u8 list"
  filter_count :: nat

definition BloomFilter_new :: BloomFilter where
  "BloomFilter_new = \<lparr>bits = replicate BLOOM_BYTES 0, filter_count = 0\<rparr>"

section \<open>Hashing\<close>

fun fnv1a :: "u64 \<Rightarrow> bytes \<Rightarrow> u64" where
  "fnv1a h1 [] = h1"
| "fnv1a h1 (b # bs) = fnv1a ((h1 XOR ucast b) * 0x100000001b3) bs"

definition bloom_hash :: "bytes \<Rightarrow> u64 \<times> u64" where
  "bloom_hash key =
     (let h1 = fnv1a 0xcbf29ce484222325 key;
          h2 = word_rotl 31 (h1 * 0x9e3779b97f4a7c15)
      in (h1, h2))"

definition nth_hash :: "u64 \<times> u64 \<Rightarrow> nat \<Rightarrow> u64" where
  "nth_hash hashes n = fst hashes + of_nat n * snd hashes"

text \<open>The bit position of the \<open>i\<close>-th hash of a key, \<open>nth_hash(hashes, i) % BLOOM_BITS\<close>.\<close>

definition hash_position :: "bytes \<Rightarrow> nat \<Rightarrow> nat" where
  "hash_position key i = unat (nth_hash (bloom_hash key) i mod of_nat BLOOM_BITS)"

section \<open>Operations\<close>

definition set_bit_at :: "u8 list \<Rightarrow> nat \<Rightarrow> u8 list" where
  "set_bit_at bs h = bs[h div 8 := (bs ! (h div 8)) OR push_bit (h mod 8) 1]"

definition test_bit_at :: "u8 list \<Rightarrow> nat \<Rightarrow> bool" where
  "test_bit_at bs h \<longleftrightarrow> (bs ! (h div 8)) AND push_bit (h mod 8) 1 \<noteq> 0"

definition bloom_insert :: "BloomFilter \<Rightarrow> bytes \<Rightarrow> BloomFilter" where
  "bloom_insert f key =
     f\<lparr>bits := foldl (\<lambda>bs i. set_bit_at bs (hash_position key i)) (bits f) [0..<BLOOM_HASHE_NUMS],
       filter_count := filter_count f + 1\<rparr>"

definition may_contain :: "BloomFilter \<Rightarrow> bytes \<Rightarrow> bool" where
  "may_contain f key \<longleftrightarrow>
     list_all (\<lambda>i. test_bit_at (bits f) (hash_position key i)) [0..<BLOOM_HASHE_NUMS]"

definition bloom_is_empty :: "BloomFilter \<Rightarrow> bool" where
  "bloom_is_empty f \<longleftrightarrow> filter_count f = 0"

definition bloom_clear :: "BloomFilter \<Rightarrow> BloomFilter" where
  "bloom_clear f = f\<lparr>bits := replicate BLOOM_BYTES 0, filter_count := 0\<rparr>"

section \<open>Invariant\<close>

definition bloom_wf :: "BloomFilter \<Rightarrow> bool" where
  "bloom_wf f \<longleftrightarrow> length (bits f) = BLOOM_BYTES"

text \<open>Every position falls inside the bit array, so no index expression can be out of range.\<close>

lemma hash_position_bound: "hash_position key i < BLOOM_BITS"
proof -
  have "nth_hash (bloom_hash key) i mod 4096 < (4096 :: u64)"
    by (rule word_mod_less_divisor) simp
  then have "unat (nth_hash (bloom_hash key) i mod 4096) < unat (4096 :: u64)"
    by (simp only: word_less_nat_alt)
  then show ?thesis by (simp add: hash_position_def BLOOM_BITS_def)
qed

lemma hash_position_byte: "hash_position key i div 8 < BLOOM_BYTES"
  using hash_position_bound [of key i] by (simp add: BLOOM_BITS_def BLOOM_BYTES_def)

lemma length_set_bit_at [simp]: "length (set_bit_at bs h) = length bs"
  by (simp add: set_bit_at_def)

lemma test_bit_at_bit: "test_bit_at bs h \<longleftrightarrow> bit (bs ! (h div 8)) (h mod 8)"
  by (auto simp: test_bit_at_def and_exp_eq_0_iff_not_bit)

lemma test_set_bit_at:
  assumes "h div 8 < length bs"
  shows "test_bit_at (set_bit_at bs h) h' \<longleftrightarrow> h' = h \<or> test_bit_at bs h'"
proof (cases "h' div 8 = h div 8")
  case True
  then have "h' = h \<longleftrightarrow> h' mod 8 = h mod 8" by (metis div_mult_mod_eq)
  with True assms show ?thesis
    by (auto simp: test_bit_at_bit set_bit_at_def bit_or_iff bit_exp_iff)
next
  case False
  then have "h' \<noteq> h" by auto
  with False show ?thesis by (simp add: test_bit_at_bit set_bit_at_def)
qed

lemma length_fold_set_bits [simp]:
  "length (foldl (\<lambda>bs i. set_bit_at bs (p i)) bs is) = length bs"
  by (induction "is" arbitrary: bs) auto

lemma test_fold_set_bits:
  assumes "\<forall>i\<in>set is. p i div 8 < length bs"
  shows "test_bit_at (foldl (\<lambda>bs i. set_bit_at bs (p i)) bs is) h
    \<longleftrightarrow> h \<in> p ` set is \<or> test_bit_at bs h"
  using assms by (induction "is" arbitrary: bs) (auto simp: test_set_bit_at)

lemma bloom_wf_new [wf_intros]: "bloom_wf BloomFilter_new"
  by (simp add: bloom_wf_def BloomFilter_new_def)

lemma bloom_wf_insert [wf_intros]: "bloom_wf f \<Longrightarrow> bloom_wf (bloom_insert f key)"
  by (simp add: bloom_wf_def bloom_insert_def)

lemma bloom_wf_clear [wf_intros]: "bloom_wf (bloom_clear f)"
  by (simp add: bloom_wf_def bloom_clear_def)

section \<open>Membership\<close>

definition key_positions :: "bytes \<Rightarrow> nat set" where
  "key_positions key = hash_position key ` {0..<BLOOM_HASHE_NUMS}"

lemma may_contain_positions: "may_contain f key \<longleftrightarrow> (\<forall>h\<in>key_positions key. test_bit_at (bits f) h)"
  by (auto simp: may_contain_def key_positions_def list_all_iff)

lemma test_bit_bloom_insert:
  assumes "bloom_wf f"
  shows "test_bit_at (bits (bloom_insert f key)) h \<longleftrightarrow> h \<in> key_positions key \<or> test_bit_at (bits f) h"
  using assms hash_position_byte
  by (simp add: bloom_insert_def key_positions_def test_fold_set_bits bloom_wf_def)

lemma may_contain_insert_same: "bloom_wf f \<Longrightarrow> may_contain (bloom_insert f key) key"
  by (simp add: may_contain_positions test_bit_bloom_insert)

lemma may_contain_insert_mono: "bloom_wf f \<Longrightarrow> may_contain f k \<Longrightarrow> may_contain (bloom_insert f key) k"
  by (simp add: may_contain_positions test_bit_bloom_insert)

lemma key_positions_not_empty: "key_positions key \<noteq> {}"
  by (simp add: key_positions_def BLOOM_HASHE_NUMS_def)

lemma test_bit_replicate_zero: "h < BLOOM_BITS \<Longrightarrow> \<not> test_bit_at (replicate BLOOM_BYTES 0) h"
  by (simp add: test_bit_at_bit BLOOM_BITS_def BLOOM_BYTES_def less_mult_imp_div_less)

lemma may_contain_zero:
  assumes "bits f = replicate BLOOM_BYTES 0"
  shows "\<not> may_contain f key"
proof -
  obtain h where "h \<in> key_positions key" using key_positions_not_empty by blast
  moreover from this have "h < BLOOM_BITS" by (auto simp: key_positions_def hash_position_bound)
  ultimately show ?thesis using assms test_bit_replicate_zero by (auto simp: may_contain_positions)
qed

lemma bloom_is_empty_new: "bloom_is_empty BloomFilter_new"
  by (simp add: bloom_is_empty_def BloomFilter_new_def)

lemma bloom_is_empty_insert: "\<not> bloom_is_empty (bloom_insert f key)"
  by (simp add: bloom_is_empty_def bloom_insert_def)

lemma bloom_clear_new: "bloom_clear f = BloomFilter_new"
  by (simp add: bloom_clear_def BloomFilter_new_def)

section \<open>The interface\<close>

locale membership_filter =
  fixes empty :: 'f
    and ins :: "'f \<Rightarrow> 'k \<Rightarrow> 'f"
    and mem :: "'f \<Rightarrow> 'k \<Rightarrow> bool"
    and is_empty :: "'f \<Rightarrow> bool"
    and wf :: "'f \<Rightarrow> bool"
  assumes mem_ins_same: "wf f \<Longrightarrow> mem (ins f k) k"
    and mem_ins_mono: "wf f \<Longrightarrow> mem f k' \<Longrightarrow> mem (ins f k) k'"
    and wf_empty: "wf empty"
    and wf_ins: "wf f \<Longrightarrow> wf (ins f k)"
    and is_empty_empty: "is_empty empty"
    and is_empty_ins: "wf f \<Longrightarrow> \<not> is_empty (ins f k)"
begin

lemma wf_foldl: "wf f \<Longrightarrow> wf (foldl ins f ks)"
  by (induction ks arbitrary: f) (auto simp: wf_ins)

lemma mem_foldl_mono: "wf f \<Longrightarrow> mem f k \<Longrightarrow> mem (foldl ins f ks) k"
  by (induction ks arbitrary: f) (auto simp: wf_ins mem_ins_mono)

lemma no_false_negative: "wf f \<Longrightarrow> k \<in> set ks \<Longrightarrow> mem (foldl ins f ks) k"
  by (induction ks arbitrary: f) (auto simp: wf_ins mem_ins_same mem_foldl_mono)

lemma is_empty_foldl: "is_empty (foldl ins empty ks) \<longleftrightarrow> ks = []"
proof (cases ks rule: rev_cases)
  case Nil
  then show ?thesis by (simp add: is_empty_empty)
next
  case (snoc xs x)
  then show ?thesis by (simp add: is_empty_ins wf_foldl wf_empty)
qed

text \<open>
  A filter that covers a set of keys is a sound pre-check: if it reports no key of a list, the
  list and the set are disjoint.
\<close>

definition covers :: "'f \<Rightarrow> 'k set \<Rightarrow> bool" where
  "covers f A \<longleftrightarrow> (\<forall>k\<in>A. mem f k)"

lemma covers_foldl: "covers (foldl ins empty ks) (set ks)"
  by (simp add: covers_def no_false_negative wf_empty)

lemma covers_disjoint: "covers f A \<Longrightarrow> \<not> list_ex (mem f) ks \<Longrightarrow> set ks \<inter> A = {}"
  by (auto simp: covers_def list_ex_iff)

end

interpretation bf: membership_filter BloomFilter_new bloom_insert may_contain bloom_is_empty bloom_wf
  by unfold_locales
    (simp_all add: may_contain_insert_same may_contain_insert_mono bloom_is_empty_new
      bloom_is_empty_insert wf_intros)

end
