(* ===== verification/Commit_Queue.thy ===== *)
theory Commit_Queue
  imports Ordered_Map Bloom
begin

text \<open>
  Queue entries and conflict checks (\<open>src/queue/commit.rs\<close>, \<open>src/queue/merge.rs\<close>).  A commit entry
  carries the write set of a transaction with its smallest and largest key and a Bloom filter over
  its keys.  The pre-checks (key range, filter) and the merge walk over the two sorted key sequences
  are shown to decide exactly whether the key sets are disjoint.
\<close>

type_synonym writeset = "(bytes, bytes option) omap"

record Commit =
  cm_id :: u64
  cm_writeset :: writeset
  cm_writeset_bloom :: BloomFilter
  cm_max_key :: bytes
  cm_min_key :: bytes

record Merge =
  mg_id :: u64
  mg_writeset :: writeset

abbreviation ws_keys :: "writeset \<Rightarrow> bytes list" where
  "ws_keys ws \<equiv> map fst ws"

section \<open>Write sets against write sets\<close>

text \<open>The two iterators of \<open>is_disjoint_writeset\<close>, advanced at the smaller key.\<close>

fun keys_walk :: "'a::linorder list \<Rightarrow> 'a list \<Rightarrow> bool" where
  "keys_walk (ka # a) (kb # b) =
     (if ka < kb then keys_walk a (kb # b)
      else if kb < ka then keys_walk (ka # a) b
      else False)"
| "keys_walk _ _ = True"

definition is_disjoint_writeset :: "Commit \<Rightarrow> Commit \<Rightarrow> bool" where
  "is_disjoint_writeset self other = keys_walk (ws_keys (cm_writeset self)) (ws_keys (cm_writeset other))"

definition is_disjoint_writeset_bloom :: "Commit \<Rightarrow> Commit \<Rightarrow> bool" where
  "is_disjoint_writeset_bloom self other =
     (if cm_max_key self < cm_min_key other \<or> cm_min_key self > cm_max_key other then True
      else if \<not> list_ex (may_contain (cm_writeset_bloom other)) (ws_keys (cm_writeset self)) then True
      else is_disjoint_writeset self other)"

section \<open>Write sets against read sets\<close>

definition is_disjoint_readset :: "Commit \<Rightarrow> bytes set \<Rightarrow> bool" where
  "is_disjoint_readset self other =
     (if other \<noteq> {} then
        (if card other < length (cm_writeset self)
         then (\<forall>key\<in>other. map_of (cm_writeset self) key = None)
         else list_all (\<lambda>key. key \<notin> other) (ws_keys (cm_writeset self)))
      else True)"

definition is_disjoint_readset_bloom :: "Commit \<Rightarrow> bytes set \<Rightarrow> BloomFilter \<Rightarrow> bool" where
  "is_disjoint_readset_bloom self other bloom =
     (if bloom_is_empty bloom then True
      else if \<not> list_ex (may_contain bloom) (ws_keys (cm_writeset self)) then True
      else is_disjoint_readset self other)"

section \<open>Invariants\<close>

definition commit_wf :: "Commit \<Rightarrow> bool" where
  "commit_wf c \<longleftrightarrow>
     om_wf (cm_writeset c) \<and> cm_writeset c \<noteq> []
     \<and> cm_writeset_bloom c = foldl bloom_insert BloomFilter_new (ws_keys (cm_writeset c))
     \<and> cm_max_key c = last (ws_keys (cm_writeset c))
     \<and> cm_min_key c = hd (ws_keys (cm_writeset c))"

abbreviation written :: "Commit \<Rightarrow> bytes set" where
  "written c \<equiv> fst ` set (cm_writeset c)"

text \<open>The filter of a read set covers it, and says empty only for the empty set.\<close>

definition readset_wf :: "bytes set \<Rightarrow> BloomFilter \<Rightarrow> bool" where
  "readset_wf rs bloom \<longleftrightarrow>
     finite rs \<and> bloom_wf bloom \<and> bf.covers bloom rs \<and> (bloom_is_empty bloom \<longrightarrow> rs = {})"

lemma readset_wf_empty [wf_intros]: "readset_wf {} BloomFilter_new"
  by (simp add: readset_wf_def bf.covers_def bloom_wf_new)

lemma readset_wf_insert [wf_intros]:
  "readset_wf rs bloom \<Longrightarrow> readset_wf (insert k rs) (bloom_insert bloom k)"
  by (auto simp: readset_wf_def bf.covers_def bloom_wf_insert may_contain_insert_same
      may_contain_insert_mono bloom_is_empty_insert)

section \<open>Correctness of the checks\<close>

lemma keys_walk_disjoint:
  "ssorted xs \<Longrightarrow> ssorted ys \<Longrightarrow> keys_walk xs ys \<longleftrightarrow> set xs \<inter> set ys = {}"
proof (induction xs ys rule: keys_walk.induct)
  case (1 ka a kb b)
  show ?case
  proof (cases ka kb rule: linorder_cases)
    case less
    with "1.prems"(2) have "ka \<notin> set (kb # b)" by auto
    with less 1 show ?thesis by simp
  next
    case equal
    then show ?thesis by simp
  next
    case greater
    with "1.prems"(1) have "kb \<notin> set (ka # a)" by auto
    with greater 1 show ?thesis by auto
  qed
qed simp_all

lemma commit_wf_bounds:
  assumes "commit_wf c" and "k \<in> written c"
  shows "cm_min_key c \<le> k" and "k \<le> cm_max_key c"
proof -
  from assms have s: "ssorted (ws_keys (cm_writeset c))" and k: "k \<in> set (ws_keys (cm_writeset c))"
    by (auto simp: commit_wf_def om_wf_def)
  show "cm_min_key c \<le> k" and "k \<le> cm_max_key c"
    using assms(1) ssorted_hd_le [OF s k] ssorted_le_last [OF s k] by (simp_all add: commit_wf_def)
qed

lemma commit_wf_covers: "commit_wf c \<Longrightarrow> bf.covers (cm_writeset_bloom c) (written c)"
  using bf.covers_foldl [of "ws_keys (cm_writeset c)"] by (simp add: commit_wf_def)

lemma is_disjoint_writeset_iff:
  "commit_wf self \<Longrightarrow> commit_wf other \<Longrightarrow>
     is_disjoint_writeset self other \<longleftrightarrow> written self \<inter> written other = {}"
  by (simp add: is_disjoint_writeset_def keys_walk_disjoint commit_wf_def om_wf_def)

lemma writeset_bloom_iff:
  assumes "commit_wf self" and "commit_wf other"
  shows "is_disjoint_writeset_bloom self other \<longleftrightarrow> written self \<inter> written other = {}"
proof -
  have range: "written self \<inter> written other = {}"
    if "cm_max_key self < cm_min_key other \<or> cm_min_key self > cm_max_key other"
  proof (rule ccontr)
    assume "written self \<inter> written other \<noteq> {}"
    then obtain k where "k \<in> written self" "k \<in> written other" by blast
    with that commit_wf_bounds [OF assms(1)] commit_wf_bounds [OF assms(2)] show False
      by (meson leD le_less_trans less_le_trans)
  qed
  have pre: "written self \<inter> written other = {}"
    if "\<not> list_ex (may_contain (cm_writeset_bloom other)) (ws_keys (cm_writeset self))"
    using bf.covers_disjoint [OF commit_wf_covers [OF assms(2)] that] by simp
  show ?thesis
    using range pre is_disjoint_writeset_iff [OF assms] by (simp add: is_disjoint_writeset_bloom_def)
qed

lemma is_disjoint_readset_iff:
  "commit_wf self \<Longrightarrow> is_disjoint_readset self rs \<longleftrightarrow> written self \<inter> rs = {}"
  by (auto simp: is_disjoint_readset_def list_all_iff map_of_eq_None_iff)

lemma readset_bloom_iff:
  assumes "commit_wf self" and "readset_wf rs bloom"
  shows "is_disjoint_readset_bloom self rs bloom \<longleftrightarrow> written self \<inter> rs = {}"
proof -
  have pre: "written self \<inter> rs = {}"
    if "\<not> list_ex (may_contain bloom) (ws_keys (cm_writeset self))"
    using bf.covers_disjoint [of bloom rs, OF _ that] assms(2) by (simp add: readset_wf_def)
  show ?thesis
    using pre is_disjoint_readset_iff [OF assms(1)] assms(2)
    by (simp add: is_disjoint_readset_bloom_def readset_wf_def)
qed

end
