(* ===== verification/Options.thy ===== *)
theory Options
  imports Prelude
begin

text \<open>
  Configuration: \<open>src/options/database_options.rs\<close>, \<open>src/options/persistence_options.rs\<close> and the
  compression mode of \<open>src/compression/compression.rs\<close>.  Durations are in nanoseconds; a path is the
  list of its characters.
\<close>

abbreviation from_secs :: "nat \<Rightarrow> nat" where
  "from_secs n \<equiv> n * 1000000000"

abbreviation from_millis :: "nat \<Rightarrow> nat" where
  "from_millis n \<equiv> n * 1000000"

definition DEFAULT_CLEANUP_INTERVAL :: nat where
  "DEFAULT_CLEANUP_INTERVAL = from_secs 1"

definition DEFAULT_RESYNC_INTERVAL :: nat where
  "DEFAULT_RESYNC_INTERVAL = from_secs 5"

definition DEFAULT_GC_INTERVAL :: nat where
  "DEFAULT_GC_INTERVAL = from_millis 500"

definition DEFAULT_GC_FULL_SCAN_FREQUENCY :: u64 where
  "DEFAULT_GC_FULL_SCAN_FREQUENCY = 20"

definition DEFAULT_RESET_THRESHOLD :: nat where
  "DEFAULT_RESET_THRESHOLD = 100"

definition DEFAULT_POOL_SIZE :: nat where
  "DEFAULT_POOL_SIZE = 512"

record DatabaseOptions =
  opt_pool_size :: nat
  opt_resync_interval :: nat
  opt_enable_cleanup :: bool
  opt_cleanup_interval :: nat
  opt_enable_gc :: bool
  opt_gc_interval :: nat
  opt_gc_full_scan_frequency :: u64
  opt_reset_threshold :: nat

definition DatabaseOptions_default :: DatabaseOptions where
  "DatabaseOptions_default =
     \<lparr>opt_pool_size = DEFAULT_POOL_SIZE,
      opt_resync_interval = DEFAULT_RESYNC_INTERVAL,
      opt_enable_cleanup = True,
      opt_cleanup_interval = DEFAULT_CLEANUP_INTERVAL,
      opt_enable_gc = True,
      opt_gc_interval = DEFAULT_GC_INTERVAL,
      opt_gc_full_scan_frequency = DEFAULT_GC_FULL_SCAN_FREQUENCY,
      opt_reset_threshold = DEFAULT_RESET_THRESHOLD\<rparr>"

definition with_gc_interval :: "DatabaseOptions \<Rightarrow> nat \<Rightarrow> DatabaseOptions" where
  "with_gc_interval self interval = self\<lparr>opt_gc_interval := interval\<rparr>"

definition with_cleanup_interval :: "DatabaseOptions \<Rightarrow> nat \<Rightarrow> DatabaseOptions" where
  "with_cleanup_interval self interval = self\<lparr>opt_cleanup_interval := interval\<rparr>"

section \<open>Persistence options\<close>

datatype AolMode = AolNever | SynchronousOnCommit | AsynchronousAfterCommit

datatype FsyncMode = FsyncNever | EveryAppend | FsyncInterval nat

datatype SnapshotMode = SnapshotNever | SnapshotInterval nat

datatype CompressionMode = CompressionNone | Lz4

record PersistenceOptions =
  base_path :: string
  snapshot_mode :: SnapshotMode
  opt_snapshot_path :: "string option"
  opt_aol_mode :: AolMode
  opt_aol_path :: "string option"
  opt_fsync_mode :: FsyncMode
  opt_compression_mode :: CompressionMode

definition PersistenceOptions_default :: PersistenceOptions where
  "PersistenceOptions_default =
     \<lparr>base_path = ''./data'', snapshot_mode = SnapshotNever, opt_snapshot_path = None,
      opt_aol_mode = AolNever, opt_aol_path = None, opt_fsync_mode = FsyncNever,
      opt_compression_mode = CompressionNone\<rparr>"

definition PersistenceOptions_new :: "string \<Rightarrow> PersistenceOptions" where
  "PersistenceOptions_new path = PersistenceOptions_default\<lparr>base_path := path\<rparr>"

definition with_base_path :: "PersistenceOptions \<Rightarrow> string \<Rightarrow> PersistenceOptions" where
  "with_base_path self path = self\<lparr>base_path := path\<rparr>"

definition with_snapshot_mode :: "PersistenceOptions \<Rightarrow> SnapshotMode \<Rightarrow> PersistenceOptions" where
  "with_snapshot_mode self mode = self\<lparr>snapshot_mode := mode\<rparr>"

definition with_snapshot_path :: "PersistenceOptions \<Rightarrow> string option \<Rightarrow> PersistenceOptions" where
  "with_snapshot_path self path = self\<lparr>opt_snapshot_path := path\<rparr>"

definition with_aol_mode :: "PersistenceOptions \<Rightarrow> AolMode \<Rightarrow> PersistenceOptions" where
  "with_aol_mode self mode = self\<lparr>opt_aol_mode := mode\<rparr>"

definition with_fsync_mode :: "PersistenceOptions \<Rightarrow> FsyncMode \<Rightarrow> PersistenceOptions" where
  "with_fsync_mode self mode = self\<lparr>opt_fsync_mode := mode\<rparr>"

definition with_aol_path :: "PersistenceOptions \<Rightarrow> string option \<Rightarrow> PersistenceOptions" where
  "with_aol_path self path = self\<lparr>opt_aol_path := path\<rparr>"

definition with_compression_mode :: "PersistenceOptions \<Rightarrow> CompressionMode \<Rightarrow> PersistenceOptions" where
  "with_compression_mode self mode = self\<lparr>opt_compression_mode := mode\<rparr>"

definition with_pure_snapshot :: "PersistenceOptions \<Rightarrow> nat \<Rightarrow> PersistenceOptions" where
  "with_pure_snapshot self interval =
     self\<lparr>snapshot_mode := SnapshotInterval interval, opt_aol_mode := AolNever,
          opt_fsync_mode := FsyncNever\<rparr>"

definition with_async_aol :: "PersistenceOptions \<Rightarrow> nat \<Rightarrow> PersistenceOptions" where
  "with_async_aol self interval =
     self\<lparr>snapshot_mode := SnapshotInterval interval, opt_aol_mode := AsynchronousAfterCommit,
          opt_fsync_mode := FsyncInterval (from_millis 100)\<rparr>"

definition with_sync_aol :: "PersistenceOptions \<Rightarrow> nat \<Rightarrow> PersistenceOptions" where
  "with_sync_aol self interval =
     self\<lparr>snapshot_mode := SnapshotInterval interval, opt_aol_mode := SynchronousOnCommit,
          opt_fsync_mode := EveryAppend\<rparr>"

end
