(* ===== verification/Compression.thy ===== *)
theory Compression
  imports Options
begin

text \<open>
  The transparent compression layer (\<open>src/compression/compression.rs\<close>).  The LZ4 encoder and decoder
  are a library: a record of two functions, the frame an encoder leaves in the file for the bytes
  written to it, and what a decoder reads back from a file (\<open>Inl\<close> when it refuses the file).
\<close>

record lz4 =
  lz4_frame :: "bytes \<Rightarrow> bytes"
  lz4_read :: "bytes \<Rightarrow> string + bytes"

definition LZ4_MAGIC :: bytes where
  "LZ4_MAGIC = [0x04, 0x22, 0x4D, 0x18]"

text \<open>What a \<open>CompressedWriter\<close> has put into its file once it is flushed; \<open>finish\<close> adds nothing.\<close>

definition CompressedWriter_output :: "lz4 \<Rightarrow> CompressionMode \<Rightarrow> bytes \<Rightarrow> bytes" where
  "CompressedWriter_output lib mode written =
     (case mode of CompressionNone \<Rightarrow> written | Lz4 \<Rightarrow> lz4_frame lib written)"

definition CompressedWriter_finish :: "bytes \<Rightarrow> bytes" where
  "CompressedWriter_finish out = out"

definition detect_mode :: "bytes \<Rightarrow> CompressionMode" where
  "detect_mode buffer =
     (if length buffer \<ge> 4
      then (if take 4 buffer = LZ4_MAGIC then Lz4 else CompressionNone)
      else CompressionNone)"

definition CompressedReader_new :: "lz4 \<Rightarrow> bytes \<Rightarrow> string + bytes" where
  "CompressedReader_new lib file =
     (case detect_mode file of CompressionNone \<Rightarrow> Inr file | Lz4 \<Rightarrow> lz4_read lib file)"

section \<open>Round trip\<close>

text \<open>
  The documented behaviour of an LZ4 frame: it starts with the magic number, and a decoder reads
  back what was encoded.
\<close>

definition lz4_law :: "lz4 \<Rightarrow> bool" where
  "lz4_law lib \<longleftrightarrow> (\<forall>bs. take 4 (lz4_frame lib bs) = LZ4_MAGIC \<and> lz4_read lib (lz4_frame lib bs) = Inr bs)"

lemma length_LZ4_MAGIC [simp]: "length LZ4_MAGIC = 4"
  by (simp add: LZ4_MAGIC_def)

lemma detect_mode_iff: "detect_mode bs = Lz4 \<longleftrightarrow> take 4 bs = LZ4_MAGIC"
proof -
  have "take 4 bs = LZ4_MAGIC \<Longrightarrow> 4 \<le> length bs"
    by (metis length_LZ4_MAGIC length_take min.cobounded1)
  then show ?thesis by (auto simp: detect_mode_def)
qed

lemma detect_mode_None_iff: "detect_mode bs = CompressionNone \<longleftrightarrow> take 4 bs \<noteq> LZ4_MAGIC"
  using detect_mode_iff [of bs] by (cases "detect_mode bs") auto

lemma compressed_roundtrip:
  assumes "lz4_law lib" and "mode = CompressionNone \<longrightarrow> take 4 written \<noteq> LZ4_MAGIC"
  shows "CompressedReader_new lib (CompressedWriter_finish (CompressedWriter_output lib mode written)) = Inr written"
proof (cases mode)
  case CompressionNone
  with assms(2) have "detect_mode written = CompressionNone" by (simp add: detect_mode_None_iff)
  with CompressionNone show ?thesis
    by (simp add: CompressedReader_new_def CompressedWriter_finish_def CompressedWriter_output_def)
next
  case Lz4
  with assms(1) have "detect_mode (lz4_frame lib written) = Lz4" by (simp add: detect_mode_iff lz4_law_def)
  with Lz4 assms(1) show ?thesis
    by (simp add: CompressedReader_new_def CompressedWriter_finish_def CompressedWriter_output_def lz4_law_def)
qed

end
