(* ===== verification/Errors.thy ===== *)
theory Errors
  imports Main
begin

text \<open>
  The error types of \<open>src/error/tx_error.rs\<close> and \<open>src/error/persistence_error.rs\<close>, with the
  message each variant displays.  The payload of a persistence error is the text of the underlying
  I/O, codec or lock error.
\<close>

datatype PersistenceError =
    Io string
  | Serialization string
  | Deserialization string
  | LockFailed string

datatype Error =
    TxClosed
  | KeyWriteConflict
  | KeyReadConflict
  | TxNotWritable
  | KeyAlreadyExists
  | TxCommitNotPersisted PersistenceError

fun persistence_error_message :: "PersistenceError \<Rightarrow> string" where
  "persistence_error_message (Io e) = ''IO error: '' @ e"
| "persistence_error_message (Serialization e) = ''Serialization error: '' @ e"
| "persistence_error_message (Deserialization e) = ''Deserialization error: '' @ e"
| "persistence_error_message (LockFailed e) = ''Lock acquisition failed''"

fun error_message :: "Error \<Rightarrow> string" where
  "error_message TxClosed = ''transaction is closed''"
| "error_message KeyWriteConflict = ''Write conflict, retry the transaction''"
| "error_message KeyReadConflict = ''Read conflict, retry the transaction''"
| "error_message TxNotWritable = ''Transaction is not writable''"
| "error_message KeyAlreadyExists = ''Key already exists, cannot be overwritten''"
| "error_message (TxCommitNotPersisted e) =
     ''Transaction commit AOL persistence failed: '' @ persistence_error_message e"

definition poison_error :: "string \<Rightarrow> PersistenceError" where
  "poison_error msg = LockFailed msg"

end
