(* ===== verification/Persistence.thy ===== *)
theory Persistence
  imports Versions Commit_Queue Compression Errors
begin

text \<open>
  Snapshots and the append-only log (\<open>src/persistence/persistence.rs\<close>).  The state is the record
  \<open>Persistence\<close>, with the files it owns.  The bincode codec is a library and an argument; so are the
  clock and the outcome of every call that can fail (\<open>io_env\<close>).  The log file is opened in append
  mode: a write goes to its end wherever the cursor is.
\<close>

type_synonym datastore = "(bytes, Versions) omap"
type_synonym chain_entry = "bytes \<times> (u64 \<times> bytes option) list"
type_synonym log_entry = "bytes \<times> u64 \<times> bytes option"

section \<open>The libraries and the environment\<close>

datatype 'a decoded = Decoded 'a bytes | UnexpectedEof | DecodeFailed string

record codec =
  enc_chain :: "chain_entry \<Rightarrow> bytes"
  dec_chain :: "bytes \<Rightarrow> chain_entry decoded"
  enc_log :: "log_entry \<Rightarrow> bytes"
  dec_log :: "bytes \<Rightarrow> log_entry decoded"
  lz4_lib :: lz4

datatype io_step =
    CreateDirs | CreateTmp | BuildEncoder | LockAol | AolMetadata | EncodeEntry | FlushWriter
  | RenameTmp | OpenSnapshot | SyncSnapshot | SnapshotMetadata | OpenAol | SeekAol | CreateTail
  | CopyTail | SyncTail | OpenTail | AppendTail | FlushAol | SetLen | SyncAol | LockFsync

text \<open>\<open>fault step\<close> is the error text when the step fails; \<open>spilled\<close> is how many bytes of a failed
  buffered write had reached the file; \<open>clock\<close> is the monotonic clock.\<close>

record io_env =
  fault :: "io_step \<Rightarrow> string option"
  spilled :: nat
  clock :: nat

section \<open>State\<close>

record AsyncAppendOperation =
  op_version :: u64
  op_writeset :: writeset

record Persistence =
  aol :: bool
  aol_path :: string
  aol_mode :: AolMode
  fsync_mode :: FsyncMode
  snapshot_path :: string
  p_snapshot_mode :: SnapshotMode
  p_background_threads_enabled :: bool
  snapshot_handle :: bool
  append_handle :: bool
  fsync_handle :: bool
  compression_mode :: CompressionMode
  last_fsync :: nat
  pending_syncs :: u64
  async_append_injector :: "AsyncAppendOperation list"
  files :: "string \<Rightarrow> bytes option"
  durable :: "string \<Rightarrow> bytes option"

type_synonym 'a presult = "(PersistenceError + 'a) \<times> Persistence"

definition file_of :: "Persistence \<Rightarrow> string \<Rightarrow> bytes" where
  "file_of p path = (case files p path of None \<Rightarrow> [] | Some bs \<Rightarrow> bs)"

definition write_file :: "string \<Rightarrow> bytes \<Rightarrow> Persistence \<Rightarrow> Persistence" where
  "write_file path bs p = p\<lparr>files := (files p)(path \<mapsto> bs)\<rparr>"

definition append_file :: "string \<Rightarrow> bytes \<Rightarrow> Persistence \<Rightarrow> Persistence" where
  "append_file path bs p = write_file path (file_of p path @ bs) p"

definition remove_file :: "string \<Rightarrow> Persistence \<Rightarrow> Persistence" where
  "remove_file path p = p\<lparr>files := (files p)(path := None)\<rparr>"

definition sync_file :: "string \<Rightarrow> Persistence \<Rightarrow> Persistence" where
  "sync_file path p = p\<lparr>durable := (durable p)(path := files p path)\<rparr>"

text \<open>The \<open>?\<close> operator on a fallible call: fail with the wrapped error or go on.\<close>

definition attempt :: "io_env \<Rightarrow> io_step \<Rightarrow> (string \<Rightarrow> PersistenceError) \<Rightarrow> Persistence \<Rightarrow>
    (Persistence \<Rightarrow> 'a presult) \<Rightarrow> 'a presult" where
  "attempt env step wrap p k =
     (case fault env step of Some msg \<Rightarrow> (Inl (wrap msg), p) | None \<Rightarrow> k p)"

section \<open>Paths\<close>

definition is_absolute :: "string \<Rightarrow> bool" where
  "is_absolute path \<longleftrightarrow> path \<noteq> [] \<and> hd path = CHR ''/''"

definition path_join :: "string \<Rightarrow> string \<Rightarrow> string" where
  "path_join base path =
     (if is_absolute path then path
      else if base = [] \<or> last base = CHR ''/'' then base @ path
      else base @ CHR ''/'' # path)"

definition resolve_path :: "string \<Rightarrow> string option \<Rightarrow> string \<Rightarrow> string" where
  "resolve_path base opt default_name =
     (case opt of
        Some path \<Rightarrow> if is_absolute path then path else path_join base path
      | None \<Rightarrow> path_join base default_name)"

text \<open>\<open>Path::with_extension\<close>: the file name up to its last dot (a leading dot does not count),
  then a dot and the extension.\<close>

definition file_name :: "string \<Rightarrow> string" where
  "file_name path = rev (takeWhile (\<lambda>c. c \<noteq> CHR ''/'') (rev path))"

definition file_stem :: "string \<Rightarrow> string" where
  "file_stem name =
     (let ext = takeWhile (\<lambda>c. c \<noteq> CHR ''.'') (rev name)
      in if length ext + 1 < length name then take (length name - length ext - 1) name else name)"

definition with_extension :: "string \<Rightarrow> string \<Rightarrow> string" where
  "with_extension path ext =
     take (length path - length (file_name path)) path @ file_stem (file_name path) @ CHR ''.'' # ext"

definition temp_path :: "Persistence \<Rightarrow> string" where
  "temp_path p = with_extension (snapshot_path p) ''.tmp''"

section \<open>Log truncation\<close>

text \<open>
  \<open>truncate\<close> after a snapshot.  When the log has grown past \<open>position\<close>, the bytes from there on are
  copied to a temporary file and written back through the same handle, which appends them.
\<close>

definition truncate_aol :: "io_env \<Rightarrow> u64 \<Rightarrow> Persistence \<Rightarrow> unit presult" where
  "truncate_aol env position p =
     (if \<not> aol p then (Inr (), p)
      else
        attempt env LockAol LockFailed p (\<lambda>p.
        attempt env AolMetadata Io p (\<lambda>p.
        let path = aol_path p;
            content = file_of p path;
            tail = drop (unat position) content;
            reset = (\<lambda>p. (Inr (), if position = 0 then p\<lparr>pending_syncs := 0\<rparr> else p)) in
        if length content > unat position then
          attempt env SeekAol Io p (\<lambda>p.
          attempt env CreateTail Io p (\<lambda>p.
          attempt env CopyTail Io p (\<lambda>p.
          attempt env SyncTail Io p (\<lambda>p.
          attempt env OpenTail Io p (\<lambda>p.
          (case fault env AppendTail of
             Some msg \<Rightarrow> (Inl (Io msg), append_file path (take (spilled env) tail) p)
           | None \<Rightarrow> attempt env FlushAol Io (append_file path tail p) reset))))))
        else
          attempt env SetLen Io p (\<lambda>p.
          attempt env FlushAol Io (write_file path [] p) reset))))"

section \<open>Snapshots\<close>

definition chain_entries :: "datastore \<Rightarrow> chain_entry list" where
  "chain_entries ds = filter (\<lambda>e. snd e \<noteq> []) (map (\<lambda>(k, vs). (k, all_versions vs)) ds)"

definition encode_chains :: "codec \<Rightarrow> datastore \<Rightarrow> bytes" where
  "encode_chains cdc ds = concat (map (enc_chain cdc) (chain_entries ds))"

definition snapshot_body :: "codec \<Rightarrow> io_env \<Rightarrow> datastore \<Rightarrow> Persistence \<Rightarrow> unit presult" where
  "snapshot_body cdc env ds p =
     attempt env CreateTmp Io p (\<lambda>p.
     attempt env BuildEncoder Io (write_file (temp_path p) [] p) (\<lambda>p.
     let rest = (\<lambda>cutoff p.
       attempt env EncodeEntry Serialization p (\<lambda>p.
       attempt env FlushWriter Io p (\<lambda>p.
       let out = CompressedWriter_output (lz4_lib cdc) (compression_mode p) (encode_chains cdc ds) in
       attempt env RenameTmp Io (write_file (temp_path p) (CompressedWriter_finish out) p) (\<lambda>p.
       let p = remove_file (temp_path p)
                 (write_file (snapshot_path p) (file_of p (temp_path p)) p) in
       attempt env OpenSnapshot Io p (\<lambda>p.
       attempt env SyncSnapshot Io p (\<lambda>p.
       truncate_aol env cutoff (sync_file (snapshot_path p) p))))))) in
     if aol p then
       attempt env LockAol LockFailed p (\<lambda>p.
       attempt env AolMetadata Io p (\<lambda>p.
       rest (of_nat (length (file_of p (aol_path p)))) p))
     else rest 0 p))"

text \<open>The background snapshot worker runs the same body and logs the error instead of returning it.\<close>

definition snapshot :: "codec \<Rightarrow> io_env \<Rightarrow> datastore \<Rightarrow> Persistence \<Rightarrow> unit presult" where
  "snapshot cdc env ds p =
     (case snapshot_body cdc env ds p of
        (Inl e, p') \<Rightarrow> (Inl e, remove_file (temp_path p) p')
      | (Inr _, p') \<Rightarrow> (Inr (), p'))"

definition snapshot_worker_round :: "codec \<Rightarrow> io_env \<Rightarrow> datastore \<Rightarrow> Persistence \<Rightarrow> Persistence" where
  "snapshot_worker_round cdc env ds p =
     (if p_background_threads_enabled p then snd (snapshot cdc env ds p) else p)"

section \<open>Recovery\<close>

text \<open>
  The two decode loops; a loop that never reaches the end of the file is \<open>None\<close>.  The accumulator is
  the data store being filled.
\<close>

definition load_chain :: "chain_entry \<Rightarrow> datastore \<Rightarrow> datastore" where
  "load_chain e ds =
     (case e of (k, versions) \<Rightarrow>
        if versions \<noteq> []
        then om_insert k (foldl (\<lambda>vs (v, x). push vs \<lparr>version = v, value_of = x\<rparr>) Versions_new versions) ds
        else ds)"

definition replay_log :: "log_entry \<Rightarrow> datastore \<Rightarrow> datastore" where
  "replay_log e ds =
     (case e of (k, v, x) \<Rightarrow>
        (case map_of ds k of
           Some vs \<Rightarrow> om_insert k (push vs \<lparr>version = v, value_of = x\<rparr>) ds
         | None \<Rightarrow> om_insert k (Versions_from \<lparr>version = v, value_of = x\<rparr>) ds))"

partial_function (option) decode_loop ::
  "(bytes \<Rightarrow> 'e decoded) \<Rightarrow> ('e \<Rightarrow> datastore \<Rightarrow> datastore) \<Rightarrow> bytes \<Rightarrow> datastore \<Rightarrow>
     (PersistenceError + datastore) option" where
  "decode_loop dec apply_entry input ds =
     (case dec input of
        Decoded e rest \<Rightarrow> decode_loop dec apply_entry rest (apply_entry e ds)
      | UnexpectedEof \<Rightarrow> Some (Inr ds)
      | DecodeFailed msg \<Rightarrow> Some (Inl (Deserialization msg)))"

definition load_file :: "codec \<Rightarrow> (bytes \<Rightarrow> 'e decoded) \<Rightarrow> ('e \<Rightarrow> datastore \<Rightarrow> datastore) \<Rightarrow>
    io_env \<Rightarrow> io_step \<Rightarrow> io_step \<Rightarrow> bytes option \<Rightarrow> datastore \<Rightarrow> (PersistenceError + datastore) option" where
  "load_file cdc dec apply_entry env open_step metadata_step content ds =
     (case content of
        None \<Rightarrow> Some (Inr ds)
      | Some bs \<Rightarrow>
          (case fault env open_step of
             Some msg \<Rightarrow> Some (Inl (Io msg))
           | None \<Rightarrow>
               (case fault env metadata_step of
                  Some msg \<Rightarrow> Some (Inl (Io msg))
                | None \<Rightarrow>
                    if length bs > 0 then
                      (case CompressedReader_new (lz4_lib cdc) bs of
                         Inl msg \<Rightarrow> Some (Inl (Io msg))
                       | Inr reader \<Rightarrow> decode_loop dec apply_entry reader ds)
                    else Some (Inr ds))))"

definition load :: "codec \<Rightarrow> io_env \<Rightarrow> Persistence \<Rightarrow> datastore \<Rightarrow> (PersistenceError + datastore) option" where
  "load cdc env p ds =
     (case load_file cdc (dec_chain cdc) load_chain env OpenSnapshot SnapshotMetadata (files p (snapshot_path p)) ds of
        None \<Rightarrow> None
      | Some (Inl e) \<Rightarrow> Some (Inl e)
      | Some (Inr ds') \<Rightarrow>
          load_file cdc (dec_log cdc) replay_log env OpenAol AolMetadata (files p (aol_path p)) ds')"

section \<open>Appending\<close>

definition log_entries :: "u64 \<Rightarrow> writeset \<Rightarrow> log_entry list" where
  "log_entries v ws = map (\<lambda>(k, x). (k, v, x)) ws"

definition encode_log :: "codec \<Rightarrow> log_entry list \<Rightarrow> bytes" where
  "encode_log cdc es = concat (map (enc_log cdc) es)"

definition fsync_policy :: "io_env \<Rightarrow> Persistence \<Rightarrow> unit presult" where
  "fsync_policy env p =
     (case fsync_mode p of
        FsyncNever \<Rightarrow> (Inr (), p\<lparr>pending_syncs := pending_syncs p + 1\<rparr>)
      | EveryAppend \<Rightarrow> attempt env SyncAol Io p (\<lambda>p. (Inr (), sync_file (aol_path p) p))
      | FsyncInterval duration \<Rightarrow>
          attempt env LockFsync LockFailed p (\<lambda>p.
          if clock env - last_fsync p \<ge> duration then
            attempt env SyncAol Io (p\<lparr>last_fsync := clock env\<rparr>) (\<lambda>p.
              (Inr (), (sync_file (aol_path p) p)\<lparr>pending_syncs := 0\<rparr>))
          else (Inr (), p\<lparr>pending_syncs := pending_syncs p + 1\<rparr>)))"

text \<open>The buffered write of a list of records followed by the fsync policy, under the log's lock.\<close>

definition write_log :: "codec \<Rightarrow> io_env \<Rightarrow> log_entry list \<Rightarrow> Persistence \<Rightarrow> unit presult" where
  "write_log cdc env es p =
     (let data = encode_log cdc es;
          partial = append_file (aol_path p) (take (spilled env) data) p in
      case fault env EncodeEntry of
        Some msg \<Rightarrow> (Inl (Serialization msg), partial)
      | None \<Rightarrow>
          (case fault env FlushWriter of
             Some msg \<Rightarrow> (Inl (Io msg), partial)
           | None \<Rightarrow> fsync_policy env (append_file (aol_path p) data p)))"

definition append :: "codec \<Rightarrow> io_env \<Rightarrow> u64 \<Rightarrow> writeset \<Rightarrow> Persistence \<Rightarrow> unit presult" where
  "append cdc env v ws p =
     (if aol_mode p = AolNever \<or> \<not> aol p then (Inr (), p)
      else
        (case aol_mode p of
           AsynchronousAfterCommit \<Rightarrow>
             (Inr (), p\<lparr>async_append_injector :=
                async_append_injector p @ [\<lparr>op_version = v, op_writeset = ws\<rparr>]\<rparr>)
         | SynchronousOnCommit \<Rightarrow> attempt env LockAol LockFailed p (write_log cdc env (log_entries v ws))
         | AolNever \<Rightarrow> (Inr (), p)))"

section \<open>Background workers, construction and shutdown\<close>

definition BATCH_SIZE :: nat where
  "BATCH_SIZE = 100"

text \<open>
  One round of the append worker: up to a batch of queued operations is taken and written; a poisoned
  lock or a failed write is logged and the batch is gone.
\<close>

definition append_worker_round :: "codec \<Rightarrow> io_env \<Rightarrow> Persistence \<Rightarrow> Persistence" where
  "append_worker_round cdc env p =
     (if \<not> p_background_threads_enabled p then p
      else
        let batch = take BATCH_SIZE (async_append_injector p);
            p' = p\<lparr>async_append_injector := drop BATCH_SIZE (async_append_injector p)\<rparr> in
        if batch = [] then p'
        else
          (case fault env LockAol of
             Some _ \<Rightarrow> p'
           | None \<Rightarrow>
               snd (write_log cdc env
                 (concat (map (\<lambda>op. log_entries (op_version op) (op_writeset op)) batch)) p')))"

definition fsync_worker_round :: "io_env \<Rightarrow> Persistence \<Rightarrow> Persistence" where
  "fsync_worker_round env p =
     (if p_background_threads_enabled p \<and> pending_syncs p > 0 \<and> fault env LockAol = None
         \<and> fault env SyncAol = None
      then (sync_file (aol_path p) p)\<lparr>pending_syncs := 0\<rparr>
      else p)"

definition spawn_snapshot_worker :: "Persistence \<Rightarrow> Persistence" where
  "spawn_snapshot_worker p =
     (case p_snapshot_mode p of
        SnapshotNever \<Rightarrow> p
      | SnapshotInterval _ \<Rightarrow> if \<not> snapshot_handle p then p\<lparr>snapshot_handle := True\<rparr> else p)"

definition spawn_appender_worker :: "Persistence \<Rightarrow> Persistence" where
  "spawn_appender_worker p =
     (if aol_mode p \<noteq> AsynchronousAfterCommit then p
      else if aol p \<and> \<not> append_handle p then p\<lparr>append_handle := True\<rparr> else p)"

definition spawn_fsync_worker :: "Persistence \<Rightarrow> Persistence" where
  "spawn_fsync_worker p =
     (if aol_mode p = AolNever then p
      else
        (case fsync_mode p of
           FsyncInterval _ \<Rightarrow> if aol p \<and> \<not> fsync_handle p then p\<lparr>fsync_handle := True\<rparr> else p
         | _ \<Rightarrow> p))"

text \<open>
  \<open>new_with_options\<close> on the files found at start-up; the data store of the fresh engine is filled by
  \<open>load\<close> before any worker starts.
\<close>

definition Persistence_init :: "PersistenceOptions \<Rightarrow> nat \<Rightarrow> (string \<Rightarrow> bytes option) \<Rightarrow> Persistence" where
  "Persistence_init opts now disk =
     (let apath = resolve_path (base_path opts) (opt_aol_path opts) ''aol.bin'';
          spath = resolve_path (base_path opts) (opt_snapshot_path opts) ''snapshot.bin'';
          disk' = (if opt_aol_mode opts = AolNever \<or> disk apath \<noteq> None then disk else disk(apath \<mapsto> [])) in
      \<lparr>aol = (opt_aol_mode opts \<noteq> AolNever), aol_path = apath, aol_mode = opt_aol_mode opts,
       fsync_mode = opt_fsync_mode opts, snapshot_path = spath, p_snapshot_mode = snapshot_mode opts,
       p_background_threads_enabled = True, snapshot_handle = False, append_handle = False,
       fsync_handle = False, compression_mode = opt_compression_mode opts, last_fsync = now,
       pending_syncs = 0, async_append_injector = [], files = disk', durable = disk\<rparr>)"

definition Persistence_new :: "codec \<Rightarrow> io_env \<Rightarrow> PersistenceOptions \<Rightarrow> (string \<Rightarrow> bytes option) \<Rightarrow> datastore \<Rightarrow>
    (PersistenceError + Persistence \<times> datastore) option" where
  "Persistence_new cdc env opts disk ds =
     (case fault env CreateDirs of
        Some msg \<Rightarrow> Some (Inl (Io msg))
      | None \<Rightarrow>
          (case (if opt_aol_mode opts = AolNever then None else fault env OpenAol) of
             Some msg \<Rightarrow> Some (Inl (Io msg))
           | None \<Rightarrow>
               let this = Persistence_init opts (clock env) disk in
               (case load cdc env this ds of
                  None \<Rightarrow> None
                | Some (Inl e) \<Rightarrow> Some (Inl e)
                | Some (Inr ds') \<Rightarrow>
                    Some (Inr (spawn_fsync_worker (spawn_appender_worker (spawn_snapshot_worker this)), ds')))))"

definition Persistence_drop :: "io_env \<Rightarrow> Persistence \<Rightarrow> Persistence" where
  "Persistence_drop env p =
     (let p' = p\<lparr>p_background_threads_enabled := False, snapshot_handle := False,
                 append_handle := False, fsync_handle := False\<rparr> in
      if aol_mode p \<noteq> AolNever \<and> pending_syncs p > 0 \<and> aol p
         \<and> fault env LockAol = None \<and> fault env SyncAol = None
      then sync_file (aol_path p) p' else p')"

end
