(* ===== verification/Engine.thy ===== *)
theory Engine
  imports Oracle Counters Persistence
begin

text \<open>
  The shared state of the engine and its two collectors (\<open>src/db/inner.rs\<close>): the counters and queues
  transactions go through, the data store, the removal of old commit entries and the compaction of
  version chains.  The record keeps the source's fields; thread handles are flags.
\<close>

record Inner =
  ts_oracle :: Oracle
  transaction_commit_id :: u64
  transaction_queue_id :: u64
  transaction_commit_queue :: "(u64, Commit) omap"
  transaction_merge_id :: u64
  transaction_merge_queue :: "(u64, Merge) omap"
  counter_by_commit :: Counters
  transaction_cleanup_handle :: bool
  counter_by_oracle :: Counters
  garbage_collection_handle :: bool
  gc_floor :: u64
  gc_dirty_keys :: "bytes list"
  datastore :: datastore
  background_threads_enabled :: bool
  persistence :: "Persistence option"
  reset_threshold :: nat

definition Inner_new :: "DatabaseOptions \<Rightarrow> nat option \<Rightarrow> nat \<Rightarrow> Inner option" where
  "Inner_new opts unix now =
     (case Oracle_new (opt_resync_interval opts) unix now of
        None \<Rightarrow> None
      | Some o' \<Rightarrow>
          Some \<lparr>ts_oracle = o',
            transaction_commit_id = 0,
            transaction_queue_id = 0,
            transaction_commit_queue = [],
            transaction_merge_id = 0,
            transaction_merge_queue = [],
            counter_by_commit = Counters_new,
            transaction_cleanup_handle = False,
            counter_by_oracle = Counters_new,
            garbage_collection_handle = False,
            gc_floor = 0,
            gc_dirty_keys = [],
            datastore = [],
            background_threads_enabled = True,
            persistence = None,
            reset_threshold = opt_reset_threshold opts\<rparr>)"

section \<open>Collectors\<close>

definition earlist_active_version :: "Inner \<Rightarrow> u64 \<Rightarrow> u64" where
  "earlist_active_version self fallback = earliest_active (counter_by_oracle self) fallback"

definition earliest_active_commit :: "Inner \<Rightarrow> u64 \<Rightarrow> u64" where
  "earliest_active_commit self fallback = earliest_active (counter_by_commit self) fallback"

definition run_cleanup_inner :: "Inner \<Rightarrow> Inner" where
  "run_cleanup_inner self =
     (let fallback = transaction_commit_id self;
          oldest = earliest_active_commit self fallback in
      self\<lparr>transaction_commit_queue :=
        filter (\<lambda>e. \<not> fst e < oldest) (transaction_commit_queue self)\<rparr>)"

text \<open>The state after publishing the floor and the watermark; \<open>clk\<close> is the monotonic clock.\<close>

definition compute_cleanup_ts :: "nat \<Rightarrow> Inner \<Rightarrow> u64 \<times> Inner" where
  "compute_cleanup_ts clk self =
     (let now = current_time_ns (ts_oracle self) clk;
          earliest_tx = earlist_active_version self now;
          oracle_now = timestamp (ts_oracle self);
          proposed = min (min now earliest_tx) oracle_now;
          self' = self\<lparr>gc_floor := max (gc_floor self) proposed\<rparr>;
          earliest_after = earlist_active_version self' now in
      (min proposed earliest_after, self'))"

definition gc_entry :: "u64 \<Rightarrow> bytes \<times> Versions \<Rightarrow> (bytes \<times> Versions) option" where
  "gc_entry cleanup_ts e =
     (let r = gc_older_versions (snd e) cleanup_ts
      in if snd r = 0 then None else Some (fst e, fst r))"

definition run_gc_full :: "u64 \<Rightarrow> Inner \<Rightarrow> Inner" where
  "run_gc_full cleanup_ts self =
     self\<lparr>datastore := List.map_filter (gc_entry cleanup_ts) (datastore self)\<rparr>"

definition gc_key_store :: "bytes \<Rightarrow> u64 \<Rightarrow> datastore \<Rightarrow> datastore" where
  "gc_key_store key cleanup_ts ds =
     (case map_of ds key of
        None \<Rightarrow> ds
      | Some versions \<Rightarrow>
          (case gc_older_versions versions cleanup_ts of
             (versions', n) \<Rightarrow> if n = 0 then om_remove key ds else om_insert key versions' ds))"

definition gc_key :: "bytes \<Rightarrow> u64 \<Rightarrow> Inner \<Rightarrow> Inner" where
  "gc_key key cleanup_ts self = self\<lparr>datastore := gc_key_store key cleanup_ts (datastore self)\<rparr>"

text \<open>The consuming loop over the queue of dirty keys, with the keys already seen in this round.\<close>

fun gc_dirty_loop :: "bytes set \<Rightarrow> bytes list \<Rightarrow> u64 \<Rightarrow> Inner \<Rightarrow> Inner" where
  "gc_dirty_loop seen [] cleanup_ts self = self\<lparr>gc_dirty_keys := []\<rparr>"
| "gc_dirty_loop seen (key # keys) cleanup_ts self =
     (if key \<in> seen then gc_dirty_loop seen keys cleanup_ts self
      else gc_dirty_loop (insert key seen) keys cleanup_ts (gc_key key cleanup_ts self))"

definition run_gc_dirty_inner :: "u64 \<Rightarrow> Inner \<Rightarrow> Inner" where
  "run_gc_dirty_inner cleanup_ts self = gc_dirty_loop {} (gc_dirty_keys self) cleanup_ts self"

section \<open>Data store invariants\<close>

definition store_wf :: "datastore \<Rightarrow> bool" where
  "store_wf ds \<longleftrightarrow> om_wf ds \<and> (\<forall>e\<in>set ds. versions_wf (snd e))"

text \<open>What a snapshot reads from the store alone, and that no stored version is newer than a bound.\<close>

definition store_fetch :: "datastore \<Rightarrow> bytes \<Rightarrow> u64 \<Rightarrow> bytes option" where
  "store_fetch ds key w = (case map_of ds key of None \<Rightarrow> None | Some vs \<Rightarrow> fetch_version vs w)"

definition store_newest_le :: "datastore \<Rightarrow> u64 \<Rightarrow> bool" where
  "store_newest_le ds m \<longleftrightarrow> (\<forall>e\<in>set ds. versions_newest_le (snd e) m)"

lemma store_wf_get: "store_wf ds \<Longrightarrow> map_of ds k = Some vs \<Longrightarrow> versions_wf vs"
  using map_of_SomeD [of ds k vs] by (fastforce simp: store_wf_def)

lemma store_newest_get: "store_newest_le ds m \<Longrightarrow> map_of ds k = Some vs \<Longrightarrow> versions_newest_le vs m"
  using map_of_SomeD [of ds k vs] by (fastforce simp: store_newest_le_def)

lemma store_wf_insert [wf_intros]: "store_wf ds \<Longrightarrow> versions_wf vs \<Longrightarrow> store_wf (om_insert k vs ds)"
  by (auto simp: store_wf_def set_om_insert om_wf_insert)

lemma store_newest_insert:
  "store_wf ds \<Longrightarrow> store_newest_le ds m \<Longrightarrow> versions_newest_le vs m \<Longrightarrow> store_newest_le (om_insert k vs ds) m"
  by (auto simp: store_wf_def store_newest_le_def set_om_insert)

lemma store_wf_remove [wf_intros]: "store_wf ds \<Longrightarrow> store_wf (om_remove k ds)"
  by (auto simp: store_wf_def set_om_remove om_wf_remove)

lemma store_newest_remove: "store_newest_le ds m \<Longrightarrow> store_newest_le (om_remove k ds) m"
  by (auto simp: store_newest_le_def set_om_remove)

lemma store_fetch_insert:
  "store_fetch (om_insert k vs ds) k' w = (if k' = k then fetch_version vs w else store_fetch ds k' w)"
  by (simp add: store_fetch_def om_simps)

lemma store_fetch_remove:
  "store_fetch (om_remove k ds) k' w = (if k' = k then None else store_fetch ds k' w)"
  by (simp add: store_fetch_def om_simps)

lemma store_fetch_beyond:
  "store_wf ds \<Longrightarrow> store_newest_le ds m \<Longrightarrow> m \<le> w \<Longrightarrow> store_fetch ds k w = store_fetch ds k m"
  by (auto simp: store_fetch_def store_wf_get store_newest_get vc.fetch_beyond_newest split: option.splits)

section \<open>Compaction keeps every snapshot at or above the watermark\<close>

lemma fetch_version_Nil [simp]: "fetch_version [] w = None"
  by (simp add: fetch_version_def find_index_lte_version_def rposition_def)

lemma gc_key_store_props:
  assumes "store_wf ds"
  shows "store_wf (gc_key_store key c ds)"
    and "store_newest_le ds m \<Longrightarrow> store_newest_le (gc_key_store key c ds) m"
    and "c \<le> w \<Longrightarrow> store_fetch (gc_key_store key c ds) k w = store_fetch ds k w"
proof -
  show "store_wf (gc_key_store key c ds)"
    using assms vc.wf_gc [of _ c]
    by (auto simp: gc_key_store_def store_wf_get split: option.splits prod.splits intro!: wf_intros)
      (metis fst_conv store_wf_get)
  show "store_newest_le (gc_key_store key c ds) m" if "store_newest_le ds m"
    using assms that
    by (auto simp: gc_key_store_def split: option.splits prod.splits intro!: store_newest_remove store_newest_insert)
      (metis fst_conv store_newest_get store_wf_get vc.newest_le_gc)
  show "store_fetch (gc_key_store key c ds) k w = store_fetch ds k w" if "c \<le> w"
  proof (cases "map_of ds key")
    case None
    then show ?thesis by (simp add: gc_key_store_def)
  next
    case (Some vs)
    have eq: "fetch_version (fst (gc_older_versions vs c)) w = fetch_version vs w"
      using vc.fetch_gc store_wf_get [OF assms Some] that by blast
    have "snd (gc_older_versions vs c) = 0 \<Longrightarrow> fetch_version vs w = None"
      using eq by (simp add: gc_older_versions_length)
    with eq Some show ?thesis
      by (auto simp: gc_key_store_def store_fetch_insert store_fetch_remove split: prod.splits)
        (simp_all add: store_fetch_def)
  qed
qed


lemma map_filter_gc_entry_keys:
  "set (map fst (List.map_filter (gc_entry c) ds)) \<subseteq> set (map fst ds)"
  by (auto simp: List.map_filter_def gc_entry_def Let_def split: if_splits)

lemma map_filter_gc_entry_sorted:
  "ssorted (map fst ds) \<Longrightarrow> ssorted (map fst (List.map_filter (gc_entry c) ds))"
proof (induction ds)
  case Nil
  then show ?case by (simp add: List.map_filter_def)
next
  case (Cons e ds)
  have "fst e' = fst e" if "gc_entry c e = Some e'" for e'
    using that by (auto simp: gc_entry_def Let_def split: if_splits)
  moreover have "fst e < fst x" if "x \<in> set (List.map_filter (gc_entry c) ds)" for x
  proof -
    from that map_filter_gc_entry_keys [of c ds] have "fst x \<in> fst ` set ds" by auto
    with Cons.prems show ?thesis by auto
  qed
  ultimately show ?case using Cons
    by (auto simp: List.map_filter_simps split: option.splits)
qed

lemma map_filter_gc_entry_get:
  "distinct (map fst ds) \<Longrightarrow>
   map_of (List.map_filter (gc_entry c) ds) k
     = Option.bind (map_of ds k) (\<lambda>vs. map_option snd (gc_entry c (k, vs)))"
proof (induction ds)
  case Nil
  then show ?case by (simp add: List.map_filter_def)
next
  case (Cons e ds)
  obtain j vs where e: "e = (j, vs)" by fastforce
  have "map_of (List.map_filter (gc_entry c) ds) j = None" and "map_of ds j = None"
    using Cons.prems map_filter_gc_entry_keys [of c ds] by (auto simp: e map_of_None_keys)
  with Cons show ?case
    by (auto simp: e List.map_filter_simps gc_entry_def Let_def split: option.splits)
qed

lemma map_filter_gc_entry_props:
  assumes "store_wf ds"
  shows "store_wf (List.map_filter (gc_entry c) ds)"
    and "store_newest_le ds m \<Longrightarrow> store_newest_le (List.map_filter (gc_entry c) ds) m"
    and "c \<le> w \<Longrightarrow> store_fetch (List.map_filter (gc_entry c) ds) k w = store_fetch ds k w"
proof -
  have mem: "\<exists>vs. (fst e, vs) \<in> set ds \<and> snd e = fst (gc_older_versions vs c)"
    if "e \<in> set (List.map_filter (gc_entry c) ds)" for e
    using that by (force simp: List.map_filter_def gc_entry_def Let_def split: if_splits)
  from assms have sorted: "ssorted (map fst ds)" by (simp add: store_wf_def om_wf_def)
  have "versions_wf (snd e)" if "e \<in> set (List.map_filter (gc_entry c) ds)" for e
    using mem [OF that] assms vc.wf_gc by (fastforce simp: store_wf_def)
  then show "store_wf (List.map_filter (gc_entry c) ds)"
    using map_filter_gc_entry_sorted [OF sorted] by (simp add: store_wf_def om_wf_def)
  show "store_newest_le (List.map_filter (gc_entry c) ds) m" if "store_newest_le ds m"
    unfolding store_newest_le_def
  proof
    fix e assume "e \<in> set (List.map_filter (gc_entry c) ds)"
    from mem [OF this] obtain vs where vs: "(fst e, vs) \<in> set ds" "snd e = fst (gc_older_versions vs c)"
      by blast
    with assms \<open>store_newest_le ds m\<close> show "versions_newest_le (snd e) m"
      by (fastforce simp: store_wf_def store_newest_le_def intro: vc.newest_le_gc)
  qed
  show "store_fetch (List.map_filter (gc_entry c) ds) k w = store_fetch ds k w" if "c \<le> w"
  proof (cases "map_of ds k")
    case None
    then show ?thesis
      by (simp add: store_fetch_def map_filter_gc_entry_get [OF ssorted_distinct [OF sorted]])
  next
    case (Some vs)
    have eq: "fetch_version (fst (gc_older_versions vs c)) w = fetch_version vs w"
      using vc.fetch_gc store_wf_get [OF assms Some] that by blast
    then have "snd (gc_older_versions vs c) = 0 \<Longrightarrow> fetch_version vs w = None"
      by (simp add: gc_older_versions_length)
    with eq Some show ?thesis
      by (simp add: store_fetch_def map_filter_gc_entry_get [OF ssorted_distinct [OF sorted]]
        gc_entry_def Let_def)
  qed
qed

text \<open>
  Both collectors change the store alone (and empty the dirty queue); \<open>store_frame\<close> states that frame.
\<close>

definition store_frame :: "Inner \<Rightarrow> Inner \<Rightarrow> bool" where
  "store_frame s s' \<longleftrightarrow> s' = s\<lparr>datastore := datastore s', gc_dirty_keys := gc_dirty_keys s'\<rparr>"

lemma gc_dirty_loop_props:
  assumes "store_wf (datastore s)"
  shows "store_frame s (gc_dirty_loop seen keys c s) \<and> gc_dirty_keys (gc_dirty_loop seen keys c s) = []
    \<and> store_wf (datastore (gc_dirty_loop seen keys c s))
    \<and> (\<forall>m. store_newest_le (datastore s) m \<longrightarrow> store_newest_le (datastore (gc_dirty_loop seen keys c s)) m)
    \<and> (\<forall>k w. c \<le> w \<longrightarrow> store_fetch (datastore (gc_dirty_loop seen keys c s)) k w
          = store_fetch (datastore s) k w)"
  using assms
proof (induction seen keys c s rule: gc_dirty_loop.induct)
  case (1 seen c s)
  then show ?case by (simp add: store_frame_def)
next
  case (2 seen key keys c s)
  show ?case
  proof (cases "key \<in> seen")
    case True
    with 2 show ?thesis by simp
  next
    case False
    note gc = gc_key_store_props [OF 2(3), where key = key and c = c]
    from 2(2) [OF False] gc(1) have IH: "store_frame (gc_key key c s) (gc_dirty_loop (insert key seen) keys c (gc_key key c s))"
      "gc_dirty_keys (gc_dirty_loop (insert key seen) keys c (gc_key key c s)) = []"
      "store_wf (datastore (gc_dirty_loop (insert key seen) keys c (gc_key key c s)))"
      "\<And>m. store_newest_le (gc_key_store key c (datastore s)) m \<Longrightarrow>
        store_newest_le (datastore (gc_dirty_loop (insert key seen) keys c (gc_key key c s))) m"
      "\<And>k w. c \<le> w \<Longrightarrow> store_fetch (datastore (gc_dirty_loop (insert key seen) keys c (gc_key key c s))) k w
          = store_fetch (gc_key_store key c (datastore s)) k w"
      by (auto simp: gc_key_def)
    have "store_frame s (gc_dirty_loop (insert key seen) keys c (gc_key key c s))"
      using IH(1) by (simp add: store_frame_def gc_key_def)
    with False IH gc(2,3) show ?thesis by simp
  qed
qed

lemma run_gc_dirty_props:
  assumes "store_wf (datastore s)"
  shows "store_frame s (run_gc_dirty_inner c s)" and "store_wf (datastore (run_gc_dirty_inner c s))"
    and "store_newest_le (datastore s) m \<Longrightarrow> store_newest_le (datastore (run_gc_dirty_inner c s)) m"
    and "c \<le> w \<Longrightarrow> store_fetch (datastore (run_gc_dirty_inner c s)) k w = store_fetch (datastore s) k w"
  using gc_dirty_loop_props [OF assms, of "{}" "gc_dirty_keys s" c]
  by (simp_all add: run_gc_dirty_inner_def)

lemma run_gc_full_props:
  assumes "store_wf (datastore s)"
  shows "store_frame s (run_gc_full c s)" and "store_wf (datastore (run_gc_full c s))"
    and "store_newest_le (datastore s) m \<Longrightarrow> store_newest_le (datastore (run_gc_full c s)) m"
    and "c \<le> w \<Longrightarrow> store_fetch (datastore (run_gc_full c s)) k w = store_fetch (datastore s) k w"
  using map_filter_gc_entry_props [OF assms]
  by (simp_all add: run_gc_full_def store_frame_def)

section \<open>The watermarks\<close>

lemma compute_cleanup_ts_props:
  assumes "counters_inv (counter_by_oracle s) hs" and "compute_cleanup_ts clk s = (c, s')"
  shows "s' = s\<lparr>gc_floor := gc_floor s'\<rparr>" and "gc_floor s \<le> gc_floor s'"
    and "e \<in># hs \<Longrightarrow> c \<le> fst e" and "c \<le> gc_floor s'" and "c \<le> timestamp (ts_oracle s)"
    and "gc_floor s \<le> timestamp (ts_oracle s) \<Longrightarrow> gc_floor s' \<le> timestamp (ts_oracle s)"
    and "\<forall>e\<in>#hs. gc_floor s \<le> fst e \<Longrightarrow> e \<in># hs \<Longrightarrow> gc_floor s' \<le> fst e"
proof -
  let ?now = "current_time_ns (ts_oracle s) clk"
  have le: "earliest_active (counter_by_oracle s) f \<le> fst e" if "e \<in># hs" for e f
    using reg.watermark_le [OF assms(1), of "fst e" "snd e"] that by simp
  let ?p = "min (min ?now (earliest_active (counter_by_oracle s) ?now)) (timestamp (ts_oracle s))"
  from assms(2) have s': "s' = s\<lparr>gc_floor := max (gc_floor s) ?p\<rparr>"
    and c: "c = min ?p (earliest_active (counter_by_oracle s) ?now)"
    by (auto simp: compute_cleanup_ts_def earlist_active_version_def Let_def)
  have p: "?p \<le> fst e" if "e \<in># hs" for e
    using le [OF that] by (simp add: min.coboundedI1 min.coboundedI2)
  show "s' = s\<lparr>gc_floor := gc_floor s'\<rparr>" and "gc_floor s \<le> gc_floor s'" by (simp_all add: s')
  show "c \<le> fst e" if "e \<in># hs" using p [OF that] by (simp add: c min.coboundedI1)
  show "c \<le> gc_floor s'" by (simp add: c s' min.coboundedI1 le_max_iff_disj)
  show "c \<le> timestamp (ts_oracle s)" by (simp add: c min.coboundedI1 min.coboundedI2)
  show "gc_floor s' \<le> timestamp (ts_oracle s)" if "gc_floor s \<le> timestamp (ts_oracle s)"
    using that by (simp add: s' min.coboundedI2)
  show "gc_floor s' \<le> fst e" if "\<forall>e\<in>#hs. gc_floor s \<le> fst e" "e \<in># hs"
    using that p [OF that(2)] by (simp add: s')
qed

lemma run_cleanup_props:
  assumes "counters_inv (counter_by_commit s) hs"
  shows "run_cleanup_inner s = s\<lparr>transaction_commit_queue := transaction_commit_queue (run_cleanup_inner s)\<rparr>"
    and "set (transaction_commit_queue (run_cleanup_inner s)) \<subseteq> set (transaction_commit_queue s)"
    and "om_wf (transaction_commit_queue s) \<Longrightarrow> om_wf (transaction_commit_queue (run_cleanup_inner s))"
    and "e \<in># hs \<Longrightarrow> fst e < i \<Longrightarrow>
      map_of (transaction_commit_queue (run_cleanup_inner s)) i = map_of (transaction_commit_queue s) i"
proof -
  show "run_cleanup_inner s = s\<lparr>transaction_commit_queue := transaction_commit_queue (run_cleanup_inner s)\<rparr>"
    and "set (transaction_commit_queue (run_cleanup_inner s)) \<subseteq> set (transaction_commit_queue s)"
    by (auto simp: run_cleanup_inner_def Let_def)
  show "om_wf (transaction_commit_queue (run_cleanup_inner s))" if "om_wf (transaction_commit_queue s)"
    using that by (simp add: run_cleanup_inner_def Let_def om_wf_filter)
  show "map_of (transaction_commit_queue (run_cleanup_inner s)) i = map_of (transaction_commit_queue s) i"
    if "e \<in># hs" "fst e < i"
  proof -
    have "earliest_active_commit s f \<le> fst e" for f
      using reg.watermark_le [OF assms, of "fst e" "snd e"] that(1)
      by (simp add: earliest_active_commit_def)
    then have "\<not> i < earliest_active_commit s f" for f using that(2) by (meson leD less_trans not_le order_trans)
    then show ?thesis
      by (simp add: run_cleanup_inner_def Let_def
        map_of_filter_key [where P = "\<lambda>x. \<not> x < earliest_active_commit s (transaction_commit_id s)"])
  qed
qed

end
