(* ===== verification/Transaction.thy ===== *)
theory Transaction
  imports Engine
begin

text \<open>
  Transactions (\<open>src/tx/isolation.rs\<close>, \<open>src/tx/transaction_inner.rs\<close>).  A transaction holds its
  snapshot (a version and a commit id, each with its shared counter), its read set and its buffered
  writes.  An operation runs on the transaction and the shared state \<open>Inner\<close> and returns both; each
  operation is one step of the model.  The two retry loops of a commit take the effect other threads
  have between two attempts as an argument.
\<close>

datatype IsolationLevel = SnapshotIsolation | SerializableSnapshotIsolation

text \<open>The derived order: by position of the variant.\<close>

instantiation IsolationLevel :: linorder
begin

definition less_eq_IsolationLevel :: "IsolationLevel \<Rightarrow> IsolationLevel \<Rightarrow> bool" where
  "less_eq_IsolationLevel a b \<longleftrightarrow> a = SnapshotIsolation \<or> b = SerializableSnapshotIsolation"

definition less_IsolationLevel :: "IsolationLevel \<Rightarrow> IsolationLevel \<Rightarrow> bool" where
  "less_IsolationLevel a b \<longleftrightarrow> a = SnapshotIsolation \<and> b = SerializableSnapshotIsolation"

instance
proof
  fix x y z :: IsolationLevel
  show "x < y \<longleftrightarrow> x \<le> y \<and> \<not> y \<le> x" "x \<le> x" "x \<le> y \<or> y \<le> x"
    by (cases x; cases y; simp add: less_eq_IsolationLevel_def less_IsolationLevel_def)+
  show "x \<le> z" if "x \<le> y" "y \<le> z"
    using that by (auto simp: less_eq_IsolationLevel_def)
  show "x = y" if "x \<le> y" "y \<le> x"
    using that by (auto simp: less_eq_IsolationLevel_def)
qed

end

record TransactionInner =
  tx_mode :: IsolationLevel
  tx_done :: bool
  tx_write :: bool
  tx_commit :: u64
  tx_counter_commit :: nat
  tx_version :: u64
  tx_counter_version :: nat
  tx_readset :: "bytes set"
  tx_readeset_bloom :: BloomFilter
  tx_writeset :: writeset
  tx_reset_threshold :: nat

text \<open>
  What a commit takes from outside: the monotonic clock at each attempt, the codec and the outcome
  of file operations, and what other threads do to the shared state between two attempts.
\<close>

record world =
  w_clock :: "nat \<Rightarrow> nat"
  w_codec :: codec
  w_io :: io_env
  w_others :: "nat \<Rightarrow> Inner \<Rightarrow> Inner"

section \<open>Begin and reset\<close>

text \<open>The two registrations, with the loads of an uninterrupted call.\<close>

definition register_version :: "Inner \<Rightarrow> (u64 \<times> nat \<times> Inner) option" where
  "register_version db =
     (let ts = timestamp (ts_oracle db) in
      case register_counter (\<lambda>_. (ts, ts)) (Some (\<lambda>_. gc_floor db)) 0 (counter_by_oracle db) of
        None \<Rightarrow> None
      | Some (v, counter, t) \<Rightarrow> Some (v, counter, db\<lparr>counter_by_oracle := t\<rparr>))"

definition register_commit :: "Inner \<Rightarrow> (u64 \<times> nat \<times> Inner) option" where
  "register_commit db =
     (let cid = transaction_commit_id db in
      case register_counter (\<lambda>_. (cid, cid)) None 0 (counter_by_commit db) of
        None \<Rightarrow> None
      | Some (c, counter, t) \<Rightarrow> Some (c, counter, db\<lparr>counter_by_commit := t\<rparr>))"

definition TransactionInner_new :: "Inner \<Rightarrow> bool \<Rightarrow> (TransactionInner \<times> Inner) option" where
  "TransactionInner_new db write =
     (case register_version db of
        None \<Rightarrow> None
      | Some (ver, counter_version, db1) \<Rightarrow>
          (case register_commit db1 of
             None \<Rightarrow> None
           | Some (commit, counter_commit, db2) \<Rightarrow>
               Some (\<lparr>tx_mode = SnapshotIsolation, tx_done = False, tx_write = write,
                      tx_commit = commit, tx_counter_commit = counter_commit,
                      tx_version = ver, tx_counter_version = counter_version,
                      tx_readset = {}, tx_readeset_bloom = BloomFilter_new, tx_writeset = [],
                      tx_reset_threshold = reset_threshold db2\<rparr>, db2)))"

text \<open>Both branches of the length test leave an empty write set; they differ in the allocation kept.\<close>

definition reset :: "Inner \<Rightarrow> bool \<Rightarrow> TransactionInner \<Rightarrow> (TransactionInner \<times> Inner) option" where
  "reset db write self =
     (let self1 = self\<lparr>tx_mode := SnapshotIsolation, tx_reset_threshold := reset_threshold db\<rparr> in
      case register_version db of
        None \<Rightarrow> None
      | Some (ver, counter_version, db1) \<Rightarrow>
          (case register_commit db1 of
             None \<Rightarrow> None
           | Some (commit, counter_commit, db2) \<Rightarrow>
               let self2 = self1\<lparr>tx_readset := {},
                     tx_readeset_bloom := bloom_clear (tx_readeset_bloom self1)\<rparr>;
                   self3 = (if length (tx_writeset self2) > reset_threshold db2
                            then self2\<lparr>tx_writeset := []\<rparr> else self2\<lparr>tx_writeset := []\<rparr>)
               in Some (self3\<lparr>tx_done := False, tx_write := write, tx_version := ver,
                     tx_counter_version := counter_version, tx_commit := commit,
                     tx_counter_commit := counter_commit\<rparr>, db2)))"

section \<open>Closing without committing\<close>

definition clear_readset :: "TransactionInner \<Rightarrow> TransactionInner" where
  "clear_readset self =
     (if tx_mode self \<ge> SerializableSnapshotIsolation
      then self\<lparr>tx_readset := {}, tx_readeset_bloom := bloom_clear (tx_readeset_bloom self)\<rparr>
      else self)"

definition clear_writeset :: "TransactionInner \<Rightarrow> TransactionInner" where
  "clear_writeset self = self\<lparr>tx_writeset := []\<rparr>"

definition cancel :: "TransactionInner \<Rightarrow> (Error + unit) \<times> TransactionInner" where
  "cancel self =
     (if tx_done self then (Inl TxClosed, self)
      else (Inr (), clear_writeset (clear_readset (self\<lparr>tx_done := True\<rparr>))))"

section \<open>Reads\<close>

text \<open>The scan of pending merges: newest first, up to the snapshot; the first that wrote the key decides.\<close>

definition merge_lookup :: "(u64, Merge) omap \<Rightarrow> bytes \<Rightarrow> u64 \<Rightarrow> bytes option option" where
  "merge_lookup queue key ver =
     (case find (\<lambda>e. map_of (mg_writeset (snd e)) key \<noteq> None) (rev (filter (\<lambda>e. fst e \<le> ver) queue)) of
        None \<Rightarrow> None
      | Some e \<Rightarrow> map_of (mg_writeset (snd e)) key)"

definition exists_in_datastore :: "Inner \<Rightarrow> bytes \<Rightarrow> u64 \<Rightarrow> bool" where
  "exists_in_datastore db key ver =
     (case merge_lookup (transaction_merge_queue db) key ver of
        Some v \<Rightarrow> v \<noteq> None
      | None \<Rightarrow>
          (case map_of (datastore db) key of
             Some versions \<Rightarrow> exists_version versions ver
           | None \<Rightarrow> False))"

definition fetch_in_datastore :: "Inner \<Rightarrow> bytes \<Rightarrow> u64 \<Rightarrow> bytes option" where
  "fetch_in_datastore db key ver =
     (case merge_lookup (transaction_merge_queue db) key ver of
        Some v \<Rightarrow> v
      | None \<Rightarrow>
          (case map_of (datastore db) key of
             Some versions \<Rightarrow> fetch_version versions ver
           | None \<Rightarrow> None))"

definition record_read :: "bytes \<Rightarrow> TransactionInner \<Rightarrow> TransactionInner" where
  "record_read key self =
     (if tx_mode self \<ge> SerializableSnapshotIsolation then
        (if key \<notin> tx_readset self
         then self\<lparr>tx_readset := insert key (tx_readset self),
                   tx_readeset_bloom := bloom_insert (tx_readeset_bloom self) key\<rparr>
         else self)
      else self)"

definition exists :: "Inner \<Rightarrow> bytes \<Rightarrow> TransactionInner \<Rightarrow> (Error + bool) \<times> TransactionInner" where
  "exists db key self =
     (if tx_done self then (Inl TxClosed, self)
      else if tx_write self then
        (case map_of (tx_writeset self) key of
           Some _ \<Rightarrow> (Inr True, self)
         | None \<Rightarrow> (Inr (exists_in_datastore db key (tx_version self)), record_read key self))
      else (Inr (exists_in_datastore db key (tx_version self)), self))"

definition get :: "Inner \<Rightarrow> bytes \<Rightarrow> TransactionInner \<Rightarrow> (Error + bytes option) \<times> TransactionInner" where
  "get db key self =
     (if tx_done self then (Inl TxClosed, self)
      else if tx_write self then
        (case map_of (tx_writeset self) key of
           Some v \<Rightarrow> (Inr v, self)
         | None \<Rightarrow> (Inr (fetch_in_datastore db key (tx_version self)), record_read key self))
      else (Inr (fetch_in_datastore db key (tx_version self)), self))"

section \<open>Writes\<close>

definition set_value :: "bytes \<Rightarrow> bytes \<Rightarrow> TransactionInner \<Rightarrow> (Error + unit) \<times> TransactionInner" where
  "set_value key val self =
     (if tx_done self then (Inl TxClosed, self)
      else if \<not> tx_write self then (Inl TxNotWritable, self)
      else (Inr (), self\<lparr>tx_writeset := om_insert key (Some val) (tx_writeset self)\<rparr>))"

definition put :: "Inner \<Rightarrow> bytes \<Rightarrow> bytes \<Rightarrow> TransactionInner \<Rightarrow> (Error + unit) \<times> TransactionInner" where
  "put db key val self =
     (if tx_done self then (Inl TxClosed, self)
      else if \<not> tx_write self then (Inl TxNotWritable, self)
      else
        (case map_of (tx_writeset self) key of
           Some _ \<Rightarrow> (Inl KeyAlreadyExists, self)
         | None \<Rightarrow>
             if exists_in_datastore db key (tx_version self) then (Inl KeyAlreadyExists, self)
             else (Inr (), self\<lparr>tx_writeset := om_insert key (Some val) (tx_writeset self)\<rparr>)))"

definition del :: "bytes \<Rightarrow> TransactionInner \<Rightarrow> (Error + unit) \<times> TransactionInner" where
  "del key self =
     (if tx_done self then (Inl TxClosed, self)
      else if \<not> tx_write self then (Inl TxNotWritable, self)
      else (Inr (), self\<lparr>tx_writeset := om_insert key None (tx_writeset self)\<rparr>))"

section \<open>Commit\<close>

text \<open>The commit entry: the filter over the keys, the last and the first key.\<close>

definition build_commit :: "u64 \<Rightarrow> writeset \<Rightarrow> Commit" where
  "build_commit qid ws =
     \<lparr>cm_id = qid, cm_writeset = ws,
      cm_writeset_bloom = foldl bloom_insert BloomFilter_new (ws_keys ws),
      cm_max_key = (if ws = [] then [] else last (ws_keys ws)),
      cm_min_key = (if ws = [] then [] else hd (ws_keys ws))\<rparr>"

partial_function (option) auto_commit ::
  "(nat \<Rightarrow> Inner \<Rightarrow> Inner) \<Rightarrow> nat \<Rightarrow> Commit \<Rightarrow> Inner \<Rightarrow> (u64 \<times> Commit \<times> Inner) option" where
  "auto_commit others spins updates db =
     (let ver = transaction_commit_id db + 1;
          (entry, queue) = om_get_or_insert ver updates (transaction_commit_queue db);
          db' = db\<lparr>transaction_commit_queue := queue\<rparr> in
      if cm_id updates = cm_id entry
      then Some (ver, updates, db'\<lparr>transaction_commit_id := transaction_commit_id db' + 1\<rparr>)
      else auto_commit others (spins + 1) updates (others spins db'))"

partial_function (option) atomic_merge ::
  "(nat \<Rightarrow> Inner \<Rightarrow> Inner) \<Rightarrow> (nat \<Rightarrow> nat) \<Rightarrow> nat \<Rightarrow> Merge \<Rightarrow> Inner \<Rightarrow> (u64 \<times> Merge \<times> Inner) option" where
  "atomic_merge others clk spins updates db =
     (let ver = candidate_version (ts_oracle db) (clk spins);
          (entry, queue) = om_get_or_insert ver updates (transaction_merge_queue db);
          db' = db\<lparr>transaction_merge_queue := queue\<rparr> in
      if mg_id updates = mg_id entry
      then Some (ver, updates, db'\<lparr>ts_oracle := fetch_max_timestamp (ts_oracle db') ver\<rparr>)
      else atomic_merge others clk (spins + 1) updates (others spins db'))"

text \<open>The scan of \<open>transaction_commit_queue.range(self.commit + 1 .. version)\<close>: the first conflict found.\<close>

fun conflict_scan :: "IsolationLevel \<Rightarrow> Commit \<Rightarrow> bytes set \<Rightarrow> BloomFilter \<Rightarrow> Commit list \<Rightarrow> Error option" where
  "conflict_scan mode entry readset bloom [] = None"
| "conflict_scan mode entry readset bloom (tx # txs) =
     (if \<not> is_disjoint_writeset_bloom tx entry then Some KeyWriteConflict
      else if mode \<ge> SerializableSnapshotIsolation \<and> \<not> is_disjoint_readset_bloom tx readset bloom
      then Some KeyReadConflict
      else conflict_scan mode entry readset bloom txs)"

definition commit_range :: "u64 \<Rightarrow> u64 \<Rightarrow> (u64, Commit) omap \<Rightarrow> Commit list" where
  "commit_range lo hi queue = map snd (filter (\<lambda>e. lo \<le> fst e \<and> fst e < hi) queue)"

text \<open>
  Installing one write: the chain of the key, fresh with this version if there was none, then the
  push under the chain's lock, and the key goes to the collector's dirty queue.
\<close>

definition ds_write :: "u64 \<Rightarrow> bytes \<times> bytes option \<Rightarrow> datastore \<Rightarrow> datastore" where
  "ds_write ver kv ds =
     (let item = \<lparr>version = ver, value_of = snd kv\<rparr>;
          (versions, ds') = om_get_or_insert (fst kv) (Versions_from item) ds in
      om_insert (fst kv) (push versions item) ds')"

definition store_write :: "u64 \<Rightarrow> bytes \<times> bytes option \<Rightarrow> Inner \<Rightarrow> Inner" where
  "store_write ver kv db =
     db\<lparr>datastore := ds_write ver kv (datastore db), gc_dirty_keys := gc_dirty_keys db @ [fst kv]\<rparr>"

definition remove_merge :: "u64 \<Rightarrow> Inner \<Rightarrow> Inner" where
  "remove_merge ver db = db\<lparr>transaction_merge_queue := om_remove ver (transaction_merge_queue db)\<rparr>"

text \<open>From the merge on: install the writes, append to the log, leave the merge queue.\<close>

definition commit_apply :: "world \<Rightarrow> writeset \<Rightarrow> TransactionInner \<Rightarrow> Inner \<Rightarrow>
    ((Error + unit) \<times> TransactionInner \<times> Inner) option" where
  "commit_apply w ws self db =
     (let merge_id = transaction_merge_id db + 1;
          db = db\<lparr>transaction_merge_id := merge_id\<rparr> in
      case atomic_merge (w_others w) (w_clock w) 0 \<lparr>mg_id = merge_id, mg_writeset = ws\<rparr> db of
        None \<Rightarrow> None
      | Some (ver, entry, db) \<Rightarrow>
          let db = fold (store_write ver) (mg_writeset entry) db;
              closed = clear_writeset (clear_readset self) in
          (case persistence db of
             None \<Rightarrow> Some (Inr (), closed, remove_merge ver db)
           | Some p \<Rightarrow>
               (case append (w_codec w) (w_io w) ver (mg_writeset entry) p of
                  (Inl e, p') \<Rightarrow>
                    Some (Inl (TxCommitNotPersisted e), closed,
                          remove_merge ver (db\<lparr>persistence := Some p'\<rparr>))
                | (Inr _, p') \<Rightarrow>
                    Some (Inr (), closed, remove_merge ver (db\<lparr>persistence := Some p'\<rparr>)))))"

definition commit :: "world \<Rightarrow> TransactionInner \<Rightarrow> Inner \<Rightarrow>
    ((Error + unit) \<times> TransactionInner \<times> Inner) option" where
  "commit w self db =
     (if tx_done self then Some (Inl TxClosed, self, db)
      else
        let self = self\<lparr>tx_done := True\<rparr> in
        if tx_writeset self = [] then Some (Inr (), self, db)
        else
          let ws = tx_writeset self;
              self = self\<lparr>tx_writeset := []\<rparr>;
              queue_id = transaction_queue_id db + 1;
              db = db\<lparr>transaction_queue_id := queue_id\<rparr> in
          (case auto_commit (w_others w) 0 (build_commit queue_id ws) db of
             None \<Rightarrow> None
           | Some (ver, entry, db) \<Rightarrow>
               let conflict =
                     (if tx_mode self \<ge> SnapshotIsolation
                      then conflict_scan (tx_mode self) entry (tx_readset self) (tx_readeset_bloom self)
                             (commit_range (tx_commit self + 1) ver (transaction_commit_queue db))
                      else None) in
               (case conflict of
                  Some e \<Rightarrow>
                    Some (Inl e, clear_writeset (clear_readset self),
                      db\<lparr>transaction_commit_queue := om_remove ver (transaction_commit_queue db)\<rparr>)
                | None \<Rightarrow> commit_apply w ws self db)))"


section \<open>Invariants of a transaction\<close>

definition tx_wf :: "TransactionInner \<Rightarrow> bool" where
  "tx_wf tx \<longleftrightarrow> om_wf (tx_writeset tx) \<and> readset_wf (tx_readset tx) (tx_readeset_bloom tx)
     \<and> (\<not> tx_write tx \<longrightarrow> tx_writeset tx = [])"

lemma SSI_le_iff [simp]: "SerializableSnapshotIsolation \<le> m \<longleftrightarrow> m = SerializableSnapshotIsolation"
  by (cases m) (auto simp: less_eq_IsolationLevel_def)

lemma SI_le [simp]: "SnapshotIsolation \<le> m"
  by (simp add: less_eq_IsolationLevel_def)

lemma tx_wf_record_read: "tx_wf tx \<Longrightarrow> tx_wf (record_read k tx)"
  by (auto simp: tx_wf_def record_read_def intro: wf_intros)

lemma tx_wf_clear: "tx_wf tx \<Longrightarrow> tx_wf (clear_writeset (clear_readset tx))"
  by (auto simp: tx_wf_def clear_writeset_def clear_readset_def bloom_clear_new intro: wf_intros)

lemma tx_wf_reads:
  assumes "tx_wf tx"
  shows "tx_wf (snd (get db k tx))" and "tx_wf (snd (exists db k tx))"
  using assms tx_wf_record_read [OF assms]
  by (auto simp: get_def exists_def split: option.splits)

lemma tx_wf_writes:
  assumes "tx_wf tx"
  shows "tx_wf (snd (set_value k v tx))" and "tx_wf (snd (put db k v tx))" and "tx_wf (snd (del k tx))"
    and "tx_wf (snd (cancel tx))"
proof -
  have "tx_wf (tx\<lparr>tx_done := True\<rparr>)" using assms by (simp add: tx_wf_def)
  with assms show "tx_wf (snd (cancel tx))" by (simp add: cancel_def tx_wf_clear)
qed (use assms in \<open>auto simp: tx_wf_def set_value_def put_def del_def om_wf_insert split: option.splits\<close>)

lemmas tx_wf_ops [wf_intros] = tx_wf_reads tx_wf_writes

text \<open>No operation but begin changes the snapshot a transaction holds.\<close>

definition same_snapshot :: "TransactionInner \<Rightarrow> TransactionInner \<Rightarrow> bool" where
  "same_snapshot tx tx' \<longleftrightarrow> tx_version tx' = tx_version tx \<and> tx_counter_version tx' = tx_counter_version tx
     \<and> tx_commit tx' = tx_commit tx \<and> tx_counter_commit tx' = tx_counter_commit tx
     \<and> tx_write tx' = tx_write tx"

lemma same_snapshot_refl [simp]: "same_snapshot tx tx"
  by (simp add: same_snapshot_def)

lemma same_snapshot_clear [simp]:
  "same_snapshot tx (clear_writeset (clear_readset tx')) \<longleftrightarrow> same_snapshot tx tx'"
  by (simp add: same_snapshot_def clear_writeset_def clear_readset_def)

lemma same_snapshot_ops [simp]:
  "same_snapshot tx (snd (get db k tx))" "same_snapshot tx (snd (exists db k tx))"
  "same_snapshot tx (snd (set_value k v tx))" "same_snapshot tx (snd (put db k v tx))"
  "same_snapshot tx (snd (del k tx))" "same_snapshot tx (snd (cancel tx))"
  by (auto simp: get_def exists_def set_value_def put_def del_def cancel_def record_read_def
      same_snapshot_def clear_writeset_def clear_readset_def split: option.splits)

section \<open>Registering a snapshot\<close>

lemma register_version_ok:
  assumes "counters_inv (counter_by_oracle db) hs" and "Suc (size hs) < 2 ^ 64 - 1"
    and "gc_floor db \<le> timestamp (ts_oracle db)"
  shows "\<exists>c t. register_version db = Some (timestamp (ts_oracle db), c, db\<lparr>counter_by_oracle := t\<rparr>)
    \<and> counters_inv t (add_mset (timestamp (ts_oracle db), c) hs)"
  using register_counter_round [OF assms(1,2), where i = 0
      and loads = "\<lambda>_. (timestamp (ts_oracle db), timestamp (ts_oracle db))" and gc_floor = "Some (\<lambda>_. gc_floor db)"]
    assms(3) by (auto simp: register_version_def)

lemma register_commit_ok:
  assumes "counters_inv (counter_by_commit db) hs" and "Suc (size hs) < 2 ^ 64 - 1"
  shows "\<exists>c t. register_commit db = Some (transaction_commit_id db, c, db\<lparr>counter_by_commit := t\<rparr>)
    \<and> counters_inv t (add_mset (transaction_commit_id db, c) hs)"
  using reg.register_ok [OF assms, of "transaction_commit_id db"] by (auto simp: register_commit_def)

text \<open>
  A new transaction and a recycled one are the same state: \<open>reset\<close> leaves nothing of the previous use.
\<close>

lemma reset_eq_new: "reset db write tx = TransactionInner_new db write"
proof -
  have "reset_threshold db1 = reset_threshold db" if "register_version db = Some (v, c, db1)" for v c db1
    using that by (auto simp: register_version_def Let_def split: option.splits)
  moreover have "reset_threshold db2 = reset_threshold db1" if "register_commit db1 = Some (v, c, db2)" for v c db1 db2
    using that by (auto simp: register_commit_def Let_def split: option.splits)
  ultimately show ?thesis
    by (auto simp: reset_def TransactionInner_new_def Let_def bloom_clear_new split: option.splits)
qed

lemma TransactionInner_new_ok:
  assumes "counters_inv (counter_by_oracle db) hv" and "counters_inv (counter_by_commit db) hc"
    and "Suc (size hv) < 2 ^ 64 - 1" and "Suc (size hc) < 2 ^ 64 - 1"
    and "gc_floor db \<le> timestamp (ts_oracle db)"
  obtains tx tv tc where
    "TransactionInner_new db write = Some (tx, db\<lparr>counter_by_oracle := tv, counter_by_commit := tc\<rparr>)"
    "counters_inv tv (add_mset (tx_version tx, tx_counter_version tx) hv)"
    "counters_inv tc (add_mset (tx_commit tx, tx_counter_commit tx) hc)"
    "tx_version tx = timestamp (ts_oracle db)" "tx_commit tx = transaction_commit_id db"
    "tx_mode tx = SnapshotIsolation" "\<not> tx_done tx" "tx_write tx = write"
    "tx_readset tx = {}" "tx_writeset tx = []" "tx_wf tx"
proof -
  from register_version_ok [OF assms(1,3,5)] obtain c tv where
    v: "register_version db = Some (timestamp (ts_oracle db), c, db\<lparr>counter_by_oracle := tv\<rparr>)"
    "counters_inv tv (add_mset (timestamp (ts_oracle db), c) hv)" by blast
  from register_commit_ok [of "db\<lparr>counter_by_oracle := tv\<rparr>" hc] assms(2,4) obtain c' tc where
    c: "register_commit (db\<lparr>counter_by_oracle := tv\<rparr>) =
      Some (transaction_commit_id db, c', db\<lparr>counter_by_oracle := tv, counter_by_commit := tc\<rparr>)"
    "counters_inv tc (add_mset (transaction_commit_id db, c') hc)" by auto
  define tx where "tx = \<lparr>tx_mode = SnapshotIsolation, tx_done = False, tx_write = write,
    tx_commit = transaction_commit_id db, tx_counter_commit = c', tx_version = timestamp (ts_oracle db),
    tx_counter_version = c, tx_readset = {}, tx_readeset_bloom = BloomFilter_new, tx_writeset = [],
    tx_reset_threshold = reset_threshold db\<rparr>"
  from v c have "TransactionInner_new db write = Some (tx, db\<lparr>counter_by_oracle := tv, counter_by_commit := tc\<rparr>)"
    by (simp add: TransactionInner_new_def tx_def)
  then show ?thesis
    by (rule that) (use v c in \<open>simp_all add: tx_def tx_wf_def readset_wf_empty\<close>)
qed

section \<open>Conflict detection\<close>

definition changed_since :: "(u64, Commit) omap \<Rightarrow> u64 \<Rightarrow> bytes set" where
  "changed_since queue c = (\<Union>e\<in>{e \<in> set queue. c < fst e}. written (snd e))"

definition queue_wf :: "(u64, Commit) omap \<Rightarrow> u64 \<Rightarrow> bool" where
  "queue_wf queue newest \<longleftrightarrow> om_wf queue \<and> (\<forall>e\<in>set queue. fst e \<le> newest \<and> commit_wf (snd e))"

lemma changed_since_meets:
  "A \<inter> changed_since queue c \<noteq> {} \<longleftrightarrow> (\<exists>j x. (j, x) \<in> set queue \<and> c < j \<and> A \<inter> written x \<noteq> {})"
proof -
  have "A \<inter> (\<Union>e\<in>S. f e) \<noteq> {} \<longleftrightarrow> (\<exists>e\<in>S. A \<inter> f e \<noteq> {})" for S :: "(u64 \<times> Commit) set" and f by blast
  then have "A \<inter> changed_since queue c \<noteq> {}
      \<longleftrightarrow> (\<exists>e\<in>{e \<in> set queue. c < fst e}. A \<inter> written (snd e) \<noteq> {})"
    unfolding changed_since_def .
  then show ?thesis by auto
qed

lemma build_commit_wf: "om_wf ws \<Longrightarrow> ws \<noteq> [] \<Longrightarrow> commit_wf (build_commit qid ws)"
  by (simp add: commit_wf_def build_commit_def)

lemma written_build_commit [simp]: "written (build_commit qid ws) = fst ` set ws"
  by (simp add: build_commit_def)

lemma conflict_scan_cases:
  assumes "commit_wf entry" "readset_wf rs bloom" "\<forall>c\<in>set cs. commit_wf c"
  shows "case conflict_scan mode entry rs bloom cs of
      None \<Rightarrow> written entry \<inter> (\<Union>c\<in>set cs. written c) = {}
        \<and> (mode = SerializableSnapshotIsolation \<longrightarrow> rs \<inter> (\<Union>c\<in>set cs. written c) = {})
    | Some e \<Rightarrow> e = KeyWriteConflict \<and> written entry \<inter> (\<Union>c\<in>set cs. written c) \<noteq> {}
        \<or> e = KeyReadConflict \<and> mode = SerializableSnapshotIsolation \<and> rs \<inter> (\<Union>c\<in>set cs. written c) \<noteq> {}"
  using assms(3)
proof (induction cs)
  case Nil
  then show ?case by simp
next
  case (Cons c cs)
  from Cons.prems have c: "commit_wf c" by simp
  note iff = writeset_bloom_iff [OF c assms(1)] readset_bloom_iff [OF c assms(2)]
  define U where U_eq: "U = (\<Union>c\<in>set cs. written c)"
  define W where W_eq: "W = written c"
  define E where E_eq: "E = written entry"
  have U: "(\<Union>c\<in>set (c # cs). written c) = W \<union> U" by (simp add: U_eq W_eq)
  from Cons have "case conflict_scan mode entry rs bloom cs of
      None \<Rightarrow> E \<inter> U = {} \<and> (mode = SerializableSnapshotIsolation \<longrightarrow> rs \<inter> U = {})
    | Some e \<Rightarrow> e = KeyWriteConflict \<and> E \<inter> U \<noteq> {}
        \<or> e = KeyReadConflict \<and> mode = SerializableSnapshotIsolation \<and> rs \<inter> U \<noteq> {}"
    unfolding U_eq E_eq by simp
  then show ?case
    unfolding U conflict_scan.simps iff SSI_le_iff W_eq [symmetric] E_eq [symmetric]
    by (cases "conflict_scan mode entry rs bloom cs")
      (simp_all add: Int_Un_distrib Int_commute [of W] split: if_splits, argo+)
qed

lemma commit_range_written:
  assumes "queue_wf queue newest" and "c \<le> newest" and "newest < u64_MAX"
  shows "(\<Union>x\<in>set (commit_range (c + 1) (newest + 1) queue). written x) = changed_since queue c"
proof -
  have "i < newest + 1 \<longleftrightarrow> i \<le> newest" for i using assms(3) by (simp add: u64_less_Suc_iff)
  moreover have "c + 1 \<le> i \<longleftrightarrow> c < i" for i
    using assms(2,3) u64_Suc_le_iff [of c i] by (meson le_less_trans)
  ultimately have "set (commit_range (c + 1) (newest + 1) queue) = snd ` {e \<in> set queue. c < fst e}"
    using assms(1) by (auto simp: commit_range_def queue_wf_def)
  then show ?thesis by (simp add: changed_since_def)
qed


section \<open>Installing a write set\<close>

lemma fold_store_write:
  "fold (store_write ver) ws db =
     db\<lparr>datastore := fold (ds_write ver) ws (datastore db), gc_dirty_keys := gc_dirty_keys db @ map fst ws\<rparr>"
  by (induction ws arbitrary: db) (simp_all add: store_write_def)

lemma fetch_version_from:
  "fetch_version (Versions_from x) w = (if version x \<le> w then value_of x else None)"
proof -
  have "versions_wf (Versions_from x)" by (simp add: versions_wf_def Versions_from_def)
  then show ?thesis by (simp add: fetch_version_value_at value_at_def Versions_from_def)
qed

lemma ds_write_chain:
  assumes "store_wf ds" and "store_newest_le ds ver"
  shows "\<exists>vs ds'. ds_write ver kv ds = om_insert (fst kv) (push vs \<lparr>version = ver, value_of = snd kv\<rparr>) ds'
    \<and> store_wf ds' \<and> store_newest_le ds' ver \<and> versions_wf vs \<and> versions_newest_le vs ver
    \<and> (\<forall>k w. w < ver \<or> k \<noteq> fst kv \<longrightarrow> store_fetch ds' k w = store_fetch ds k w)
    \<and> (\<forall>w. w < ver \<longrightarrow> fetch_version vs w = store_fetch ds (fst kv) w)"
proof (cases "map_of ds (fst kv)")
  case (Some vs)
  with assms show ?thesis
    by (intro exI [of _ vs] exI [of _ ds])
      (auto simp: ds_write_def om_get_or_insert_def Let_def store_fetch_def intro: store_wf_get store_newest_get)
next
  case None
  let ?x = "\<lparr>version = ver, value_of = snd kv\<rparr>"
  let ?ds = "om_insert (fst kv) (Versions_from ?x) ds"
  have wf: "versions_wf (Versions_from ?x)" and le: "versions_newest_le (Versions_from ?x) ver"
    by (simp_all add: versions_wf_def versions_newest_le_def Versions_from_def)
  have "store_fetch ds (fst kv) w = None" for w using None by (simp add: store_fetch_def)
  with None assms wf le show ?thesis
    by (intro exI [of _ "Versions_from ?x"] exI [of _ ?ds])
      (auto simp: ds_write_def om_get_or_insert_def Let_def store_fetch_insert fetch_version_from
        store_wf_insert store_newest_insert)
qed

lemma ds_write_props:
  assumes "store_wf ds" and "store_newest_le ds ver"
  shows "store_wf (ds_write ver kv ds)" and "store_newest_le (ds_write ver kv ds) ver"
    and "store_fetch (ds_write ver kv ds) k w
      = (if ver \<le> w \<and> k = fst kv then snd kv else store_fetch ds k w)"
proof -
  let ?x = "\<lparr>version = ver, value_of = snd kv\<rparr>"
  from ds_write_chain [OF assms, of kv] obtain vs ds' where eq: "ds_write ver kv ds = om_insert (fst kv) (push vs ?x) ds'"
    and ds': "store_wf ds'" "store_newest_le ds' ver" and vs: "versions_wf vs" "versions_newest_le vs ver"
    and frame: "\<And>k w. w < ver \<or> k \<noteq> fst kv \<Longrightarrow> store_fetch ds' k w = store_fetch ds k w"
    and old: "\<And>w. w < ver \<Longrightarrow> fetch_version vs w = store_fetch ds (fst kv) w" by auto
  show "store_wf (ds_write ver kv ds)" unfolding eq using ds' vs by (simp add: store_wf_insert vc.wf_add)
  show "store_newest_le (ds_write ver kv ds) ver"
    unfolding eq using ds' vs by (simp add: store_newest_insert vc.newest_le_add)
  have "fetch_version (push vs ?x) w = (if ver \<le> w then snd kv else store_fetch ds (fst kv) w)"
    using vc.fetch_add_below [OF vs(1), of w ?x] vc.fetch_add_newest [OF vs(1), of ?x w] vs(2) old
    by (auto simp: not_le)
  with frame show "store_fetch (ds_write ver kv ds) k w
      = (if ver \<le> w \<and> k = fst kv then snd kv else store_fetch ds k w)"
    unfolding eq by (auto simp: store_fetch_insert)
qed

lemma fold_ds_write_props:
  assumes "store_wf ds" and "store_newest_le ds ver" and "distinct (map fst ws)"
  shows "store_wf (fold (ds_write ver) ws ds)" and "store_newest_le (fold (ds_write ver) ws ds) ver"
    and "store_fetch (fold (ds_write ver) ws ds) k w
      = (case map_of ws k of Some v \<Rightarrow> if ver \<le> w then v else store_fetch ds k w
         | None \<Rightarrow> store_fetch ds k w)"
proof -
  show "store_wf (fold (ds_write ver) ws ds)" and "store_newest_le (fold (ds_write ver) ws ds) ver"
    using assms(1,2) by (induction ws arbitrary: ds) (simp_all add: ds_write_props)
  show "store_fetch (fold (ds_write ver) ws ds) k w
      = (case map_of ws k of Some v \<Rightarrow> if ver \<le> w then v else store_fetch ds k w
         | None \<Rightarrow> store_fetch ds k w)"
    using assms
  proof (induction ws arbitrary: ds)
    case Nil
    then show ?case by simp
  next
    case (Cons kv ws)
    have "map_of ws (fst kv) = None" using Cons.prems by (auto simp: map_of_eq_None_iff)
    with Cons show ?case
      by (cases kv) (auto simp: ds_write_props split: option.splits)
  qed
qed

section \<open>What a commit does\<close>

text \<open>Between two operations no merge is pending and no stored version is newer than the oracle.\<close>

definition inner_wf :: "Inner \<Rightarrow> bool" where
  "inner_wf db \<longleftrightarrow> transaction_merge_queue db = []
     \<and> queue_wf (transaction_commit_queue db) (transaction_commit_id db)
     \<and> store_wf (datastore db) \<and> store_newest_le (datastore db) (timestamp (ts_oracle db))"

lemma auto_commit_free:
  assumes "map_of (transaction_commit_queue db) (transaction_commit_id db + 1) = None"
  shows "auto_commit others spins c db = Some (transaction_commit_id db + 1, c,
    db\<lparr>transaction_commit_queue := om_insert (transaction_commit_id db + 1) c (transaction_commit_queue db),
       transaction_commit_id := transaction_commit_id db + 1\<rparr>)"
  using assms by (subst auto_commit.simps) (simp add: om_get_or_insert_def Let_def)

lemma atomic_merge_free:
  assumes "map_of (transaction_merge_queue db) (candidate_version (ts_oracle db) (clk spins)) = None"
  shows "atomic_merge others clk spins m db =
    (let ver = candidate_version (ts_oracle db) (clk spins) in
     Some (ver, m, db\<lparr>transaction_merge_queue := om_insert ver m (transaction_merge_queue db),
       ts_oracle := fetch_max_timestamp (ts_oracle db) ver\<rparr>))"
  using assms by (subst atomic_merge.simps) (simp add: om_get_or_insert_def Let_def)

lemma om_remove_insert_fresh: "om_wf m \<Longrightarrow> map_of m k = None \<Longrightarrow> om_remove k (om_insert k v m) = m"
  by (induction m) (auto simp: om_remove_def om_wf_def filter_id_conv)

lemma queue_next_free:
  assumes "queue_wf queue newest" and "newest < u64_MAX"
  shows "map_of queue (newest + 1) = None"
proof (rule ccontr)
  assume "map_of queue (newest + 1) \<noteq> None"
  then obtain c where "(newest + 1, c) \<in> set queue" by (auto dest: map_of_SomeD)
  with assms(1) have "newest + 1 \<le> newest" by (auto simp: queue_wf_def)
  with u64_less_Suc [OF assms(2)] show False by simp
qed

text \<open>The conflict a commit would report, over the entries published since the snapshot.\<close>

definition commit_conflict :: "TransactionInner \<Rightarrow> Inner \<Rightarrow> Error option" where
  "commit_conflict tx db =
     conflict_scan (tx_mode tx) (build_commit (transaction_queue_id db + 1) (tx_writeset tx))
       (tx_readset tx) (tx_readeset_bloom tx)
       (commit_range (tx_commit tx + 1) (transaction_commit_id db + 1) (transaction_commit_queue db))"

lemma commit_range_insert:
  "commit_range lo hi (om_insert hi c queue) = commit_range lo hi queue"
proof -
  have "filter (\<lambda>e. lo \<le> fst e \<and> fst e < hi) (om_insert hi c queue)
      = filter (\<lambda>e. lo \<le> fst e \<and> fst e < hi) queue"
  proof (induction queue)
    case (Cons e queue)
    then show ?case by (cases "fst e" hi rule: linorder_cases) simp_all
  qed simp
  then show ?thesis by (simp add: commit_range_def)
qed

lemma clear_done [simp]: "tx_done (clear_writeset tx) = tx_done tx" "tx_done (clear_readset tx) = tx_done tx"
  by (simp_all add: clear_writeset_def clear_readset_def)

lemma commit_done: "commit w tx db = Some (r, tx', db') \<Longrightarrow> tx_done tx'"
  by (auto simp: commit_def commit_apply_def Let_def split: if_splits option.splits prod.splits sum.splits)

lemma commit_range_empty [simp]: "commit_range v v queue = []"
  by (auto simp: commit_range_def filter_empty_conv)

lemma commit_closed: "tx_done tx \<Longrightarrow> commit w tx db = Some (Inl TxClosed, tx, db)"
  by (simp add: commit_def)

lemma commit_empty:
  "\<not> tx_done tx \<Longrightarrow> tx_writeset tx = [] \<Longrightarrow> commit w tx db = Some (Inr (), tx\<lparr>tx_done := True\<rparr>, db)"
  by (simp add: commit_def)

abbreviation closed_tx :: "TransactionInner \<Rightarrow> TransactionInner" where
  "closed_tx tx \<equiv> clear_writeset (clear_readset (tx\<lparr>tx_done := True, tx_writeset := []\<rparr>))"

lemma commit_conflicting:
  assumes "inner_wf db" "transaction_commit_id db < u64_MAX" "\<not> tx_done tx" "tx_writeset tx \<noteq> []"
    and "commit_conflict tx db = Some e"
  shows "commit w tx db = Some (Inl e, closed_tx tx,
    db\<lparr>transaction_queue_id := transaction_queue_id db + 1,
       transaction_commit_id := transaction_commit_id db + 1\<rparr>)"
proof -
  have q: "queue_wf (transaction_commit_queue db) (transaction_commit_id db)"
    using assms(1) by (simp add: inner_wf_def)
  then have wf: "om_wf (transaction_commit_queue db)" by (simp add: queue_wf_def)
  note free = queue_next_free [OF q assms(2)]
  show ?thesis
    using assms(3-5) free
    by (simp add: commit_def auto_commit_free Let_def commit_range_insert commit_conflict_def
      om_remove_insert_fresh [OF wf])
qed

text \<open>A commit that passes validation: the state it leaves, for the version it got.\<close>

definition committed_state :: "u64 \<Rightarrow> TransactionInner \<Rightarrow> Inner \<Rightarrow> Persistence option \<Rightarrow> Inner" where
  "committed_state ver tx db p =
     db\<lparr>transaction_queue_id := transaction_queue_id db + 1,
        transaction_commit_id := transaction_commit_id db + 1,
        transaction_commit_queue := om_insert (transaction_commit_id db + 1)
          (build_commit (transaction_queue_id db + 1) (tx_writeset tx)) (transaction_commit_queue db),
        transaction_merge_id := transaction_merge_id db + 1,
        ts_oracle := fetch_max_timestamp (ts_oracle db) ver,
        datastore := fold (ds_write ver) (tx_writeset tx) (datastore db),
        gc_dirty_keys := gc_dirty_keys db @ ws_keys (tx_writeset tx),
        persistence := p\<rparr>"

definition append_outcome :: "world \<Rightarrow> u64 \<Rightarrow> writeset \<Rightarrow> Inner \<Rightarrow> (Error + unit) \<times> Persistence option" where
  "append_outcome w ver ws db =
     (case persistence db of
        None \<Rightarrow> (Inr (), None)
      | Some p \<Rightarrow>
          (case append (w_codec w) (w_io w) ver ws p of
             (Inl e, p') \<Rightarrow> (Inl (TxCommitNotPersisted e), Some p')
           | (Inr _, p') \<Rightarrow> (Inr (), Some p')))"

lemma commit_passing:
  fixes w :: world
  assumes "inner_wf db" "transaction_commit_id db < u64_MAX" "\<not> tx_done tx" "tx_writeset tx \<noteq> []"
    and "commit_conflict tx db = None"
  defines "ver \<equiv> candidate_version (ts_oracle db) (w_clock w 0)"
  shows "commit w tx db = Some (fst (append_outcome w ver (tx_writeset tx) db), closed_tx tx,
    committed_state ver tx db (snd (append_outcome w ver (tx_writeset tx) db)))"
proof -
  have q: "queue_wf (transaction_commit_queue db) (transaction_commit_id db)" and m: "transaction_merge_queue db = []"
    using assms(1) by (simp_all add: inner_wf_def)
  then have wf: "om_wf (transaction_commit_queue db)" by (simp add: queue_wf_def)
  note free = queue_next_free [OF q assms(2)]
  have rm: "om_remove v [(v, x)] = []" for v and x :: Merge by (simp add: om_remove_def)
  have *: "commit w tx db = commit_apply w (tx_writeset tx) (tx\<lparr>tx_done := True, tx_writeset := []\<rparr>)
      (db\<lparr>transaction_queue_id := transaction_queue_id db + 1,
        transaction_commit_queue := om_insert (transaction_commit_id db + 1)
          (build_commit (transaction_queue_id db + 1) (tx_writeset tx)) (transaction_commit_queue db),
        transaction_commit_id := transaction_commit_id db + 1\<rparr>)"
    using assms(3-5) free
    by (simp add: commit_def auto_commit_free Let_def commit_range_insert commit_conflict_def)
  show ?thesis
    unfolding * commit_apply_def using m
    by (cases db) (auto simp: Let_def atomic_merge_free fold_store_write remove_merge_def ver_def rm
        append_outcome_def committed_state_def split: option.splits prod.splits sum.splits)
qed


lemma committed_state_fields [simp]:
  "counter_by_oracle (committed_state ver tx db p) = counter_by_oracle db"
  "counter_by_commit (committed_state ver tx db p) = counter_by_commit db"
  "gc_floor (committed_state ver tx db p) = gc_floor db"
  "transaction_commit_id (committed_state ver tx db p) = transaction_commit_id db + 1"
  "timestamp (ts_oracle (committed_state ver tx db p)) = max (timestamp (ts_oracle db)) ver"
  by (simp_all add: committed_state_def)

lemma changed_since_insert:
  assumes "queue_wf queue newest" "newest < u64_MAX" "c \<le> newest"
  shows "changed_since (om_insert (newest + 1) entry queue) c = changed_since queue c \<union> written entry"
proof -
  from assms(1) have wf: "om_wf queue" by (simp add: queue_wf_def)
  have "c < newest + 1" using assms(2,3) by (simp add: u64_less_Suc_iff)
  moreover have "fst e \<noteq> newest + 1" if "e \<in> set queue" for e
    using assms(1) that u64_less_Suc [OF assms(2)] by (auto simp: queue_wf_def)
  ultimately have "{e \<in> set (om_insert (newest + 1) entry queue). c < fst e}
      = insert (newest + 1, entry) {e \<in> set queue. c < fst e}"
    by (auto simp: set_om_insert [OF wf])
  then show ?thesis by (simp add: changed_since_def Un_commute)
qed

lemma committed_state_props:
  assumes "inner_wf db" "tx_wf tx" "tx_writeset tx \<noteq> []" "transaction_commit_id db < u64_MAX"
    and "timestamp (ts_oracle db) < ver"
  shows "inner_wf (committed_state ver tx db p)"
    and "u < ver \<Longrightarrow> store_fetch (datastore (committed_state ver tx db p)) k u = store_fetch (datastore db) k u"
    and "store_fetch (datastore (committed_state ver tx db p)) k ver
      = (case map_of (tx_writeset tx) k of Some v \<Rightarrow> v
         | None \<Rightarrow> store_fetch (datastore db) k (timestamp (ts_oracle db)))"
    and "c \<le> transaction_commit_id db \<Longrightarrow>
      changed_since (transaction_commit_queue (committed_state ver tx db p)) c
        = changed_since (transaction_commit_queue db) c \<union> fst ` set (tx_writeset tx)"
proof -
  let ?ds = "fold (ds_write ver) (tx_writeset tx) (datastore db)"
  have wf: "store_wf (datastore db)" "store_newest_le (datastore db) (timestamp (ts_oracle db))"
    and q: "queue_wf (transaction_commit_queue db) (transaction_commit_id db)"
    and mq: "transaction_merge_queue db = []" using assms(1) by (simp_all add: inner_wf_def)
  have le: "store_newest_le (datastore db) ver"
    using wf(2) assms(5) by (fastforce simp: store_newest_le_def intro: vc.newest_le_mono)
  have dist: "distinct (ws_keys (tx_writeset tx))" using assms(2) by (simp add: tx_wf_def om_wf_distinct)
  note w = fold_ds_write_props [OF wf(1) le dist]
  have ds: "datastore (committed_state ver tx db p) = ?ds" by (simp add: committed_state_def)
  have mx: "max (timestamp (ts_oracle db)) ver = ver" using assms(5) by (simp add: max_absorb2 less_imp_le)
  have cw: "commit_wf (build_commit (transaction_queue_id db + 1) (tx_writeset tx))"
    using assms(2,3) by (simp add: build_commit_wf tx_wf_def)
  from q have qwf: "om_wf (transaction_commit_queue db)" by (simp add: queue_wf_def)
  have "queue_wf (om_insert (transaction_commit_id db + 1)
      (build_commit (transaction_queue_id db + 1) (tx_writeset tx)) (transaction_commit_queue db))
      (transaction_commit_id db + 1)"
    using q cw u64_less_Suc [OF assms(4)]
    by (fastforce simp: queue_wf_def set_om_insert [OF qwf] om_wf_insert)
  then show "inner_wf (committed_state ver tx db p)"
    using w(1,2) mq by (simp add: inner_wf_def committed_state_def mx)
  show "store_fetch (datastore (committed_state ver tx db p)) k u = store_fetch (datastore db) k u" if "u < ver"
  proof -
    from that have "\<not> ver \<le> u" by (simp add: not_le)
    then show ?thesis by (simp add: ds w(3) split: option.splits)
  qed
  have "store_fetch (datastore db) k ver = store_fetch (datastore db) k (timestamp (ts_oracle db))"
    by (rule store_fetch_beyond [OF wf less_imp_le [OF assms(5)]])
  then show "store_fetch (datastore (committed_state ver tx db p)) k ver
      = (case map_of (tx_writeset tx) k of Some v \<Rightarrow> v
         | None \<Rightarrow> store_fetch (datastore db) k (timestamp (ts_oracle db)))"
    by (simp add: ds w(3) split: option.splits)
  show "changed_since (transaction_commit_queue (committed_state ver tx db p)) c
        = changed_since (transaction_commit_queue db) c \<union> fst ` set (tx_writeset tx)"
    if "c \<le> transaction_commit_id db"
    using changed_since_insert [OF q assms(4) that] by (simp add: committed_state_def)
qed

text \<open>The conflict reported is the one the published write sets give.\<close>

lemma commit_conflict_cases:
  assumes "inner_wf db" "tx_wf tx" "tx_writeset tx \<noteq> []" "transaction_commit_id db < u64_MAX"
    and "tx_commit tx \<le> transaction_commit_id db"
  defines "ch \<equiv> changed_since (transaction_commit_queue db) (tx_commit tx)"
  shows "case commit_conflict tx db of
      None \<Rightarrow> fst ` set (tx_writeset tx) \<inter> ch = {}
        \<and> (tx_mode tx = SerializableSnapshotIsolation \<longrightarrow> tx_readset tx \<inter> ch = {})
    | Some e \<Rightarrow> e = KeyWriteConflict \<and> fst ` set (tx_writeset tx) \<inter> ch \<noteq> {}
        \<or> e = KeyReadConflict \<and> tx_mode tx = SerializableSnapshotIsolation \<and> tx_readset tx \<inter> ch \<noteq> {}"
proof -
  have q: "queue_wf (transaction_commit_queue db) (transaction_commit_id db)"
    using assms(1) by (simp add: inner_wf_def)
  let ?cs = "commit_range (tx_commit tx + 1) (transaction_commit_id db + 1) (transaction_commit_queue db)"
  have U: "(\<Union>c\<in>set ?cs. written c) = ch"
    unfolding ch_def by (rule commit_range_written [OF q assms(5,4)])
  have "\<forall>c\<in>set ?cs. commit_wf c" using q by (auto simp: queue_wf_def commit_range_def)
  moreover have "commit_wf (build_commit (transaction_queue_id db + 1) (tx_writeset tx))"
    "readset_wf (tx_readset tx) (tx_readeset_bloom tx)"
    using assms(2,3) by (simp_all add: build_commit_wf tx_wf_def)
  ultimately show ?thesis
    using conflict_scan_cases [of "build_commit (transaction_queue_id db + 1) (tx_writeset tx)"
      "tx_readset tx" "tx_readeset_bloom tx" ?cs "tx_mode tx", unfolded U written_build_commit]
    by (simp add: commit_conflict_def)
qed

end
