(* ===== verification/Database.thy ===== *)
theory Database
  imports Transaction Options
begin

text \<open>
  The database handle (\<open>src/db/db.rs\<close>), the pool of recycled transactions (\<open>src/pool/pool.rs\<close>) and
  the public transaction handle with its \<open>Drop\<close> (\<open>src/tx/transaction.rs\<close>).  A \<open>Transaction\<close> holds its
  \<open>TransactionInner\<close> until it is dropped, so its methods are those of theory \<open>Transaction\<close> on that
  value.  \<open>Database.persistence\<close> and \<open>Inner.persistence\<close> are clones sharing one state, which the model
  keeps once, in \<open>Inner\<close>.  Each background thread is given by one round of its loop.
\<close>

record Database =
  db_inner :: Inner
  db_pool :: "TransactionInner list"
  db_pool_size :: nat
  db_cleanup_interval :: nat
  db_gc_interval :: nat
  db_gc_full_scan_frequency :: u64
  db_gc_cycle :: u64

section \<open>The transaction pool\<close>

text \<open>\<open>ArrayQueue\<close>: a bounded queue whose push fails when it is full; the failure is ignored.\<close>

definition Pool_put :: "Database \<Rightarrow> TransactionInner \<Rightarrow> Database" where
  "Pool_put db tx =
     (if length (db_pool db) < db_pool_size db then db\<lparr>db_pool := db_pool db @ [tx]\<rparr> else db)"

definition Pool_get :: "Database \<Rightarrow> bool \<Rightarrow> (TransactionInner \<times> Database) option" where
  "Pool_get db write =
     (case db_pool db of
        tx # rest \<Rightarrow>
          (case reset (db_inner db) write tx of
             None \<Rightarrow> None
           | Some (tx', inner) \<Rightarrow> Some (tx', db\<lparr>db_pool := rest, db_inner := inner\<rparr>))
      | [] \<Rightarrow>
          (case TransactionInner_new (db_inner db) write of
             None \<Rightarrow> None
           | Some (tx', inner) \<Rightarrow> Some (tx', db\<lparr>db_inner := inner\<rparr>)))"

section \<open>The transaction handle\<close>

definition with_snapshot_isolation :: "TransactionInner \<Rightarrow> TransactionInner" where
  "with_snapshot_isolation self = self\<lparr>tx_mode := SnapshotIsolation\<rparr>"

definition with_serializable_snapshot_isolation :: "TransactionInner \<Rightarrow> TransactionInner" where
  "with_serializable_snapshot_isolation self = self\<lparr>tx_mode := SerializableSnapshotIsolation\<rparr>"

definition Transaction_drop :: "TransactionInner \<Rightarrow> Database \<Rightarrow> Database option" where
  "Transaction_drop tx db =
     (case drop_counter (counter_by_commit (db_inner db)) (tx_commit tx) (tx_counter_commit tx) of
        None \<Rightarrow> None
      | Some tc \<Rightarrow>
          (case drop_counter (counter_by_oracle (db_inner db)) (tx_version tx) (tx_counter_version tx) of
             None \<Rightarrow> None
           | Some tv \<Rightarrow>
               Some (Pool_put (db\<lparr>db_inner := (db_inner db)\<lparr>counter_by_commit := tc,
                 counter_by_oracle := tv\<rparr>\<rparr>) tx)))"

section \<open>Manual operations\<close>

definition transaction :: "Database \<Rightarrow> bool \<Rightarrow> (TransactionInner \<times> Database) option" where
  "transaction db write = Pool_get db write"

definition run_cleanup :: "Database \<Rightarrow> Database" where
  "run_cleanup db = db\<lparr>db_inner := run_cleanup_inner (db_inner db)\<rparr>"

definition run_gc :: "nat \<Rightarrow> Database \<Rightarrow> Database" where
  "run_gc clk db =
     (case compute_cleanup_ts clk (db_inner db) of
        (cleanup_ts, inner) \<Rightarrow>
          db\<lparr>db_inner := run_gc_full cleanup_ts (run_gc_dirty_inner cleanup_ts inner)\<rparr>)"

definition db_snapshot :: "world \<Rightarrow> Database \<Rightarrow> (PersistenceError + unit) \<times> Database" where
  "db_snapshot w db =
     (case persistence (db_inner db) of
        None \<Rightarrow> (Inr (), db)
      | Some p \<Rightarrow>
          (case snapshot (w_codec w) (w_io w) (datastore (db_inner db)) p of
             (r, p') \<Rightarrow> (r, db\<lparr>db_inner := (db_inner db)\<lparr>persistence := Some p'\<rparr>\<rparr>)))"

section \<open>Background threads\<close>

text \<open>What a round does after it wakes: it stops when the flag is down.\<close>

definition cleanup_worker_round :: "Database \<Rightarrow> Database" where
  "cleanup_worker_round db =
     (if background_threads_enabled (db_inner db) then run_cleanup db else db)"

definition garbage_worker_round :: "nat \<Rightarrow> Database \<Rightarrow> Database" where
  "garbage_worker_round clk db =
     (if \<not> background_threads_enabled (db_inner db) then db
      else
        (case compute_cleanup_ts clk (db_inner db) of
           (cleanup_ts, inner) \<Rightarrow>
             let inner = run_gc_dirty_inner cleanup_ts inner;
                 cycle = db_gc_cycle db + 1;
                 full_scan_frequency = max (db_gc_full_scan_frequency db) 1 in
             db\<lparr>db_gc_cycle := cycle,
                db_inner := (if cycle mod full_scan_frequency = 0 then run_gc_full cleanup_ts inner else inner)\<rparr>))"

definition resync_worker_round :: "nat option \<Rightarrow> nat \<Rightarrow> Database \<Rightarrow> Database option" where
  "resync_worker_round unix now db =
     (case resync_round (ts_oracle (db_inner db)) unix now of
        None \<Rightarrow> None
      | Some o' \<Rightarrow> Some (db\<lparr>db_inner := (db_inner db)\<lparr>ts_oracle := o'\<rparr>\<rparr>))"

text \<open>The three persistence threads; \<open>f\<close> is the round of one of them.\<close>

definition persistence_round :: "(datastore \<Rightarrow> Persistence \<Rightarrow> Persistence) \<Rightarrow> Database \<Rightarrow> Database" where
  "persistence_round f db =
     (case persistence (db_inner db) of
        None \<Rightarrow> db
      | Some p \<Rightarrow> db\<lparr>db_inner := (db_inner db)\<lparr>persistence := Some (f (datastore (db_inner db)) p)\<rparr>\<rparr>)"

section \<open>Construction and shutdown\<close>

definition initialise_cleanup_worker :: "Database \<Rightarrow> Database" where
  "initialise_cleanup_worker db =
     (if \<not> transaction_cleanup_handle (db_inner db)
      then db\<lparr>db_inner := (db_inner db)\<lparr>transaction_cleanup_handle := True\<rparr>\<rparr> else db)"

definition initialise_garbage_worker :: "Database \<Rightarrow> Database" where
  "initialise_garbage_worker db =
     (if \<not> garbage_collection_handle (db_inner db)
      then db\<lparr>db_inner := (db_inner db)\<lparr>garbage_collection_handle := True\<rparr>, db_gc_cycle := 0\<rparr> else db)"

definition start_workers :: "DatabaseOptions \<Rightarrow> Database \<Rightarrow> Database" where
  "start_workers opts db =
     (let db = (if opt_enable_cleanup opts then initialise_cleanup_worker db else db)
      in if opt_enable_gc opts then initialise_garbage_worker db else db)"

definition Database_of :: "DatabaseOptions \<Rightarrow> Inner \<Rightarrow> Database" where
  "Database_of opts inner =
     \<lparr>db_inner = inner, db_pool = [], db_pool_size = DEFAULT_POOL_SIZE,
      db_cleanup_interval = opt_cleanup_interval opts, db_gc_interval = opt_gc_interval opts,
      db_gc_full_scan_frequency = opt_gc_full_scan_frequency opts, db_gc_cycle = 0\<rparr>"

definition Database_default :: "nat option \<Rightarrow> nat \<Rightarrow> Database option" where
  "Database_default unix now =
     map_option (Database_of DatabaseOptions_default) (Inner_new DatabaseOptions_default unix now)"

definition new_with_options :: "DatabaseOptions \<Rightarrow> nat option \<Rightarrow> nat \<Rightarrow> Database option" where
  "new_with_options opts unix now =
     (case Inner_new opts unix now of
        None \<Rightarrow> None
      | Some inner \<Rightarrow> Some (start_workers opts (Database_of opts inner)))"

text \<open>
  \<open>None\<close> when the wall clock is before the epoch or a decode loop never ends; the error is wrapped
  with \<open>std::io::Error::other\<close> in the source and kept as it is here.
\<close>

definition new_with_persistence :: "codec \<Rightarrow> io_env \<Rightarrow> DatabaseOptions \<Rightarrow> PersistenceOptions \<Rightarrow>
    (string \<Rightarrow> bytes option) \<Rightarrow> nat option \<Rightarrow> nat \<Rightarrow> (PersistenceError + Database) option" where
  "new_with_persistence cdc env opts persistence_opts disk unix now =
     (case Inner_new opts unix now of
        None \<Rightarrow> None
      | Some inner \<Rightarrow>
          (case Persistence_new cdc env persistence_opts disk (datastore inner) of
             None \<Rightarrow> None
           | Some (Inl e) \<Rightarrow> Some (Inl e)
           | Some (Inr (p, ds)) \<Rightarrow>
               Some (Inr (start_workers opts (Database_of opts
                 (inner\<lparr>datastore := ds, persistence := Some p\<rparr>))))))"

definition shutdown :: "Database \<Rightarrow> Database" where
  "shutdown db =
     (let inner = db_inner db;
          inner = (case persistence inner of
             None \<Rightarrow> inner
           | Some p \<Rightarrow> inner\<lparr>persistence :=
               Some (p\<lparr>p_background_threads_enabled := False, snapshot_handle := False\<rparr>)\<rparr>) in
      db\<lparr>db_inner := inner\<lparr>background_threads_enabled := False, transaction_cleanup_handle := False,
           garbage_collection_handle := False\<rparr>\<rparr>)"

section \<open>The pool is invisible\<close>

lemma Pool_get_eq_new:
  "Pool_get db write =
     map_option (\<lambda>(tx, inner). (tx, db\<lparr>db_pool := tl (db_pool db), db_inner := inner\<rparr>))
       (TransactionInner_new (db_inner db) write)"
  by (cases "db_pool db") (auto simp: Pool_get_def reset_eq_new split: option.splits)

lemma Pool_put_inner [simp]: "db_inner (Pool_put db tx) = db_inner db"
  by (simp add: Pool_put_def)

lemma Pool_put_bounded:
  "length (db_pool db) \<le> db_pool_size db \<Longrightarrow> length (db_pool (Pool_put db tx)) \<le> db_pool_size (Pool_put db tx)"
  by (simp add: Pool_put_def)

section \<open>After shutdown\<close>

lemma shutdown_stops_workers:
  "cleanup_worker_round (shutdown db) = shutdown db"
  "garbage_worker_round clk (shutdown db) = shutdown db"
  "persistence_round (snapshot_worker_round cdc env) (shutdown db) = shutdown db"
  by (auto simp: cleanup_worker_round_def garbage_worker_round_def persistence_round_def
      snapshot_worker_round_def shutdown_def Let_def snapshot_worker_round_def split: option.splits)

end
