(* ===== verification/System.thy ===== *)
theory System
  imports Database
begin

text \<open>
  The running system: a database and the transactions its clients hold, as a step relation labelled
  with what the client sees.  A step is one call of the public interface or one round of a
  background thread, run to completion.  The invariant says what the parts keep of each other, and
  every step preserves it.
\<close>

datatype tx_op =
    OpGet bytes
  | OpExists bytes
  | OpSet bytes bytes
  | OpPut bytes bytes
  | OpDel bytes
  | OpCancel
  | OpMode IsolationLevel

datatype tx_result = RValue "Error + bytes option" | RBool "Error + bool" | RUnit "Error + unit"

definition set_mode :: "IsolationLevel \<Rightarrow> TransactionInner \<Rightarrow> TransactionInner" where
  "set_mode m tx = (case m of SnapshotIsolation \<Rightarrow> with_snapshot_isolation tx
     | SerializableSnapshotIsolation \<Rightarrow> with_serializable_snapshot_isolation tx)"

fun run_op :: "Inner \<Rightarrow> tx_op \<Rightarrow> TransactionInner \<Rightarrow> tx_result \<times> TransactionInner" where
  "run_op db (OpGet k) tx = apfst RValue (get db k tx)"
| "run_op db (OpExists k) tx = apfst RBool (exists db k tx)"
| "run_op db (OpSet k v) tx = apfst RUnit (set_value k v tx)"
| "run_op db (OpPut k v) tx = apfst RUnit (put db k v tx)"
| "run_op db (OpDel k) tx = apfst RUnit (del k tx)"
| "run_op db OpCancel tx = apfst RUnit (cancel tx)"
| "run_op db (OpMode m) tx = (RUnit (Inr ()), set_mode m tx)"

record System =
  sys_db :: Database
  live :: "(nat, TransactionInner) omap"

abbreviation sys_inner :: "System \<Rightarrow> Inner" where
  "sys_inner s \<equiv> db_inner (sys_db s)"

datatype event =
    Begin nat bool
  | Op nat tx_op tx_result
  | Committed nat "Error + unit"
  | Dropped nat
  | Internal

text \<open>
  The bounds in \<open>step_begin\<close> and \<open>step_commit\<close> exclude the exhaustion of 64-bit numbers.
\<close>

inductive step :: "System \<Rightarrow> event \<Rightarrow> System \<Rightarrow> bool" where
  step_begin: "step s (Begin i wr) \<lparr>sys_db = db', live = om_insert i tx (live s)\<rparr>"
    if "transaction (sys_db s) wr = Some (tx, db')" "map_of (live s) i = None"
      "Suc (length (live s)) < 2 ^ 64 - 1"
| step_op: "step s (Op i op r) (s\<lparr>live := om_insert i tx' (live s)\<rparr>)"
    if "map_of (live s) i = Some tx" "run_op (sys_inner s) op tx = (r, tx')"
| step_commit: "step s (Committed i r) \<lparr>sys_db = (sys_db s)\<lparr>db_inner := inner'\<rparr>, live = om_insert i tx' (live s)\<rparr>"
    if "map_of (live s) i = Some tx" "commit w tx (sys_inner s) = Some (r, tx', inner')"
      "timestamp (ts_oracle (sys_inner s)) < u64_MAX" "transaction_commit_id (sys_inner s) < u64_MAX"
| step_drop: "step s (Dropped i) \<lparr>sys_db = db', live = om_remove i (live s)\<rparr>"
    if "map_of (live s) i = Some tx" "Transaction_drop tx (sys_db s) = Some db'"
| step_cleanup: "step s Internal (s\<lparr>sys_db := run_cleanup (sys_db s)\<rparr>)"
| step_gc: "step s Internal (s\<lparr>sys_db := run_gc clk (sys_db s)\<rparr>)"
| step_cleanup_worker: "step s Internal (s\<lparr>sys_db := cleanup_worker_round (sys_db s)\<rparr>)"
| step_garbage_worker: "step s Internal (s\<lparr>sys_db := garbage_worker_round clk (sys_db s)\<rparr>)"
| step_resync_worker: "step s Internal (s\<lparr>sys_db := db'\<rparr>)"
    if "resync_worker_round unix now (sys_db s) = Some db'"
| step_snapshot_call: "step s Internal (s\<lparr>sys_db := snd (db_snapshot w (sys_db s))\<rparr>)"
| step_snapshot_worker: "step s Internal
    (s\<lparr>sys_db := persistence_round (snapshot_worker_round cdc env) (sys_db s)\<rparr>)"
| step_append_worker: "step s Internal
    (s\<lparr>sys_db := persistence_round (\<lambda>_. append_worker_round cdc env) (sys_db s)\<rparr>)"
| step_fsync_worker: "step s Internal
    (s\<lparr>sys_db := persistence_round (\<lambda>_. fsync_worker_round env) (sys_db s)\<rparr>)"
| step_shutdown: "step s Internal (s\<lparr>sys_db := shutdown (sys_db s)\<rparr>)"

section \<open>The invariant\<close>

definition version_handles :: "(nat, TransactionInner) omap \<Rightarrow> (u64 \<times> nat) multiset" where
  "version_handles txs = image_mset (\<lambda>e. (tx_version (snd e), tx_counter_version (snd e))) (mset txs)"

definition commit_handles :: "(nat, TransactionInner) omap \<Rightarrow> (u64 \<times> nat) multiset" where
  "commit_handles txs = image_mset (\<lambda>e. (tx_commit (snd e), tx_counter_commit (snd e))) (mset txs)"

definition live_ok :: "Inner \<Rightarrow> TransactionInner \<Rightarrow> bool" where
  "live_ok db tx \<longleftrightarrow> tx_wf tx \<and> gc_floor db \<le> tx_version tx \<and> tx_version tx \<le> timestamp (ts_oracle db)
     \<and> tx_commit tx \<le> transaction_commit_id db"

definition sys_inv :: "System \<Rightarrow> bool" where
  "sys_inv s \<longleftrightarrow> inner_wf (sys_inner s) \<and> om_wf (live s)
     \<and> counters_inv (counter_by_oracle (sys_inner s)) (version_handles (live s))
     \<and> counters_inv (counter_by_commit (sys_inner s)) (commit_handles (live s))
     \<and> gc_floor (sys_inner s) \<le> timestamp (ts_oracle (sys_inner s))
     \<and> (\<forall>e\<in>set (live s). live_ok (sys_inner s) (snd e))"

lemma sys_inv_live:
  assumes "sys_inv s" and "map_of (live s) i = Some tx"
  shows "live_ok (sys_inner s) tx"
    and "(tx_version tx, tx_counter_version tx) \<in># version_handles (live s)"
    and "(tx_commit tx, tx_counter_commit tx) \<in># commit_handles (live s)"
  using assms(1) map_of_SomeD [OF assms(2)]
  by (force simp: sys_inv_def version_handles_def commit_handles_def)+

lemma handles_update:
  assumes "om_wf txs" and "map_of txs i = Some tx" and "same_snapshot tx tx'"
  shows "version_handles (om_insert i tx' txs) = version_handles txs"
    and "commit_handles (om_insert i tx' txs) = commit_handles txs"
proof -
  have "image_mset f (mset (om_insert i tx' txs)) = image_mset f (mset txs)"
    if "f (i, tx') = f (i, tx)" for f :: "nat \<times> TransactionInner \<Rightarrow> u64 \<times> nat"
    using map_om_insert_same [OF assms(1,2) that] by (metis mset_map)
  then show "version_handles (om_insert i tx' txs) = version_handles txs"
    and "commit_handles (om_insert i tx' txs) = commit_handles txs"
    using assms(3) by (auto simp: version_handles_def commit_handles_def same_snapshot_def)
qed

lemma handles_insert:
  assumes "map_of txs i = None"
  shows "version_handles (om_insert i tx txs) = add_mset (tx_version tx, tx_counter_version tx) (version_handles txs)"
    and "commit_handles (om_insert i tx txs) = add_mset (tx_commit tx, tx_counter_commit tx) (commit_handles txs)"
  by (simp_all add: version_handles_def commit_handles_def mset_om_insert_new [OF assms])

lemma handles_remove:
  assumes "om_wf txs" and "map_of txs i = Some tx"
  shows "version_handles (om_remove i txs) = version_handles txs - {#(tx_version tx, tx_counter_version tx)#}"
    and "commit_handles (om_remove i txs) = commit_handles txs - {#(tx_commit tx, tx_counter_commit tx)#}"
proof -
  have "(i, tx) \<in># mset txs" using map_of_SomeD [OF assms(2)] by simp
  then show "version_handles (om_remove i txs) = version_handles txs - {#(tx_version tx, tx_counter_version tx)#}"
    and "commit_handles (om_remove i txs) = commit_handles txs - {#(tx_commit tx, tx_counter_commit tx)#}"
    by (simp_all add: version_handles_def commit_handles_def mset_om_remove [OF assms] image_mset_Diff)
qed

lemma handles_size [simp]:
  "size (version_handles txs) = length txs" "size (commit_handles txs) = length txs"
  by (simp_all add: version_handles_def commit_handles_def)

lemma version_handles_ok:
  assumes "sys_inv s" and "e \<in># version_handles (live s)"
  shows "gc_floor (sys_inner s) \<le> fst e" and "fst e \<le> timestamp (ts_oracle (sys_inner s))"
  using assms by (auto simp: sys_inv_def version_handles_def live_ok_def)

text \<open>How many open transactions hold a number; the counters are exact.\<close>

definition open_at :: "(TransactionInner \<Rightarrow> u64) \<Rightarrow> System \<Rightarrow> u64 \<Rightarrow> nat" where
  "open_at f s v = length (filter (\<lambda>e. f (snd e) = v) (live s))"

lemma count_image_list: "count (image_mset h (mset xs)) y = length (filter (\<lambda>e. h e = y) xs)"
  by (induction xs) auto

lemma counter_of_open:
  assumes "counters_inv t (image_mset (\<lambda>e. (f (snd e), g (snd e))) (mset (live s)))" and "(v, c) \<in> set (slots t)"
  shows "cells t ! c = of_nat (open_at f s v) \<and> 0 < open_at f s v"
proof -
  let ?hs = "image_mset (\<lambda>e. (f (snd e), g (snd e))) (mset (live s))"
  from assms(1) have i: "om_wf (slots t)" "set_mset ?hs = set (slots t)" "\<forall>e\<in>set (slots t). cells t ! snd e = of_nat (count ?hs e)"
    by (simp_all add: counters_inv_def)
  have own: "f (snd e) = v \<Longrightarrow> g (snd e) = c" if "e \<in> set (live s)" for e
    using that i assms(2) by (metis (no_types, lifting) image_eqI om_wf_map_of_iff option.inject set_image_mset set_mset_mset)
  have "count ?hs (v, c) = open_at f s v"
    using own by (auto simp: count_image_list open_at_def intro!: arg_cong [where f = length] filter_cong)
  moreover have "0 < count ?hs (v, c)" using i(2) assms(2) by simp
  ultimately show ?thesis using i(3) assms(2) by auto
qed

lemma run_op_wf:
  assumes "run_op db op tx = (r, tx')" and "tx_wf tx"
  shows "tx_wf tx'" and "same_snapshot tx tx'"
proof -
  have "tx_wf (set_mode m tx)" for m
    using assms(2) by (cases m)
      (simp_all add: set_mode_def with_snapshot_isolation_def with_serializable_snapshot_isolation_def tx_wf_def)
  moreover have "same_snapshot tx (set_mode m tx)" for m
    by (cases m) (simp_all add: set_mode_def with_snapshot_isolation_def
        with_serializable_snapshot_isolation_def same_snapshot_def)
  ultimately have "tx_wf (snd (run_op db op tx)) \<and> same_snapshot tx (snd (run_op db op tx))"
    using assms(2) by (cases op) (simp_all add: tx_wf_ops)
  with assms(1) show "tx_wf tx'" and "same_snapshot tx tx'" by simp_all
qed


section \<open>Internal steps\<close>

text \<open>
  What the collectors and the persistence threads may change: nothing that a live transaction or a
  future one can observe.
\<close>

definition silent :: "(nat, TransactionInner) omap \<Rightarrow> Inner \<Rightarrow> Inner \<Rightarrow> bool" where
  "silent txs db db' \<longleftrightarrow>
     timestamp (ts_oracle db') = timestamp (ts_oracle db)
     \<and> transaction_commit_id db' = transaction_commit_id db
     \<and> counter_by_oracle db' = counter_by_oracle db \<and> counter_by_commit db' = counter_by_commit db
     \<and> inner_wf db' \<and> gc_floor db' \<le> timestamp (ts_oracle db)
     \<and> (\<forall>k. store_fetch (datastore db') k (timestamp (ts_oracle db))
           = store_fetch (datastore db) k (timestamp (ts_oracle db)))
     \<and> (\<forall>e\<in>set txs. gc_floor db' \<le> tx_version (snd e)
          \<and> (\<forall>k. store_fetch (datastore db') k (tx_version (snd e)) = store_fetch (datastore db) k (tx_version (snd e)))
          \<and> changed_since (transaction_commit_queue db') (tx_commit (snd e))
            = changed_since (transaction_commit_queue db) (tx_commit (snd e)))"

lemma silent_inv:
  assumes "sys_inv s" and "silent (live s) (sys_inner s) inner'" and "db_inner db' = inner'"
  shows "sys_inv (s\<lparr>sys_db := db'\<rparr>)"
  using assms by (auto simp: sys_inv_def silent_def live_ok_def)

lemma silent_trans:
  assumes "silent txs db db'" and "silent txs db' db''"
  shows "silent txs db db''"
  using assms by (simp add: silent_def)

lemma silent_same:
  assumes "sys_inv s" and "timestamp (ts_oracle db') = timestamp (ts_oracle (sys_inner s))"
    and "transaction_commit_id db' = transaction_commit_id (sys_inner s)"
    and "transaction_commit_queue db' = transaction_commit_queue (sys_inner s)"
    and "transaction_merge_queue db' = transaction_merge_queue (sys_inner s)"
    and "counter_by_oracle db' = counter_by_oracle (sys_inner s)"
    and "counter_by_commit db' = counter_by_commit (sys_inner s)"
    and "gc_floor db' = gc_floor (sys_inner s)" and "datastore db' = datastore (sys_inner s)"
  shows "silent (live s) (sys_inner s) db'"
  using assms by (auto simp: silent_def sys_inv_def inner_wf_def live_ok_def)

lemma silent_cleanup:
  assumes "sys_inv s"
  shows "silent (live s) (sys_inner s) (run_cleanup_inner (sys_inner s))"
proof -
  let ?db = "sys_inner s" let ?q = "transaction_commit_queue ?db"
  let ?q' = "transaction_commit_queue (run_cleanup_inner ?db)"
  have ci: "counters_inv (counter_by_commit ?db) (commit_handles (live s))"
    and wf: "om_wf ?q" "inner_wf ?db" using assms by (simp_all add: sys_inv_def inner_wf_def queue_wf_def)
  note cl = run_cleanup_props [OF ci]
  have frame: "run_cleanup_inner ?db = ?db\<lparr>transaction_commit_queue := ?q'\<rparr>" by (rule cl(1))
  have wf': "om_wf ?q'" by (rule cl(3) [OF wf(1)])
  have "changed_since ?q' (tx_commit (snd e)) = changed_since ?q (tx_commit (snd e))" if "e \<in> set (live s)" for e
  proof -
    have h: "(tx_commit (snd e), tx_counter_commit (snd e)) \<in># commit_handles (live s)"
      using that by (force simp: commit_handles_def)
    have "x \<in> set ?q' \<longleftrightarrow> x \<in> set ?q" if "tx_commit (snd e) < fst x" for x
      using cl(4) [OF h, of "fst x"] that om_wf_map_of_iff [OF wf', of "fst x" "snd x"]
        om_wf_map_of_iff [OF wf(1), of "fst x" "snd x"] by simp
    then show ?thesis by (auto simp: changed_since_def)
  qed
  moreover have "inner_wf (run_cleanup_inner ?db)"
    using wf(2) wf' cl(2) by (subst frame) (auto simp: inner_wf_def queue_wf_def)
  moreover have "timestamp (ts_oracle (run_cleanup_inner ?db)) = timestamp (ts_oracle ?db)"
    "transaction_commit_id (run_cleanup_inner ?db) = transaction_commit_id ?db"
    "counter_by_oracle (run_cleanup_inner ?db) = counter_by_oracle ?db"
    "counter_by_commit (run_cleanup_inner ?db) = counter_by_commit ?db"
    "gc_floor (run_cleanup_inner ?db) = gc_floor ?db" "datastore (run_cleanup_inner ?db) = datastore ?db"
    by (subst frame, simp)+
  ultimately show ?thesis using assms by (auto simp: silent_def sys_inv_def live_ok_def)
qed

text \<open>A collection below a watermark that bounds every live snapshot.\<close>

lemma silent_gc_step:
  assumes "inner_wf db" "gc_floor db \<le> timestamp (ts_oracle db)"
    and "\<forall>e\<in>set txs. gc_floor db \<le> tx_version (snd e) \<and> c \<le> tx_version (snd e)" "c \<le> timestamp (ts_oracle db)"
    and frame: "store_frame db db'" and "store_wf (datastore db')"
    and newest: "\<And>m. store_newest_le (datastore db) m \<Longrightarrow> store_newest_le (datastore db') m"
    and fetch: "\<And>k w. c \<le> w \<Longrightarrow> store_fetch (datastore db') k w = store_fetch (datastore db) k w"
  shows "silent txs db db'"
proof -
  from frame have db': "db' = db\<lparr>datastore := datastore db', gc_dirty_keys := gc_dirty_keys db'\<rparr>"
    by (simp add: store_frame_def)
  have "timestamp (ts_oracle db') = timestamp (ts_oracle db)" "transaction_commit_id db' = transaction_commit_id db"
    "counter_by_oracle db' = counter_by_oracle db" "counter_by_commit db' = counter_by_commit db"
    "gc_floor db' = gc_floor db" "transaction_commit_queue db' = transaction_commit_queue db"
    "transaction_merge_queue db' = transaction_merge_queue db"
    by (subst db', simp)+
  with assms show ?thesis by (simp add: silent_def inner_wf_def)
qed

lemma silent_collect:
  assumes "sys_inv s" and "compute_cleanup_ts clk (sys_inner s) = (c, db1)"
  shows "silent (live s) (sys_inner s) (run_gc_dirty_inner c db1)"
    and "silent (live s) (sys_inner s) (run_gc_full c (run_gc_dirty_inner c db1))"
proof -
  let ?db = "sys_inner s"
  have ci: "counters_inv (counter_by_oracle ?db) (version_handles (live s))"
    and wf: "inner_wf ?db" and fl: "gc_floor ?db \<le> timestamp (ts_oracle ?db)"
    using assms(1) by (simp_all add: sys_inv_def)
  note ts = compute_cleanup_ts_props [OF ci assms(2)]
  have h: "(tx_version (snd e), tx_counter_version (snd e)) \<in># version_handles (live s)" if "e \<in> set (live s)" for e
    using that by (force simp: version_handles_def)
  have fl1: "gc_floor db1 \<le> timestamp (ts_oracle ?db)" by (rule ts(6) [OF fl])
  have lv: "gc_floor db1 \<le> tx_version (snd e) \<and> c \<le> tx_version (snd e)" if "e \<in> set (live s)" for e
    using ts(3) [OF h [OF that]] ts(7) [OF _ h [OF that]] version_handles_ok(1) [OF assms(1)] by simp
  have eq1: "timestamp (ts_oracle db1) = timestamp (ts_oracle ?db)" "inner_wf db1"
    using wf by (subst ts(1), simp add: inner_wf_def)+
  have s1: "silent (live s) ?db db1"
    using assms(1) fl1 lv by (subst ts(1)) (auto simp: silent_def sys_inv_def inner_wf_def)
  have wf1: "store_wf (datastore db1)" using eq1(2) by (simp add: inner_wf_def)
  have s2: "silent (live s) db1 (run_gc_dirty_inner c db1)"
    by (rule silent_gc_step [where c = c])
      (use eq1 fl1 lv ts(5) run_gc_dirty_props [OF wf1] in auto)
  from silent_trans [OF s1 s2] show "silent (live s) ?db (run_gc_dirty_inner c db1)" .
  have eq2: "timestamp (ts_oracle (run_gc_dirty_inner c db1)) = timestamp (ts_oracle ?db)"
    "inner_wf (run_gc_dirty_inner c db1)" "gc_floor (run_gc_dirty_inner c db1) \<le> timestamp (ts_oracle ?db)"
    "\<forall>e\<in>set (live s). gc_floor (run_gc_dirty_inner c db1) \<le> tx_version (snd e)"
    using s2 eq1 by (simp_all add: silent_def)
  then have wf2: "store_wf (datastore (run_gc_dirty_inner c db1))" by (simp add: inner_wf_def)
  have "silent (live s) (run_gc_dirty_inner c db1) (run_gc_full c (run_gc_dirty_inner c db1))"
    by (rule silent_gc_step [where c = c])
      (use eq2 lv ts(5) run_gc_full_props [OF wf2] in auto)
  with s1 s2 show "silent (live s) ?db (run_gc_full c (run_gc_dirty_inner c db1))"
    by (meson silent_trans)
qed

lemma silent_refl: "sys_inv s \<Longrightarrow> silent (live s) (sys_inner s) (sys_inner s)"
  by (rule silent_same) simp_all

lemma silent_run_gc: "sys_inv s \<Longrightarrow> silent (live s) (sys_inner s) (db_inner (run_gc clk (sys_db s)))"
  using silent_collect by (auto simp: run_gc_def split: prod.splits)

lemma silent_garbage_worker:
  "sys_inv s \<Longrightarrow> silent (live s) (sys_inner s) (db_inner (garbage_worker_round clk (sys_db s)))"
  using silent_collect silent_refl
  by (auto simp: garbage_worker_round_def Let_def split: prod.splits)

lemma silent_cleanup_worker:
  "sys_inv s \<Longrightarrow> silent (live s) (sys_inner s) (db_inner (cleanup_worker_round (sys_db s)))"
  using silent_cleanup silent_refl by (auto simp: cleanup_worker_round_def run_cleanup_def)

lemma silent_db_snapshot:
  "sys_inv s \<Longrightarrow> silent (live s) (sys_inner s) (db_inner (snd (db_snapshot w (sys_db s))))"
  by (auto simp: db_snapshot_def split: option.splits prod.splits intro: silent_same)

lemma silent_persistence_round:
  "sys_inv s \<Longrightarrow> silent (live s) (sys_inner s) (db_inner (persistence_round f (sys_db s)))"
  by (auto simp: persistence_round_def split: option.splits intro: silent_same)

lemma step_Internal_silent:
  assumes "step s Internal s'" and "sys_inv s"
  shows "\<exists>db'. s' = s\<lparr>sys_db := db'\<rparr> \<and> silent (live s) (sys_inner s) (db_inner db')"
  using assms
proof (cases rule: step.cases)
  case step_cleanup
  then show ?thesis using silent_cleanup [OF assms(2)] by (auto simp: run_cleanup_def)
next
  case (step_gc clk)
  then show ?thesis using silent_run_gc [OF assms(2)] by blast
next
  case step_cleanup_worker
  then show ?thesis using silent_cleanup_worker [OF assms(2)] by blast
next
  case (step_garbage_worker clk)
  then show ?thesis using silent_garbage_worker [OF assms(2)] by blast
next
  case (step_resync_worker unix now db')
  then show ?thesis
    by (auto simp: resync_worker_round_def resync_round_timestamp split: option.splits intro!: silent_same assms(2))
next
  case (step_snapshot_call w)
  then show ?thesis using silent_db_snapshot [OF assms(2)] by blast
next
  case (step_snapshot_worker cdc env)
  then show ?thesis using silent_persistence_round [OF assms(2)] by blast
next
  case (step_append_worker cdc env)
  then show ?thesis using silent_persistence_round [OF assms(2)] by blast
next
  case (step_fsync_worker env)
  then show ?thesis using silent_persistence_round [OF assms(2)] by blast
next
  case step_shutdown
  then show ?thesis
    by (auto simp: shutdown_def Let_def split: option.splits intro!: silent_same assms(2))
qed


section \<open>Client steps\<close>

lemma begin_effect:
  assumes "sys_inv s" and "transaction (sys_db s) wr = Some (tx, db')" and "Suc (length (live s)) < 2 ^ 64 - 1"
  obtains tv tc where
    "db_inner db' = (sys_inner s)\<lparr>counter_by_oracle := tv, counter_by_commit := tc\<rparr>"
    "counters_inv tv (add_mset (tx_version tx, tx_counter_version tx) (version_handles (live s)))"
    "counters_inv tc (add_mset (tx_commit tx, tx_counter_commit tx) (commit_handles (live s)))"
    "tx_version tx = timestamp (ts_oracle (sys_inner s))"
    "tx_commit tx = transaction_commit_id (sys_inner s)"
    "tx_mode tx = SnapshotIsolation" "\<not> tx_done tx" "tx_write tx = wr"
    "tx_readset tx = {}" "tx_writeset tx = []" "tx_wf tx"
proof -
  have ci: "counters_inv (counter_by_oracle (sys_inner s)) (version_handles (live s))"
    "counters_inv (counter_by_commit (sys_inner s)) (commit_handles (live s))"
    "Suc (size (version_handles (live s))) < 2 ^ 64 - 1" "Suc (size (commit_handles (live s))) < 2 ^ 64 - 1"
    "gc_floor (sys_inner s) \<le> timestamp (ts_oracle (sys_inner s))"
    using assms(1,3) by (simp_all add: sys_inv_def)
  show ?thesis
    by (rule TransactionInner_new_ok [OF ci, of wr])
      (use that assms(2) in \<open>auto simp: transaction_def Pool_get_eq_new\<close>)
qed

lemma begin_returns:
  assumes "sys_inv s" and "Suc (length (live s)) < 2 ^ 64 - 1"
  shows "\<exists>tx db'. transaction (sys_db s) wr = Some (tx, db')"
proof -
  have ci: "counters_inv (counter_by_oracle (sys_inner s)) (version_handles (live s))"
    "counters_inv (counter_by_commit (sys_inner s)) (commit_handles (live s))"
    "Suc (size (version_handles (live s))) < 2 ^ 64 - 1" "Suc (size (commit_handles (live s))) < 2 ^ 64 - 1"
    "gc_floor (sys_inner s) \<le> timestamp (ts_oracle (sys_inner s))"
    using assms by (simp_all add: sys_inv_def)
  show ?thesis
    by (rule TransactionInner_new_ok [OF ci, of wr]) (simp add: transaction_def Pool_get_eq_new)
qed

lemma drop_effect:
  assumes "sys_inv s" and "map_of (live s) i = Some tx"
  obtains db' tv tc where "Transaction_drop tx (sys_db s) = Some db'"
    "db_inner db' = (sys_inner s)\<lparr>counter_by_commit := tc, counter_by_oracle := tv\<rparr>"
    "counters_inv tv (version_handles (om_remove i (live s)))"
    "counters_inv tc (commit_handles (om_remove i (live s)))"
proof -
  have ci: "counters_inv (counter_by_oracle (sys_inner s)) (version_handles (live s))"
    "counters_inv (counter_by_commit (sys_inner s)) (commit_handles (live s))" "om_wf (live s)"
    using assms(1) by (simp_all add: sys_inv_def)
  from drop_counter_inv [OF ci(1) sys_inv_live(2) [OF assms]] drop_counter_inv [OF ci(2) sys_inv_live(3) [OF assms]]
  obtain tv tc where "drop_counter (counter_by_oracle (sys_inner s)) (tx_version tx) (tx_counter_version tx) = Some tv"
    "drop_counter (counter_by_commit (sys_inner s)) (tx_commit tx) (tx_counter_commit tx) = Some tc"
    "counters_inv tv (version_handles (om_remove i (live s)))"
    "counters_inv tc (commit_handles (om_remove i (live s)))"
    by (auto simp: handles_remove [OF ci(3) assms(2)])
  with that [of "Pool_put ((sys_db s)\<lparr>db_inner := (sys_inner s)\<lparr>counter_by_commit := tc,
      counter_by_oracle := tv\<rparr>\<rparr>) tx" tv tc]
  show ?thesis by (simp add: Transaction_drop_def)
qed

text \<open>The four outcomes of a commit.\<close>

lemma commit_effect [consumes 4, case_names closed empty conflict passed]:
  assumes "sys_inv s" "map_of (live s) i = Some tx"
    and "timestamp (ts_oracle (sys_inner s)) < u64_MAX" "transaction_commit_id (sys_inner s) < u64_MAX"
  obtains "tx_done tx" "commit w tx (sys_inner s) = Some (Inl TxClosed, tx, sys_inner s)"
  | "\<not> tx_done tx" "tx_writeset tx = []"
    "commit w tx (sys_inner s) = Some (Inr (), tx\<lparr>tx_done := True\<rparr>, sys_inner s)"
  | e where "\<not> tx_done tx" "tx_writeset tx \<noteq> []" "commit_conflict tx (sys_inner s) = Some e"
    "commit w tx (sys_inner s) = Some (Inl e, closed_tx tx, (sys_inner s)\<lparr>
       transaction_queue_id := transaction_queue_id (sys_inner s) + 1,
       transaction_commit_id := transaction_commit_id (sys_inner s) + 1\<rparr>)"
  | ver r p where "\<not> tx_done tx" "tx_writeset tx \<noteq> []" "commit_conflict tx (sys_inner s) = None"
    "timestamp (ts_oracle (sys_inner s)) < ver" "r = Inr () \<or> (\<exists>e. r = Inl (TxCommitNotPersisted e))"
    "commit w tx (sys_inner s) = Some (r, closed_tx tx, committed_state ver tx (sys_inner s) p)"
proof (cases "tx_done tx \<or> tx_writeset tx = []")
  case True
  with that(1,2) commit_closed commit_empty show ?thesis by blast
next
  case False
  then have nd: "\<not> tx_done tx" "tx_writeset tx \<noteq> []" by auto
  from assms(1) have wf: "inner_wf (sys_inner s)" by (simp add: sys_inv_def)
  show ?thesis
  proof (cases "commit_conflict tx (sys_inner s)")
    case None
    let ?v = "candidate_version (ts_oracle (sys_inner s)) (w_clock w 0)"
    let ?a = "append_outcome w ?v (tx_writeset tx) (sys_inner s)"
    have "fst ?a = Inr () \<or> (\<exists>e. fst ?a = Inl (TxCommitNotPersisted e))"
      by (auto simp: append_outcome_def split: option.splits prod.splits sum.splits)
    with that(4) nd None candidate_above [OF assms(3)] commit_passing [OF wf assms(4) nd None] show ?thesis by blast
  next
    case (Some e)
    with that(3) nd commit_conflicting [OF wf assms(4) nd Some] show ?thesis by blast
  qed
qed

end
