(* ===== verification/Isolation_Spec.thy ===== *)
theory Isolation_Spec
  imports System
begin

text \<open>
  What the engine promises its clients: snapshot isolation with an optional validation of reads.  The
  abstract machine has one current value per key and gives every transaction a private copy of it; a
  transaction remembers which keys others have committed since it began.  There are no versions,
  queues, counters or collectors.  The engine of theory \<open>System\<close> is shown to implement it.
\<close>

record SItx =
  snap :: "bytes \<Rightarrow> bytes option"
  changed :: "bytes set"
  buffer :: "bytes \<Rightarrow> bytes option option"
  reads :: "bytes set"
  si_mode :: IsolationLevel
  si_closed :: bool
  si_write :: bool

record SI =
  now :: "bytes \<Rightarrow> bytes option"
  txs :: "nat \<Rightarrow> SItx option"

definition si_new :: "(bytes \<Rightarrow> bytes option) \<Rightarrow> bool \<Rightarrow> SItx" where
  "si_new current wr = \<lparr>snap = current, changed = {}, buffer = Map.empty, reads = {},
     si_mode = SnapshotIsolation, si_closed = False, si_write = wr\<rparr>"

definition si_view :: "SItx \<Rightarrow> bytes \<Rightarrow> bytes option" where
  "si_view t k = (case buffer t k of Some v \<Rightarrow> v | None \<Rightarrow> snap t k)"

definition si_note :: "bytes \<Rightarrow> SItx \<Rightarrow> SItx" where
  "si_note k t =
     (if si_write t \<and> buffer t k = None \<and> si_mode t = SerializableSnapshotIsolation
      then t\<lparr>reads := insert k (reads t)\<rparr> else t)"

definition si_close :: "SItx \<Rightarrow> SItx" where
  "si_close t = t\<lparr>si_closed := True, buffer := Map.empty,
     reads := (if si_mode t = SerializableSnapshotIsolation then {} else reads t)\<rparr>"

definition si_guarded :: "SItx \<Rightarrow> Error + SItx \<Rightarrow> tx_result \<times> SItx" where
  "si_guarded t r =
     (if si_closed t then (RUnit (Inl TxClosed), t)
      else if \<not> si_write t then (RUnit (Inl TxNotWritable), t)
      else (case r of Inl e \<Rightarrow> (RUnit (Inl e), t) | Inr t' \<Rightarrow> (RUnit (Inr ()), t')))"

text \<open>
  A buffered key counts as existing for \<open>exists\<close> and \<open>put\<close>, a buffered deletion included: that is what
  the engine answers.
\<close>

fun si_op :: "tx_op \<Rightarrow> SItx \<Rightarrow> tx_result \<times> SItx" where
  "si_op (OpGet k) t =
     (if si_closed t then (RValue (Inl TxClosed), t) else (RValue (Inr (si_view t k)), si_note k t))"
| "si_op (OpExists k) t =
     (if si_closed t then (RBool (Inl TxClosed), t)
      else (RBool (Inr (buffer t k \<noteq> None \<or> snap t k \<noteq> None)), si_note k t))"
| "si_op (OpSet k v) t = si_guarded t (Inr (t\<lparr>buffer := (buffer t)(k \<mapsto> Some v)\<rparr>))"
| "si_op (OpPut k v) t =
     si_guarded t (if buffer t k \<noteq> None \<or> snap t k \<noteq> None then Inl KeyAlreadyExists
       else Inr (t\<lparr>buffer := (buffer t)(k \<mapsto> Some v)\<rparr>))"
| "si_op (OpDel k) t = si_guarded t (Inr (t\<lparr>buffer := (buffer t)(k \<mapsto> None)\<rparr>))"
| "si_op OpCancel t = (if si_closed t then (RUnit (Inl TxClosed), t) else (RUnit (Inr ()), si_close t))"
| "si_op (OpMode m) t = (RUnit (Inr ()), t\<lparr>si_mode := m\<rparr>)"

definition si_install :: "(bytes \<Rightarrow> bytes option option) \<Rightarrow> (bytes \<Rightarrow> bytes option) \<Rightarrow> bytes \<Rightarrow> bytes option" where
  "si_install buf current k = (case buf k of Some v \<Rightarrow> v | None \<Rightarrow> current k)"

definition si_conflicts :: "SItx \<Rightarrow> bool" where
  "si_conflicts t \<longleftrightarrow> dom (buffer t) \<inter> changed t \<noteq> {}
     \<or> si_mode t = SerializableSnapshotIsolation \<and> reads t \<inter> changed t \<noteq> {}"

text \<open>
  A commit is refused exactly when it conflicts; otherwise it installs its whole buffer at once and
  every open transaction learns the keys, also when the log could not be written.
\<close>

inductive si_step :: "SI \<Rightarrow> event \<Rightarrow> SI \<Rightarrow> bool" where
  si_begin: "si_step a (Begin i wr) (a\<lparr>txs := (txs a)(i \<mapsto> si_new (now a) wr)\<rparr>)" if "txs a i = None"
| si_run: "si_step a (Op i op r) (a\<lparr>txs := (txs a)(i \<mapsto> t')\<rparr>)" if "txs a i = Some t" "si_op op t = (r, t')"
| si_commit_closed: "si_step a (Committed i (Inl TxClosed)) a" if "txs a i = Some t" "si_closed t"
| si_commit_empty: "si_step a (Committed i (Inr ())) (a\<lparr>txs := (txs a)(i \<mapsto> t\<lparr>si_closed := True\<rparr>)\<rparr>)"
    if "txs a i = Some t" "\<not> si_closed t" "buffer t = Map.empty"
| si_commit_conflict: "si_step a (Committed i (Inl e)) (a\<lparr>txs := (txs a)(i \<mapsto> si_close t)\<rparr>)"
    if "txs a i = Some t" "\<not> si_closed t" "buffer t \<noteq> Map.empty"
      "e = KeyWriteConflict \<and> dom (buffer t) \<inter> changed t \<noteq> {}
       \<or> e = KeyReadConflict \<and> si_mode t = SerializableSnapshotIsolation \<and> reads t \<inter> changed t \<noteq> {}"
| si_commit_install: "si_step a (Committed i r)
      \<lparr>now = si_install (buffer t) (now a),
       txs = map_option (\<lambda>u. u\<lparr>changed := changed u \<union> dom (buffer t)\<rparr>) \<circ> ((txs a)(i \<mapsto> si_close t))\<rparr>"
    if "txs a i = Some t" "\<not> si_closed t" "buffer t \<noteq> Map.empty" "\<not> si_conflicts t"
      "r = Inr () \<or> (\<exists>e. r = Inl (TxCommitNotPersisted e))"
| si_drop: "si_step a (Dropped i) (a\<lparr>txs := (txs a)(i := None)\<rparr>)" if "txs a i = Some t"
| si_internal: "si_step a Internal a"

section \<open>The abstraction\<close>

definition abs_tx :: "Inner \<Rightarrow> TransactionInner \<Rightarrow> SItx" where
  "abs_tx db tx =
     \<lparr>snap = (\<lambda>k. store_fetch (datastore db) k (tx_version tx)),
      changed = changed_since (transaction_commit_queue db) (tx_commit tx),
      buffer = map_of (tx_writeset tx), reads = tx_readset tx, si_mode = tx_mode tx,
      si_closed = tx_done tx, si_write = tx_write tx\<rparr>"

definition abs_sys :: "System \<Rightarrow> SI" where
  "abs_sys s =
     \<lparr>now = (\<lambda>k. store_fetch (datastore (sys_inner s)) k (timestamp (ts_oracle (sys_inner s)))),
      txs = (\<lambda>i. map_option (abs_tx (sys_inner s)) (map_of (live s) i))\<rparr>"

lemma fetch_in_datastore_quiet:
  "inner_wf db \<Longrightarrow> fetch_in_datastore db k v = store_fetch (datastore db) k v"
  by (simp add: inner_wf_def fetch_in_datastore_def merge_lookup_def store_fetch_def)

lemma exists_in_datastore_quiet:
  assumes "inner_wf db"
  shows "exists_in_datastore db k v \<longleftrightarrow> store_fetch (datastore db) k v \<noteq> None"
proof -
  have "exists_version vs v \<longleftrightarrow> fetch_version vs v \<noteq> None" if "map_of (datastore db) k = Some vs" for vs
    using exists_version_fetch [of vs] store_wf_get [OF _ that] assms by (simp add: inner_wf_def)
  with assms show ?thesis
    by (auto simp: inner_wf_def exists_in_datastore_def merge_lookup_def store_fetch_def split: option.splits)
qed

lemma abs_tx_note:
  assumes "tx_write tx" "map_of (tx_writeset tx) k = None"
  shows "abs_tx db (record_read k tx) = si_note k (abs_tx db tx)"
  using assms by (auto simp: abs_tx_def record_read_def si_note_def insert_absorb)

lemma abs_tx_close: "abs_tx db (clear_writeset (clear_readset (tx\<lparr>tx_done := True\<rparr>))) = si_close (abs_tx db tx)"
  by (simp add: abs_tx_def clear_writeset_def clear_readset_def si_close_def)

lemma note_same:
  "\<not> tx_write tx \<or> map_of (tx_writeset tx) k \<noteq> None \<Longrightarrow> si_note k (abs_tx db tx) = abs_tx db tx"
  by (auto simp: si_note_def abs_tx_def)

lemma abs_run_op:
  assumes "inner_wf db" and "tx_wf tx" and "run_op db op tx = (r, tx')"
  shows "si_op op (abs_tx db tx) = (r, abs_tx db tx')"
proof -
  note q = fetch_in_datastore_quiet [OF assms(1)] exists_in_datastore_quiet [OF assms(1)]
  have ro: "\<not> tx_write tx \<Longrightarrow> tx_writeset tx = []" using assms(2) by (simp add: tx_wf_def)
  have proj: "buffer (abs_tx db tx) = map_of (tx_writeset tx)" "si_closed (abs_tx db tx) = tx_done tx"
    "si_write (abs_tx db tx) = tx_write tx" "snap (abs_tx db tx) k = store_fetch (datastore db) k (tx_version tx)" for k
    by (simp_all add: abs_tx_def)
  have ins: "abs_tx db (tx\<lparr>tx_writeset := om_insert k v (tx_writeset tx)\<rparr>)
      = (abs_tx db tx)\<lparr>buffer := (map_of (tx_writeset tx))(k \<mapsto> v)\<rparr>" for k v
    by (simp add: abs_tx_def map_of_om_insert)
  show ?thesis
    using assms(3)
  proof (cases op)
    case (OpMode m)
    then show ?thesis using assms(3)
      by (cases m) (auto simp: set_mode_def with_snapshot_isolation_def
          with_serializable_snapshot_isolation_def abs_tx_def)
  qed (auto simp: get_def exists_def set_value_def put_def del_def cancel_def q proj ins si_view_def
      si_guarded_def note_same ro abs_tx_note abs_tx_close [unfolded clear_writeset_def] abs_tx_close
      split: option.splits if_splits)
qed


section \<open>Simulation\<close>

lemma silent_abs:
  assumes "silent (live s) (sys_inner s) (db_inner db')" and "om_wf (live s)"
  shows "abs_sys (s\<lparr>sys_db := db'\<rparr>) = abs_sys s"
proof -
  have "abs_tx (db_inner db') tx = abs_tx (sys_inner s) tx" if "map_of (live s) i = Some tx" for i tx
    using map_of_SomeD [OF that] assms(1) by (fastforce simp: silent_def abs_tx_def)
  then have "map_option (abs_tx (db_inner db')) (map_of (live s) i)
      = map_option (abs_tx (sys_inner s)) (map_of (live s) i)" for i
    by (cases "map_of (live s) i") auto
  with assms(1) show ?thesis by (simp add: abs_sys_def silent_def)
qed

lemma abs_sys_update:
  "abs_sys (s\<lparr>live := om_insert i tx (live s)\<rparr>)
     = (abs_sys s)\<lparr>txs := (txs (abs_sys s))(i \<mapsto> abs_tx (sys_inner s) tx)\<rparr>"
  by (auto simp: abs_sys_def map_of_om_insert)

lemma inv_update:
  assumes "sys_inv s" "map_of (live s) i = Some tx" "same_snapshot tx tx'" "tx_wf tx'"
  shows "sys_inv (s\<lparr>live := om_insert i tx' (live s)\<rparr>)"
proof -
  have wf: "om_wf (live s)" using assms(1) by (simp add: sys_inv_def)
  have "live_ok (sys_inner s) tx'"
    using sys_inv_live(1) [OF assms(1,2)] assms(3,4) by (simp add: live_ok_def same_snapshot_def)
  with assms(1) show ?thesis
    by (auto simp: sys_inv_def om_wf_insert set_om_insert [OF wf] handles_update [OF wf assms(2,3)])
qed

lemma sim_begin:
  assumes "sys_inv s" "transaction (sys_db s) wr = Some (tx, db')" "map_of (live s) i = None"
    and "Suc (length (live s)) < 2 ^ 64 - 1"
  defines "s' \<equiv> \<lparr>sys_db = db', live = om_insert i tx (live s)\<rparr>"
  shows "sys_inv s'" and "si_step (abs_sys s) (Begin i wr) (abs_sys s')"
proof -
  obtain tv tc where b: "db_inner db' = (sys_inner s)\<lparr>counter_by_oracle := tv, counter_by_commit := tc\<rparr>"
    "counters_inv tv (add_mset (tx_version tx, tx_counter_version tx) (version_handles (live s)))"
    "counters_inv tc (add_mset (tx_commit tx, tx_counter_commit tx) (commit_handles (live s)))"
    "tx_version tx = timestamp (ts_oracle (sys_inner s))" "tx_commit tx = transaction_commit_id (sys_inner s)"
    "tx_mode tx = SnapshotIsolation" "\<not> tx_done tx" "tx_write tx = wr"
    "tx_readset tx = {}" "tx_writeset tx = []" "tx_wf tx"
    by (rule begin_effect [OF assms(1,2,4)])
  have wf: "om_wf (live s)" and iw: "inner_wf (sys_inner s)"
    and fl: "gc_floor (sys_inner s) \<le> timestamp (ts_oracle (sys_inner s))"
    and lv: "\<forall>e\<in>set (live s). live_ok (sys_inner s) (snd e)"
    using assms(1) by (simp_all add: sys_inv_def)
  have "live_ok (sys_inner s) tx" using b fl by (simp add: live_ok_def)
  with lv have "\<forall>e\<in>set (om_insert i tx (live s)). live_ok (db_inner db') (snd e)"
    by (auto simp: set_om_insert [OF wf] b(1) live_ok_def)
  with b(2,3) iw fl wf show "sys_inv s'"
    by (simp add: sys_inv_def s'_def b(1) handles_insert [OF assms(3)] om_wf_insert inner_wf_def)
  have same: "abs_tx (db_inner db') = abs_tx (sys_inner s)" by (simp add: fun_eq_iff abs_tx_def b(1))
  have none: "changed_since (transaction_commit_queue (sys_inner s)) (transaction_commit_id (sys_inner s)) = {}"
    using iw by (force simp: changed_since_def inner_wf_def queue_wf_def)
  have "abs_tx (sys_inner s) tx = si_new (now (abs_sys s)) wr"
    using b none by (simp add: abs_tx_def abs_sys_def si_new_def)
  then have "abs_sys s' = (abs_sys s)\<lparr>txs := (txs (abs_sys s))(i \<mapsto> si_new (now (abs_sys s)) wr)\<rparr>"
    by (auto simp: abs_sys_def s'_def map_of_om_insert b(1) same [unfolded b(1)] fun_eq_iff)
  then show "si_step (abs_sys s) (Begin i wr) (abs_sys s')"
    using si_begin [of "abs_sys s" i wr] assms(3) by (simp add: abs_sys_def)
qed

lemma sim_op:
  assumes "sys_inv s" "map_of (live s) i = Some tx" "run_op (sys_inner s) op tx = (r, tx')"
  defines "s' \<equiv> s\<lparr>live := om_insert i tx' (live s)\<rparr>"
  shows "sys_inv s'" and "si_step (abs_sys s) (Op i op r) (abs_sys s')"
proof -
  have iw: "inner_wf (sys_inner s)" and tw: "tx_wf tx"
    using assms(1) sys_inv_live(1) [OF assms(1,2)] by (simp_all add: sys_inv_def live_ok_def)
  note wf = run_op_wf [OF assms(3) tw]
  show "sys_inv s'" unfolding s'_def by (rule inv_update [OF assms(1,2) wf(2,1)])
  have "txs (abs_sys s) i = Some (abs_tx (sys_inner s) tx)" using assms(2) by (simp add: abs_sys_def)
  from si_run [OF this abs_run_op [OF iw tw assms(3)]]
  show "si_step (abs_sys s) (Op i op r) (abs_sys s')" unfolding s'_def abs_sys_update .
qed

lemma sim_drop:
  assumes "sys_inv s" "map_of (live s) i = Some tx" "Transaction_drop tx (sys_db s) = Some db'"
  defines "s' \<equiv> \<lparr>sys_db = db', live = om_remove i (live s)\<rparr>"
  shows "sys_inv s'" and "si_step (abs_sys s) (Dropped i) (abs_sys s')"
proof -
  obtain db'' tv tc where d: "Transaction_drop tx (sys_db s) = Some db''"
    "db_inner db'' = (sys_inner s)\<lparr>counter_by_commit := tc, counter_by_oracle := tv\<rparr>"
    "counters_inv tv (version_handles (om_remove i (live s)))"
    "counters_inv tc (commit_handles (om_remove i (live s)))"
    by (rule drop_effect [OF assms(1,2)])
  with assms(3) have b: "db_inner db' = (sys_inner s)\<lparr>counter_by_commit := tc, counter_by_oracle := tv\<rparr>" by simp
  show "sys_inv s'"
    using assms(1) d(3,4)
    by (auto simp: sys_inv_def s'_def b om_wf_remove set_om_remove inner_wf_def live_ok_def)
  have same: "abs_tx (db_inner db') = abs_tx (sys_inner s)" by (simp add: fun_eq_iff abs_tx_def b)
  have "abs_sys s' = (abs_sys s)\<lparr>txs := (txs (abs_sys s))(i := None)\<rparr>"
    by (auto simp: abs_sys_def s'_def map_of_om_remove b same [unfolded b] fun_eq_iff)
  then show "si_step (abs_sys s) (Dropped i) (abs_sys s')"
    using si_drop [of "abs_sys s" i] assms(2) by (simp add: abs_sys_def)
qed


lemma closed_tx_ok:
  assumes "tx_wf tx"
  shows "tx_wf (closed_tx tx)" and "same_snapshot tx (closed_tx tx)"
    and "abs_tx db (closed_tx tx) = si_close (abs_tx db tx)"
proof -
  have "tx_wf (tx\<lparr>tx_done := True, tx_writeset := []\<rparr>)" using assms by (simp add: tx_wf_def)
  then show "tx_wf (closed_tx tx)" by (rule tx_wf_clear)
  show "same_snapshot tx (closed_tx tx)" by (simp add: same_snapshot_def clear_writeset_def clear_readset_def)
  show "abs_tx db (closed_tx tx) = si_close (abs_tx db tx)"
    by (simp add: abs_tx_def clear_writeset_def clear_readset_def si_close_def)
qed

text \<open>A commit that reports a conflict: the counters move, nothing a client can see does.\<close>

lemma sim_commit_conflict:
  assumes "sys_inv s" "map_of (live s) i = Some tx" "transaction_commit_id (sys_inner s) < u64_MAX"
    and "\<not> tx_done tx" "tx_writeset tx \<noteq> []" "commit_conflict tx (sys_inner s) = Some e"
  defines "inner' \<equiv> (sys_inner s)\<lparr>transaction_queue_id := transaction_queue_id (sys_inner s) + 1,
       transaction_commit_id := transaction_commit_id (sys_inner s) + 1\<rparr>"
  defines "s' \<equiv> \<lparr>sys_db = (sys_db s)\<lparr>db_inner := inner'\<rparr>, live = om_insert i (closed_tx tx) (live s)\<rparr>"
  shows "sys_inv s'" and "si_step (abs_sys s) (Committed i (Inl e)) (abs_sys s')"
proof -
  have iw: "inner_wf (sys_inner s)" and ok: "tx_wf tx" "tx_commit tx \<le> transaction_commit_id (sys_inner s)"
    using assms(1) sys_inv_live(1) [OF assms(1,2)] by (simp_all add: sys_inv_def live_ok_def)
  have up: "c \<le> transaction_commit_id (sys_inner s) \<Longrightarrow> c \<le> transaction_commit_id (sys_inner s) + 1" for c
    using u64_less_Suc [OF assms(3)] by (meson less_imp_le order_trans)
  have s0: "sys_inv (s\<lparr>live := om_insert i (closed_tx tx) (live s)\<rparr>)"
    by (rule inv_update [OF assms(1,2) closed_tx_ok(2,1) [OF ok(1)]])
  then show "sys_inv s'"
    using up by (auto simp: sys_inv_def s'_def inner'_def inner_wf_def queue_wf_def live_ok_def)
  have same: "abs_tx inner' = abs_tx (sys_inner s)" by (simp add: fun_eq_iff abs_tx_def inner'_def)
  have "abs_sys s' = (abs_sys s)\<lparr>txs := (txs (abs_sys s))(i \<mapsto> si_close (abs_tx (sys_inner s) tx))\<rparr>"
    by (auto simp: abs_sys_def s'_def map_of_om_insert same closed_tx_ok(3) [OF ok(1)] fun_eq_iff)
      (simp add: inner'_def)
  moreover have "txs (abs_sys s) i = Some (abs_tx (sys_inner s) tx)" using assms(2) by (simp add: abs_sys_def)
  ultimately show "si_step (abs_sys s) (Committed i (Inl e)) (abs_sys s')"
    using si_commit_conflict [of "abs_sys s" i "abs_tx (sys_inner s) tx" e] assms(4-6)
      commit_conflict_cases [OF iw ok(1) assms(5,3) ok(2)]
    by (simp add: abs_tx_def dom_map_of_conv_image_fst)
qed

lemma sim_commit_install:
  fixes p :: "Persistence option"
  assumes "sys_inv s" "map_of (live s) i = Some tx" "transaction_commit_id (sys_inner s) < u64_MAX"
    and "\<not> tx_done tx" "tx_writeset tx \<noteq> []" "commit_conflict tx (sys_inner s) = None"
    and "timestamp (ts_oracle (sys_inner s)) < ver" "r = Inr () \<or> (\<exists>e. r = Inl (TxCommitNotPersisted e))"
  defines "inner' \<equiv> committed_state ver tx (sys_inner s) p"
  defines "s' \<equiv> \<lparr>sys_db = (sys_db s)\<lparr>db_inner := inner'\<rparr>, live = om_insert i (closed_tx tx) (live s)\<rparr>"
  shows "sys_inv s'" and "si_step (abs_sys s) (Committed i r) (abs_sys s')"
proof -
  let ?db = "sys_inner s"
  have iw: "inner_wf ?db" and ok: "tx_wf tx" "tx_commit tx \<le> transaction_commit_id ?db" and wfl: "om_wf (live s)"
    using assms(1) sys_inv_live(1) [OF assms(1,2)] by (simp_all add: sys_inv_def live_ok_def)
  note cs = committed_state_props [OF iw ok(1) assms(5,3,7), where p = p, folded inner'_def]
  have ts: "timestamp (ts_oracle inner') = ver" using assms(7) by (simp add: inner'_def max_absorb2 less_imp_le)
  have up: "c \<le> transaction_commit_id ?db \<Longrightarrow> c \<le> transaction_commit_id ?db + 1" for c
    using u64_less_Suc [OF assms(3)] by (meson less_imp_le order_trans)
  have s0: "sys_inv (s\<lparr>live := om_insert i (closed_tx tx) (live s)\<rparr>)"
    by (rule inv_update [OF assms(1,2) closed_tx_ok(2,1) [OF ok(1)]])
  have tv: "v \<le> timestamp (ts_oracle ?db) \<Longrightarrow> v \<le> ver \<and> v < ver" for v using assms(7) by auto
  have fields: "gc_floor inner' = gc_floor ?db" "transaction_commit_id inner' = transaction_commit_id ?db + 1"
    "counter_by_oracle inner' = counter_by_oracle ?db" "counter_by_commit inner' = counter_by_commit ?db"
    by (simp_all add: inner'_def)
  have lk: "live_ok inner' u" if "live_ok ?db u" for u
    using that up tv by (simp add: live_ok_def fields ts)
  have "gc_floor ?db \<le> ver" using assms(1) tv by (simp add: sys_inv_def)
  with s0 lk cs(1) show "sys_inv s'"
    by (simp add: sys_inv_def s'_def fields ts)
  have abs: "abs_tx inner' u = (abs_tx ?db u)\<lparr>changed := changed (abs_tx ?db u) \<union> fst ` set (tx_writeset tx)\<rparr>"
    if "live_ok ?db u" for u
    using that tv cs(2,4) by (simp add: abs_tx_def live_ok_def)
  have cl: "live_ok ?db (closed_tx tx)" using s0 by (simp add: sys_inv_def set_om_insert [OF wfl])
  let ?t = "abs_tx ?db tx"
  have buf: "buffer ?t = map_of (tx_writeset tx)" "dom (map_of (tx_writeset tx)) = fst ` set (tx_writeset tx)"
    by (simp_all add: abs_tx_def dom_map_of_conv_image_fst)
  have now: "now (abs_sys s') = si_install (buffer ?t) (now (abs_sys s))"
    by (simp add: abs_sys_def s'_def ts cs(3) si_install_def fun_eq_iff buf)
  have "txs (abs_sys s') j = map_option (\<lambda>u. u\<lparr>changed := changed u \<union> dom (buffer ?t)\<rparr>)
      (((txs (abs_sys s))(i \<mapsto> si_close ?t)) j)" for j
  proof (cases "j = i")
    case True
    then show ?thesis
      using abs [OF cl] by (simp add: abs_sys_def s'_def map_of_om_insert closed_tx_ok(3) [OF ok(1)] buf)
  next
    case False
    then show ?thesis
      using abs [OF sys_inv_live(1) [OF assms(1)]]
      by (cases "map_of (live s) j") (simp_all add: abs_sys_def s'_def map_of_om_insert buf)
  qed
  with now have "abs_sys s' = \<lparr>now = si_install (buffer ?t) (now (abs_sys s)),
      txs = map_option (\<lambda>u. u\<lparr>changed := changed u \<union> dom (buffer ?t)\<rparr>) \<circ> ((txs (abs_sys s))(i \<mapsto> si_close ?t))\<rparr>"
    by (intro SI.equality) (auto simp: fun_eq_iff)
  moreover have "txs (abs_sys s) i = Some ?t" using assms(2) by (simp add: abs_sys_def)
  moreover have "\<not> si_conflicts ?t"
    using commit_conflict_cases [OF iw ok(1) assms(5,3) ok(2)] assms(6)
    by (auto simp: si_conflicts_def abs_tx_def dom_map_of_conv_image_fst)
  ultimately show "si_step (abs_sys s) (Committed i r) (abs_sys s')"
    using si_commit_install [of "abs_sys s" i ?t r] assms(4,5,8) by (simp add: abs_tx_def)
qed


lemma sim_internal:
  assumes "sys_inv s" and "step s Internal s'"
  shows "sys_inv s' \<and> si_step (abs_sys s) Internal (abs_sys s')"
proof -
  from step_Internal_silent [OF assms(2,1)] obtain db' where s': "s' = s\<lparr>sys_db := db'\<rparr>"
    and sil: "silent (live s) (sys_inner s) (db_inner db')" by blast
  have "om_wf (live s)" using assms(1) by (simp add: sys_inv_def)
  from silent_inv [OF assms(1) sil refl] silent_abs [OF sil this] show ?thesis
    by (simp add: s' si_internal)
qed

lemma step_simulates:
  assumes "sys_inv s" and "step s e s'"
  shows "sys_inv s' \<and> si_step (abs_sys s) e (abs_sys s')"
proof (cases "e = Internal")
  case True
  with assms sim_internal show ?thesis by simp
next
  case False
  from assms(2) show ?thesis
  proof (cases rule: step.cases)
    case (step_begin wr tx db' i)
    then show ?thesis using sim_begin [OF assms(1)] by simp
  next
    case (step_op i tx op r tx')
    then show ?thesis using sim_op [OF assms(1)] by simp
  next
    case (step_drop i tx db')
    then show ?thesis using sim_drop [OF assms(1)] by simp
  next
    case (step_commit i tx w r tx' inner')
    from assms(1) step_commit(3,5,6) show ?thesis
    proof (cases rule: commit_effect [where w = w])
      case closed
      with step_commit have s': "s' = s\<lparr>live := om_insert i tx (live s)\<rparr>" and e: "e = Committed i (Inl TxClosed)"
        by simp_all
      have "map_of (live s) i = Some tx" by (rule step_commit(3))
      then have "abs_sys s' = abs_sys s" by (auto simp: s' abs_sys_update) (auto simp: abs_sys_def)
      moreover have "sys_inv s'"
        unfolding s' using inv_update [OF assms(1) step_commit(3)] sys_inv_live(1) [OF assms(1) step_commit(3)]
        by (simp add: live_ok_def)
      moreover have "txs (abs_sys s) i = Some (abs_tx (sys_inner s) tx)" "si_closed (abs_tx (sys_inner s) tx)"
        using closed(1) step_commit(3) by (simp_all add: abs_sys_def abs_tx_def)
      ultimately show ?thesis using si_commit_closed by (simp add: e)
    next
      case empty
      with step_commit have s': "s' = s\<lparr>live := om_insert i (tx\<lparr>tx_done := True\<rparr>) (live s)\<rparr>"
        and e: "e = Committed i (Inr ())" by simp_all
      have "sys_inv s'"
        unfolding s' using inv_update [OF assms(1) step_commit(3)] sys_inv_live(1) [OF assms(1) step_commit(3)]
        by (simp add: live_ok_def same_snapshot_def tx_wf_def)
      moreover have "abs_tx (sys_inner s) (tx\<lparr>tx_done := True\<rparr>) = (abs_tx (sys_inner s) tx)\<lparr>si_closed := True\<rparr>"
        by (simp add: abs_tx_def)
      moreover have "txs (abs_sys s) i = Some (abs_tx (sys_inner s) tx)" "\<not> si_closed (abs_tx (sys_inner s) tx)"
        "buffer (abs_tx (sys_inner s) tx) = Map.empty"
        using empty(1,2) step_commit(3) by (simp_all add: abs_sys_def abs_tx_def)
      ultimately show ?thesis using si_commit_empty by (simp add: e s' abs_sys_update)
    next
      case (conflict ce)
      with step_commit sim_commit_conflict [OF assms(1) step_commit(3,6) conflict(1-3)] show ?thesis by simp
    next
      case (passed ver r' p)
      with step_commit sim_commit_install [OF assms(1) step_commit(3,6) passed(1-5), of p] show ?thesis by auto
    qed
  qed (use False in simp_all)
qed


interpretation si: simulation step si_step abs_sys sys_inv
  by unfold_locales (simp_all add: step_simulates)

section \<open>Properties of the abstract machine\<close>

text \<open>A transaction's snapshot differs from the current values only at keys committed since.\<close>

definition si_fresh :: "SI \<Rightarrow> bool" where
  "si_fresh a \<longleftrightarrow> (\<forall>i t k. txs a i = Some t \<longrightarrow> now a k \<noteq> snap t k \<longrightarrow> k \<in> changed t)"

lemma si_op_frame:
  assumes "si_op op t = (r, t')"
  shows "snap t' = snap t" and "changed t' = changed t"
  using assms by (cases op; auto simp: si_guarded_def si_note_def si_close_def split: if_splits sum.splits)+

lemma si_fresh_step:
  assumes "si_fresh a" and "si_step a e a'"
  shows "si_fresh a'"
  using assms(2)
proof (cases rule: si_step.cases)
  case (si_begin i wr)
  with assms(1) show ?thesis by (auto simp: si_fresh_def si_new_def)
next
  case (si_run i t op r t')
  with assms(1) si_op_frame show ?thesis by (fastforce simp: si_fresh_def)
next
  case (si_commit_install i t r)
  have "k \<in> changed u" if "txs a' j = Some u" "now a' k \<noteq> snap u k" for j u k
  proof -
    define m where "m = (txs a)(i \<mapsto> si_close t)"
    have "txs a' j = map_option (\<lambda>u. u\<lparr>changed := changed u \<union> dom (buffer t)\<rparr>) (m j)"
      using si_commit_install(2) by (simp add: m_def)
    with that(1) obtain v where v: "m j = Some v" "u = v\<lparr>changed := changed v \<union> dom (buffer t)\<rparr>"
      by (cases "m j") auto
    have "\<exists>v0. txs a j = Some v0 \<and> snap v0 = snap v \<and> changed v0 = changed v"
      using v(1) si_commit_install(3) by (cases "j = i") (auto simp: m_def si_close_def)
    with v(2) obtain v0 where v0: "txs a j = Some v0" "snap v0 = snap u" "changed u = changed v0 \<union> dom (buffer t)"
      by auto
    show ?thesis
    proof (cases "buffer t k")
      case None
      then have "now a' k = now a k" using si_commit_install by (simp add: si_install_def)
      with that(2) v0 assms(1) show ?thesis by (auto simp: si_fresh_def)
    next
      case (Some x)
      with v0 show ?thesis by auto
    qed
  qed
  then show ?thesis by (auto simp: si_fresh_def)
qed (use assms(1) in \<open>auto simp: si_fresh_def si_close_def split: if_splits\<close>)

text \<open>What an acknowledged commit guarantees: the keys it wrote, and under the stricter level the keys
  it read, still had the values of its snapshot.\<close>

lemma si_commit_validated:
  assumes "si_fresh a" "si_step a (Committed i (Inr ())) a'" "txs a i = Some t" "\<not> si_closed t"
  shows "k \<in> dom (buffer t) \<Longrightarrow> now a k = snap t k"
    and "si_mode t = SerializableSnapshotIsolation \<Longrightarrow> buffer t \<noteq> Map.empty \<Longrightarrow> k \<in> reads t \<Longrightarrow> now a k = snap t k"
    and "now a' = si_install (buffer t) (now a)"
proof -
  have *: "(k \<in> dom (buffer t) \<longrightarrow> now a k = snap t k) \<and>
      (si_mode t = SerializableSnapshotIsolation \<longrightarrow> buffer t \<noteq> Map.empty \<longrightarrow> k \<in> reads t \<longrightarrow> now a k = snap t k)
      \<and> now a' = si_install (buffer t) (now a)"
    using assms(2)
  proof (cases rule: si_step.cases)
    case (si_commit_empty u)
    with assms(3) show ?thesis by (auto simp: si_install_def fun_eq_iff)
  next
    case (si_commit_install u)
    with assms(1,3) show ?thesis by (fastforce simp: si_conflicts_def si_fresh_def)
  qed
  then show "k \<in> dom (buffer t) \<Longrightarrow> now a k = snap t k"
    and "si_mode t = SerializableSnapshotIsolation \<Longrightarrow> buffer t \<noteq> Map.empty \<Longrightarrow> k \<in> reads t \<Longrightarrow> now a k = snap t k"
    and "now a' = si_install (buffer t) (now a)" by auto
qed

text \<open>A snapshot does not change until its transaction is dropped.\<close>

lemma si_snap_step:
  assumes "si_step a e a'" "txs a i = Some t" "e \<noteq> Dropped i"
  shows "\<exists>t'. txs a' i = Some t' \<and> snap t' = snap t"
  using assms(1)
proof (cases rule: si_step.cases)
  case (si_run j u op r u')
  with assms(2) si_op_frame show ?thesis by (cases "j = i") auto
qed (use assms(2,3) in \<open>auto simp: si_close_def split: if_splits\<close>)

lemma si_snap_trace:
  "trace si_step a es a' \<Longrightarrow> txs a i = Some t \<Longrightarrow> Dropped i \<notin> set es \<Longrightarrow>
     \<exists>t'. txs a' i = Some t' \<and> snap t' = snap t"
proof (induction arbitrary: t rule: trace.induct)
  case (trace_Nil s)
  then show ?case by simp
next
  case (trace_Cons s e s1 es s2)
  then obtain t1 where "txs s1 i = Some t1" "snap t1 = snap t" using si_snap_step by fastforce
  with trace_Cons show ?case by fastforce
qed

section \<open>Initial and reachable states\<close>

text \<open>
  A database that starts without files is empty.  One that is loaded from files starts in a good
  state when the wall clock is not behind the versions in the files: \<open>load\<close> does not move the oracle.
\<close>

inductive reachable :: "System \<Rightarrow> bool" where
  reachable_new: "reachable \<lparr>sys_db = db, live = []\<rparr>" if "new_with_options opts unix clk = Some db"
| reachable_loaded: "reachable \<lparr>sys_db = db, live = []\<rparr>"
    if "new_with_persistence cdc env opts popts disk unix clk = Some (Inr db)"
      "store_newest_le (datastore (db_inner db)) (timestamp (ts_oracle (db_inner db)))"
| reachable_step: "reachable s'" if "reachable s" "step s e s'"

lemma start_workers_inner:
  "\<exists>a b. db_inner (start_workers opts db) = (db_inner db)\<lparr>transaction_cleanup_handle := a, garbage_collection_handle := b\<rparr>"
proof -
  have "inner = inner\<lparr>transaction_cleanup_handle := transaction_cleanup_handle inner,
      garbage_collection_handle := garbage_collection_handle inner\<rparr>" for inner :: Inner by simp
  then show ?thesis
    by (cases "db_inner db") (auto simp: start_workers_def initialise_cleanup_worker_def initialise_garbage_worker_def Let_def)
qed

lemma initial_inv:
  assumes "Inner_new opts unix clk = Some inner" "store_wf ds"
    and "store_newest_le ds (timestamp (ts_oracle inner))"
  shows "sys_inv \<lparr>sys_db = start_workers opts (Database_of opts (inner\<lparr>datastore := ds, persistence := p\<rparr>)), live = []\<rparr>"
proof -
  obtain a b where eq: "db_inner (start_workers opts (Database_of opts (inner\<lparr>datastore := ds, persistence := p\<rparr>)))
      = inner\<lparr>datastore := ds, persistence := p, transaction_cleanup_handle := a, garbage_collection_handle := b\<rparr>"
    using start_workers_inner [of opts "Database_of opts (inner\<lparr>datastore := ds, persistence := p\<rparr>)"]
    by (auto simp: Database_of_def)
  from assms(1) have i: "transaction_merge_queue inner = []" "transaction_commit_queue inner = []" "gc_floor inner = 0"
    "counter_by_oracle inner = Counters_new" "counter_by_commit inner = Counters_new"
    by (auto simp: Inner_new_def split: option.splits)
  show ?thesis
    using assms(2,3) by (simp add: sys_inv_def eq inner_wf_def queue_wf_def i counters_inv_new
        version_handles_def commit_handles_def)
qed

end
