(* ===== verification/Recovery.thy ===== *)
theory Recovery
  imports Isolation_Spec
begin

text \<open>
  Recovery from disk.  The laws of the bincode codec are a predicate on the codec argument; under
  them the decode loops invert the encoders, a snapshot followed by a load gives back the history of
  every key, and replaying the log on top of a snapshot gives the state the commits had reached.
\<close>

section \<open>The codec\<close>

text \<open>
  Documented behaviour of the codec: a record decodes to itself and leaves the rest of the input,
  the end of the input is reported as such, and no record is empty.
\<close>

definition codec_law :: "codec \<Rightarrow> bool" where
  "codec_law cdc \<longleftrightarrow>
     (\<forall>e rest. dec_chain cdc (enc_chain cdc e @ rest) = Decoded e rest) \<and> dec_chain cdc [] = UnexpectedEof
     \<and> (\<forall>e rest. dec_log cdc (enc_log cdc e @ rest) = Decoded e rest) \<and> dec_log cdc [] = UnexpectedEof
     \<and> lz4_law (lz4_lib cdc)"

lemma decode_loop_entries:
  assumes "\<And>e rest. dec (enc e @ rest) = Decoded e rest"
  shows "decode_loop dec f (concat (map enc es) @ tail) ds = decode_loop dec f tail (fold f es ds)"
proof (induction es arbitrary: ds)
  case Nil
  then show ?case by simp
next
  case (Cons e es)
  then show ?case by (subst decode_loop.simps) (simp add: assms)
qed

lemma decode_loop_Eof: "dec bs = UnexpectedEof \<Longrightarrow> decode_loop dec f bs ds = Some (Inr ds)"
  by (subst decode_loop.simps) simp

lemma decode_loop_all:
  assumes "\<And>e rest. dec (enc e @ rest) = Decoded e rest" and "dec [] = UnexpectedEof"
  shows "decode_loop dec f (concat (map enc es)) ds = Some (Inr (fold f es ds))"
  using decode_loop_entries [of dec enc f es "[]" ds, OF assms(1)] decode_loop_Eof [of dec, OF assms(2)] by simp

text \<open>A record cut short by a crash at the end of the log ends the replay without an error.\<close>

lemma decode_loop_torn:
  assumes "\<And>e rest. dec (enc e @ rest) = Decoded e rest" and "dec torn = UnexpectedEof"
  shows "decode_loop dec f (concat (map enc es) @ torn) ds = Some (Inr (fold f es ds))"
  using decode_loop_entries [of dec enc f es torn ds, OF assms(1)] decode_loop_Eof [of dec, OF assms(2)] by simp

section \<open>A chain through a snapshot\<close>

text \<open>Pushing newer and newer versions appends to the history.\<close>

lemma foldl_push_history:
  assumes "ssorted (map version (acc @ xs))" and "versions_wf vs" and "set vs \<subseteq> set acc"
    and "\<And>w. fetch_version vs w = value_at acc w"
  shows "versions_wf (foldl push vs xs) \<and> set (foldl push vs xs) \<subseteq> set (acc @ xs)
    \<and> (\<forall>w. fetch_version (foldl push vs xs) w = value_at (acc @ xs) w)"
  using assms
proof (induction xs arbitrary: acc vs)
  case Nil
  then show ?case by simp
next
  case (Cons x xs)
  have below: "version y < version x" if "y \<in> set acc" for y
    using Cons.prems(1) that by (auto simp: sorted_wrt_append)
  then have newest: "versions_newest_le vs (version x)"
    using Cons.prems(3) by (force simp: versions_newest_le_def)
  have "fetch_version (push vs x) w = value_at (acc @ [x]) w" for w
    using vc.fetch_add_below [OF Cons.prems(2), of w x] vc.fetch_add_newest [OF Cons.prems(2) newest, of w]
      Cons.prems(4) by (auto simp: value_at_append value_at_def [of "[x]"] not_le)
  moreover have "set (push vs x) \<subseteq> set (acc @ [x])"
    using set_push_subset [OF Cons.prems(2), of x] Cons.prems(3) by auto
  ultimately show ?case
    using Cons.IH [of "acc @ [x]" "push vs x"] Cons.prems(1,2) vc.wf_add by simp
qed

lemma load_all_versions:
  assumes "versions_wf vs"
  defines "vs' \<equiv> foldl (\<lambda>vs (v, x). push vs \<lparr>version = v, value_of = x\<rparr>) Versions_new (all_versions vs)"
  shows "versions_wf vs'" and "set vs' \<subseteq> set vs" and "fetch_version vs' w = fetch_version vs w"
proof -
  have "\<lparr>version = version x, value_of = value_of x\<rparr> = x" for x :: Version by simp
  then have eq: "vs' = foldl push [] vs"
    unfolding vs'_def Versions_new_def all_versions_def by (simp only: foldl_map prod.case)
  have "versions_wf []" "ssorted (map version ([] @ vs))" using assms(1) by (simp_all add: versions_wf_def)
  from foldl_push_history [OF this(2,1)] show "versions_wf vs'" "set vs' \<subseteq> set vs"
    "fetch_version vs' w = fetch_version vs w"
    using assms(1) by (simp_all add: eq fetch_version_value_at)
qed


section \<open>Replaying the log\<close>

lemma replay_log_props:
  assumes "store_wf ds" and "store_newest_le ds v"
  shows "store_wf (replay_log (k, v, x) ds)" and "store_newest_le (replay_log (k, v, x) ds) v"
    and "store_fetch (replay_log (k, v, x) ds) j w = (if v \<le> w \<and> j = k then x else store_fetch ds j w)"
proof -
  let ?i = "\<lparr>version = v, value_of = x\<rparr>"
  have "\<exists>vs. replay_log (k, v, x) ds = om_insert k vs ds \<and> versions_wf vs \<and> versions_newest_le vs v
      \<and> (\<forall>w. fetch_version vs w = (if v \<le> w then x else store_fetch ds k w))"
  proof (cases "map_of ds k")
    case None
    then show ?thesis
      by (intro exI [of _ "Versions_from ?i"])
        (simp add: replay_log_def store_fetch_def fetch_version_from,
          simp add: Versions_from_def versions_wf_def versions_newest_le_def)
  next
    case (Some vs)
    note wf = store_wf_get [OF assms(1) Some] and le = store_newest_get [OF assms(2) Some]
    show ?thesis
      using vc.wf_add [OF wf, of ?i] vc.newest_le_add [OF le _ wf, of ?i]
        vc.fetch_add_below [OF wf, of _ ?i] vc.fetch_add_newest [OF wf, of ?i] le Some
      by (intro exI [of _ "push vs ?i"]) (auto simp: replay_log_def store_fetch_def not_le)
  qed
  then obtain vs where vs: "replay_log (k, v, x) ds = om_insert k vs ds" "versions_wf vs" "versions_newest_le vs v"
    "\<And>w. fetch_version vs w = (if v \<le> w then x else store_fetch ds k w)" by blast
  show "store_wf (replay_log (k, v, x) ds)" "store_newest_le (replay_log (k, v, x) ds) v"
    using assms vs by (simp_all add: store_wf_insert store_newest_insert)
  show "store_fetch (replay_log (k, v, x) ds) j w = (if v \<le> w \<and> j = k then x else store_fetch ds j w)"
    using vs by (auto simp: store_fetch_insert)
qed

lemma replay_commit_props:
  assumes "store_wf ds" and "store_newest_le ds v" and "distinct (ws_keys ws)"
  shows "store_wf (fold replay_log (log_entries v ws) ds)"
    and "store_newest_le (fold replay_log (log_entries v ws) ds) v"
    and "store_fetch (fold replay_log (log_entries v ws) ds) k w
      = store_fetch (fold (ds_write v) ws ds) k w"
proof -
  show "store_wf (fold replay_log (log_entries v ws) ds)"
    and "store_newest_le (fold replay_log (log_entries v ws) ds) v"
    using assms(1,2) by (induction ws arbitrary: ds) (auto simp: log_entries_def replay_log_props)
  have "store_fetch (fold replay_log (log_entries v ws) ds) k w
      = (case map_of ws k of Some x \<Rightarrow> if v \<le> w then x else store_fetch ds k w | None \<Rightarrow> store_fetch ds k w)"
    using assms
  proof (induction ws arbitrary: ds)
    case Nil
    then show ?case by (simp add: log_entries_def)
  next
    case (Cons e ws)
    obtain j x where e: "e = (j, x)" by fastforce
    have "map_of ws j = None" using Cons.prems by (auto simp: e map_of_eq_None_iff)
    with Cons replay_log_props [OF Cons.prems(1,2), of j x] show ?case
      by (auto simp: e log_entries_def split: option.splits)
  qed
  with fold_ds_write_props(3) [OF assms] show "store_fetch (fold replay_log (log_entries v ws) ds) k w
      = store_fetch (fold (ds_write v) ws ds) k w" by simp
qed

section \<open>Loading a snapshot\<close>

lemma load_chain_props:
  assumes "store_wf ds" "versions_wf vs" "vs \<noteq> []"
  shows "store_wf (load_chain (k, all_versions vs) ds)"
    and "store_newest_le ds m \<Longrightarrow> versions_newest_le vs m \<Longrightarrow> store_newest_le (load_chain (k, all_versions vs) ds) m"
    and "store_fetch (load_chain (k, all_versions vs) ds) j w = (if j = k then fetch_version vs w else store_fetch ds j w)"
proof -
  have ne: "all_versions vs \<noteq> []" using assms(3) by (simp add: all_versions_def)
  note ld = load_all_versions [OF assms(2)]
  show "store_wf (load_chain (k, all_versions vs) ds)"
    using assms(1) ne ld(1) by (simp add: load_chain_def store_wf_insert)
  show "store_fetch (load_chain (k, all_versions vs) ds) j w = (if j = k then fetch_version vs w else store_fetch ds j w)"
    using ne ld(3) by (simp add: load_chain_def store_fetch_insert)
  show "store_newest_le (load_chain (k, all_versions vs) ds) m" if "store_newest_le ds m" "versions_newest_le vs m"
  proof -
    have "versions_newest_le (foldl (\<lambda>vs (v, x). push vs \<lparr>version = v, value_of = x\<rparr>) Versions_new (all_versions vs)) m"
      using ld(2) that(2) by (auto simp: versions_newest_le_def)
    with that(1) assms(1) ne show ?thesis by (simp add: load_chain_def store_newest_insert)
  qed
qed

lemma fold_load_chain:
  assumes "\<forall>e\<in>set xs. versions_wf (snd e)" "distinct (map fst xs)" "store_wf ds"
  defines "ds' \<equiv> fold load_chain (chain_entries xs) ds"
  shows "store_wf ds'"
    and "store_newest_le ds m \<Longrightarrow> \<forall>e\<in>set xs. versions_newest_le (snd e) m \<Longrightarrow> store_newest_le ds' m"
    and "\<forall>e\<in>set xs. map_of ds (fst e) = None \<Longrightarrow> store_fetch ds' k w
      = (case map_of xs k of Some vs \<Rightarrow> fetch_version vs w | None \<Rightarrow> store_fetch ds k w)"
  unfolding ds'_def using assms(1-3)
proof (induction xs arbitrary: ds)
  case Nil
  { case 1 then show ?case by (simp add: chain_entries_def) }
  { case 2 then show ?case by (simp add: chain_entries_def) }
  { case 3 then show ?case by (simp add: chain_entries_def) }
next
  case (Cons e xs)
  obtain j vs where e: "e = (j, vs)" by fastforce
  have skip: "chain_entries ((j, vs) # xs) = (if vs = [] then chain_entries xs else (j, all_versions vs) # chain_entries xs)"
    by (simp add: chain_entries_def all_versions_def)
  { case 1
    then show ?case using Cons.IH(1) load_chain_props(1) by (simp add: skip e)
  next
    case 2
    then show ?case using Cons.IH(2) load_chain_props(1,2) by (simp add: skip e)
  next
    case 3
    then have nj: "map_of xs j = None" and dj: "map_of ds j = None" by (auto simp: e map_of_eq_None_iff)
    show ?case
    proof (cases "vs = []")
      case True
      have "chain_entries ((j, []) # xs) = chain_entries xs" using skip True by simp
      moreover have "store_fetch ds j w = None" using dj by (simp add: store_fetch_def)
      ultimately show ?thesis using True 3 Cons.IH(3) [of ds] nj by (auto simp: e)
    next
      case False
      have fresh: "map_of (load_chain (j, all_versions vs) ds) (fst x) = None" if "x \<in> set xs" for x
        using 3 that False nj by (auto simp: e load_chain_def map_of_om_insert all_versions_def map_of_eq_None_iff)
      with 3 False Cons.IH(3) [of "load_chain (j, all_versions vs) ds"] load_chain_props [of ds vs] nj show ?thesis
        by (auto simp: skip e split: option.splits)
    qed
  }
qed


section \<open>Snapshots on disk\<close>

abbreviation no_faults :: "io_env \<Rightarrow> bool" where
  "no_faults env \<equiv> (\<forall>st. fault env st = None)"

text \<open>The three files are distinct and the log fits a 64-bit length.\<close>

definition paths_ok :: "Persistence \<Rightarrow> bool" where
  "paths_ok p \<longleftrightarrow> aol_path p \<noteq> snapshot_path p \<and> temp_path p \<noteq> aol_path p \<and> temp_path p \<noteq> snapshot_path p
     \<and> length (file_of p (aol_path p)) < 2 ^ 64"

lemma attempt_ok [simp]: "no_faults env \<Longrightarrow> attempt env st wrap p k = k p"
  by (simp add: attempt_def)

lemma file_ops [simp]:
  "files (write_file f bs p) = (files p)(f \<mapsto> bs)" "files (remove_file f p) = (files p)(f := None)"
  "files (sync_file f p) = files p" "durable (sync_file f p) = (durable p)(f := files p f)"
  "durable (write_file f bs p) = durable p" "durable (remove_file f p) = durable p"
  by (simp_all add: write_file_def remove_file_def sync_file_def)

lemma file_ops_fields [simp]:
  "aol (write_file f bs p) = aol p" "aol_path (write_file f bs p) = aol_path p"
  "snapshot_path (write_file f bs p) = snapshot_path p" "compression_mode (write_file f bs p) = compression_mode p"
  "aol (remove_file f p) = aol p" "aol_path (remove_file f p) = aol_path p"
  "snapshot_path (remove_file f p) = snapshot_path p" "compression_mode (remove_file f p) = compression_mode p"
  "aol (sync_file f p) = aol p" "aol_path (sync_file f p) = aol_path p"
  "snapshot_path (sync_file f p) = snapshot_path p" "compression_mode (sync_file f p) = compression_mode p"
  by (simp_all add: write_file_def remove_file_def sync_file_def)

lemma temp_path_fields [simp]:
  "temp_path (write_file f bs p) = temp_path p" "temp_path (remove_file f p) = temp_path p"
  "temp_path (sync_file f p) = temp_path p"
  by (simp_all add: temp_path_def)

lemma truncate_idle:
  assumes "no_faults env" "aol p" "length (file_of p (aol_path p)) \<le> unat position"
  shows "truncate_aol env position p = (Inr (), if position = 0 then (write_file (aol_path p) [] p)\<lparr>pending_syncs := 0\<rparr>
    else write_file (aol_path p) [] p)"
  using assms by (simp add: truncate_aol_def Let_def)

lemma truncate_grown:
  assumes "no_faults env" "aol p" "unat position < length (file_of p (aol_path p))"
  shows "fst (truncate_aol env position p) = Inr ()"
    and "file_of (snd (truncate_aol env position p)) (aol_path p)
      = file_of p (aol_path p) @ drop (unat position) (file_of p (aol_path p))"
  using assms by (simp_all add: truncate_aol_def Let_def append_file_def) (simp_all add: file_of_def)

lemma snapshot_ok:
  assumes "no_faults env" "paths_ok p"
  shows "fst (snapshot cdc env ds p) = Inr ()"
    and "files (snd (snapshot cdc env ds p)) (snapshot_path p)
      = Some (CompressedWriter_finish (CompressedWriter_output (lz4_lib cdc) (compression_mode p) (encode_chains cdc ds)))"
    and "durable (snd (snapshot cdc env ds p)) (snapshot_path p) = files (snd (snapshot cdc env ds p)) (snapshot_path p)"
    and "files (snd (snapshot cdc env ds p)) (aol_path p) = (if aol p then Some [] else files p (aol_path p))"
    and "snapshot_path (snd (snapshot cdc env ds p)) = snapshot_path p" "aol_path (snd (snapshot cdc env ds p)) = aol_path p"
proof -
  let ?out = "CompressedWriter_finish (CompressedWriter_output (lz4_lib cdc) (compression_mode p) (encode_chains cdc ds))"
  let ?p = "sync_file (snapshot_path p) (remove_file (temp_path p) (write_file (snapshot_path p) ?out
    (write_file (temp_path p) ?out (write_file (temp_path p) [] p))))"
  have ne: "aol_path p \<noteq> snapshot_path p" "temp_path p \<noteq> aol_path p" "temp_path p \<noteq> snapshot_path p"
    using assms(2) by (simp_all add: paths_ok_def)
  have fo: "file_of (write_file f bs q) f = bs" "g \<noteq> f \<Longrightarrow> file_of (write_file f bs q) g = file_of q g"
    "file_of (sync_file f q) g = file_of q g" "g \<noteq> f \<Longrightarrow> file_of (remove_file f q) g = file_of q g" for f g bs q
    by (simp_all add: file_of_def)
  have len: "length (file_of p (aol_path p)) \<le> unat (of_nat (length (file_of p (aol_path p))) :: u64)"
    using assms(2) by (simp add: paths_ok_def unat_of_nat)
  have body: "snapshot_body cdc env ds p = truncate_aol env
      (if aol p then of_nat (length (file_of p (aol_path p))) else 0) ?p"
    using assms(1) ne by (simp add: snapshot_body_def Let_def fo)
  have tr: "\<exists>q. truncate_aol env (if aol p then of_nat (length (file_of p (aol_path p))) else 0) ?p = (Inr (), q)
      \<and> files q = (if aol p then (files ?p)(aol_path p \<mapsto> []) else files ?p) \<and> durable q = durable ?p
      \<and> snapshot_path q = snapshot_path p \<and> aol_path q = aol_path p"
  proof (cases "aol p")
    case True
    have "length (file_of ?p (aol_path p)) \<le> unat (of_nat (length (file_of p (aol_path p))) :: u64)"
      using len ne by (simp add: fo)
    with truncate_idle [OF assms(1), of ?p] True show ?thesis by simp
  next
    case False
    then show ?thesis by (simp add: truncate_aol_def)
  qed
  then obtain q where q: "snapshot cdc env ds p = (Inr (), q)"
    "files q = (if aol p then (files ?p)(aol_path p \<mapsto> []) else files ?p)" "durable q = durable ?p"
    "snapshot_path q = snapshot_path p" "aol_path q = aol_path p"
    by (auto simp: snapshot_def body)
  show "fst (snapshot cdc env ds p) = Inr ()"
    "files (snd (snapshot cdc env ds p)) (snapshot_path p) = Some ?out"
    "durable (snd (snapshot cdc env ds p)) (snapshot_path p) = files (snd (snapshot cdc env ds p)) (snapshot_path p)"
    "files (snd (snapshot cdc env ds p)) (aol_path p) = (if aol p then Some [] else files p (aol_path p))"
    "snapshot_path (snd (snapshot cdc env ds p)) = snapshot_path p" "aol_path (snd (snapshot cdc env ds p)) = aol_path p"
    using q ne by auto
qed


section \<open>What the files of a running database stand for\<close>

definition quiet_env :: io_env where
  "quiet_env = \<lparr>fault = (\<lambda>_. None), spilled = 0, clock = 0\<rparr>"

abbreviation load_snapshot :: "codec \<Rightarrow> bytes option \<Rightarrow> (PersistenceError + datastore) option" where
  "load_snapshot cdc content \<equiv>
     load_file cdc (dec_chain cdc) load_chain quiet_env OpenSnapshot SnapshotMetadata content []"

text \<open>
  \<open>recovers\<close>: the snapshot loads, the log is a sequence of whole records, and the two together give
  the current value of every key at the oracle's timestamp.
\<close>

definition recovers :: "codec \<Rightarrow> Persistence \<Rightarrow> datastore \<Rightarrow> u64 \<Rightarrow> bool" where
  "recovers cdc p ds ts \<longleftrightarrow>
     (\<exists>base es. load_snapshot cdc (files p (snapshot_path p)) = Some (Inr base)
        \<and> file_of p (aol_path p) = encode_log cdc es
        \<and> store_wf (fold replay_log es base) \<and> store_newest_le (fold replay_log es base) ts
        \<and> (\<forall>k. store_fetch (fold replay_log es base) k ts = store_fetch ds k ts))"

lemma load_log:
  assumes "codec_law cdc" and "take 4 (encode_log cdc es) \<noteq> LZ4_MAGIC"
  shows "load_file cdc (dec_log cdc) replay_log quiet_env st st' (Some (encode_log cdc es)) ds
    = Some (Inr (fold replay_log es ds))"
proof (cases "encode_log cdc es = []")
  case True
  have "decode_loop (dec_log cdc) replay_log (encode_log cdc es) ds = Some (Inr (fold replay_log es ds))"
    unfolding encode_log_def using assms(1) by (intro decode_loop_all) (auto simp: codec_law_def)
  moreover have "decode_loop (dec_log cdc) replay_log [] ds = Some (Inr ds)"
    using assms(1) by (intro decode_loop_Eof) (simp add: codec_law_def)
  ultimately show ?thesis using True by (simp add: load_file_def quiet_env_def)
next
  case False
  have "decode_loop (dec_log cdc) replay_log (encode_log cdc es) ds = Some (Inr (fold replay_log es ds))"
    unfolding encode_log_def using assms(1) by (intro decode_loop_all) (auto simp: codec_law_def)
  moreover have "detect_mode (encode_log cdc es) = CompressionNone" using assms(2) by (simp add: detect_mode_None_iff)
  ultimately show ?thesis using False by (simp add: load_file_def quiet_env_def CompressedReader_new_def)
qed

lemma recovers_load:
  assumes "codec_law cdc" "recovers cdc p ds ts" "take 4 (file_of p (aol_path p)) \<noteq> LZ4_MAGIC"
  shows "\<exists>ds'. load cdc quiet_env p [] = Some (Inr ds') \<and> store_wf ds' \<and> store_newest_le ds' ts
    \<and> (\<forall>k. store_fetch ds' k ts = store_fetch ds k ts)"
proof -
  from assms(2) obtain base es where r: "load_snapshot cdc (files p (snapshot_path p)) = Some (Inr base)"
    "file_of p (aol_path p) = encode_log cdc es" "store_wf (fold replay_log es base)"
    "store_newest_le (fold replay_log es base) ts"
    "\<And>k. store_fetch (fold replay_log es base) k ts = store_fetch ds k ts"
    by (auto simp: recovers_def)
  have "load_file cdc (dec_log cdc) replay_log quiet_env OpenAol AolMetadata (files p (aol_path p)) base
      = Some (Inr (fold replay_log es base))"
  proof (cases "files p (aol_path p)")
    case None
    with r(2) have e: "encode_log cdc es = []" by (simp add: file_of_def)
    with load_log [OF assms(1), of es OpenAol AolMetadata base] have "fold replay_log es base = base"
      by (auto simp: load_file_def quiet_env_def LZ4_MAGIC_def)
    with None show ?thesis by (simp add: load_file_def)
  next
    case (Some bs)
    with r(2) assms(3) load_log [OF assms(1), of es] show ?thesis by (simp add: file_of_def)
  qed
  with r show ?thesis by (auto simp: load_def)
qed

text \<open>A committed write set appended to the log.\<close>

lemma append_sync_ok:
  assumes "no_faults env" "aol p" "aol_mode p = SynchronousOnCommit"
  shows "\<exists>p'. append cdc env v ws p = (Inr (), p')
    \<and> files p' = (files p)(aol_path p \<mapsto> file_of p (aol_path p) @ encode_log cdc (log_entries v ws))
    \<and> snapshot_path p' = snapshot_path p \<and> aol_path p' = aol_path p
    \<and> (fsync_mode p = EveryAppend \<longrightarrow> durable p' = (durable p)(aol_path p := files p' (aol_path p)))"
  using assms
  by (cases "fsync_mode p")
    (auto simp: append_def write_log_def fsync_policy_def Let_def append_file_def sync_file_def write_file_def)

lemma recovers_append:
  assumes "recovers cdc p ds ts" "ts < ver" "distinct (ws_keys ws)" "store_wf ds" "store_newest_le ds ts"
    and "aol_path p \<noteq> snapshot_path p"
    and "files p' = (files p)(aol_path p \<mapsto> file_of p (aol_path p) @ encode_log cdc (log_entries ver ws))"
    and "snapshot_path p' = snapshot_path p" "aol_path p' = aol_path p"
  shows "recovers cdc p' (fold (ds_write ver) ws ds) ver"
proof -
  from assms(1) obtain base es where r: "load_snapshot cdc (files p (snapshot_path p)) = Some (Inr base)"
    "file_of p (aol_path p) = encode_log cdc es" "store_wf (fold replay_log es base)"
    "store_newest_le (fold replay_log es base) ts"
    "\<And>k. store_fetch (fold replay_log es base) k ts = store_fetch ds k ts"
    by (auto simp: recovers_def)
  let ?ds = "fold replay_log es base" and ?es = "es @ log_entries ver ws"
  have mono: "store_newest_le d ver" if "store_newest_le d ts" for d
    using that assms(2) by (fastforce simp: store_newest_le_def intro: vc.newest_le_mono)
  note rp = replay_commit_props [OF r(3) mono [OF r(4)] assms(3)]
  have "store_fetch (fold replay_log ?es base) k ver = store_fetch (fold (ds_write ver) ws ds) k ver" for k
    using rp(3) fold_ds_write_props(3) [OF r(3) mono [OF r(4)] assms(3)]
      fold_ds_write_props(3) [OF assms(4) mono [OF assms(5)] assms(3)] r(5) [of k]
      store_fetch_beyond [OF r(3,4), of ver k] store_fetch_beyond [OF assms(4,5), of ver k] assms(2)
    by (simp split: option.splits)
  moreover have "file_of p' (aol_path p') = encode_log cdc ?es"
    using assms(7,9) r(2) by (simp add: file_of_def encode_log_def)
  moreover have "load_snapshot cdc (files p' (snapshot_path p')) = Some (Inr base)"
    using assms(6-8) r(1) by simp
  ultimately show ?thesis
    using rp(1,2) unfolding recovers_def by (intro exI [of _ base] exI [of _ ?es]) simp
qed

lemma recovers_cong:
  assumes "recovers cdc p ds ts" "\<And>k. store_fetch ds' k ts = store_fetch ds k ts"
  shows "recovers cdc p ds' ts"
  using assms by (simp add: recovers_def)

lemma load_snapshot_encoded:
  assumes "codec_law cdc" "store_wf ds" "store_newest_le ds ts"
    and "mode = CompressionNone \<longrightarrow> take 4 (encode_chains cdc ds) \<noteq> LZ4_MAGIC"
  defines "out \<equiv> CompressedWriter_finish (CompressedWriter_output (lz4_lib cdc) mode (encode_chains cdc ds))"
  shows "\<exists>base. load_snapshot cdc (Some out) = Some (Inr base) \<and> store_wf base \<and> store_newest_le base ts
    \<and> (\<forall>k w. store_fetch base k w = store_fetch ds k w)"
proof -
  let ?base = "fold load_chain (chain_entries ds) []"
  have dl: "decode_loop (dec_chain cdc) load_chain (encode_chains cdc ds) [] = Some (Inr ?base)"
    unfolding encode_chains_def using assms(1) by (intro decode_loop_all) (auto simp: codec_law_def)
  have rd: "CompressedReader_new (lz4_lib cdc) out = Inr (encode_chains cdc ds)"
    unfolding out_def using assms(1,4) by (intro compressed_roundtrip) (simp_all add: codec_law_def)
  have wf: "\<forall>e\<in>set ds. versions_wf (snd e)" "distinct (map fst ds)" "store_wf []"
    using assms(2) by (simp_all add: store_wf_def om_wf_distinct)
  have nl: "\<forall>e\<in>set ds. versions_newest_le (snd e) ts" "store_newest_le [] ts"
    using assms(3) by (simp_all add: store_newest_le_def)
  note fl = fold_load_chain [OF wf]
  have "load_snapshot cdc (Some out) = Some (Inr ?base)"
  proof (cases "out = []")
    case True
    with rd have "encode_chains cdc ds = []"
      by (simp add: CompressedReader_new_def detect_mode_def)
    with dl have "?base = []"
      using assms(1) decode_loop_Eof [of "dec_chain cdc" "[]" load_chain "[]"] by (simp add: codec_law_def)
    with True show ?thesis by (simp add: load_file_def quiet_env_def)
  next
    case False
    with rd dl show ?thesis by (simp add: load_file_def quiet_env_def)
  qed
  moreover have "store_fetch ?base k w = store_fetch ds k w" for k w
    using fl(3) by (simp add: store_fetch_def split: option.splits)
  ultimately show ?thesis using fl(1) fl(2) [OF nl(2,1)] by blast
qed

lemma recovers_snapshot:
  assumes "codec_law cdc" "no_faults env" "paths_ok p" "aol p" "store_wf ds" "store_newest_le ds ts"
    and "compression_mode p = CompressionNone \<longrightarrow> take 4 (encode_chains cdc ds) \<noteq> LZ4_MAGIC"
  shows "recovers cdc (snd (snapshot cdc env ds p)) ds ts"
proof -
  note sn = snapshot_ok [OF assms(2,3), of cdc ds]
  from load_snapshot_encoded [OF assms(1,5,6,7)] sn(2,5) obtain base where
    "load_snapshot cdc (files (snd (snapshot cdc env ds p)) (snapshot_path (snd (snapshot cdc env ds p)))) = Some (Inr base)"
    "store_wf base" "store_newest_le base ts" "\<And>k w. store_fetch base k w = store_fetch ds k w" by auto
  moreover have "file_of (snd (snapshot cdc env ds p)) (aol_path (snd (snapshot cdc env ds p))) = encode_log cdc []"
    using sn(4,6) assms(4) by (simp add: file_of_def encode_log_def)
  ultimately show ?thesis
    unfolding recovers_def by (intro exI [of _ base] exI [of _ "[]"]) simp
qed


section \<open>Loading establishes the invariant\<close>

text \<open>Whatever the files hold, what a load leaves in the store is well-formed.\<close>

lemma decode_loop_wf:
  assumes "\<And>e ds. store_wf ds \<Longrightarrow> store_wf (f e ds)"
    and "decode_loop dec f bs ds = Some (Inr ds')" "store_wf ds"
  shows "store_wf ds'"
proof -
  let ?P = "\<lambda>(dec :: bytes \<Rightarrow> 'a decoded) f (bs :: bytes) ds (r :: PersistenceError + datastore). (\<forall>e ds. store_wf ds \<longrightarrow> store_wf (f e ds)) \<longrightarrow> store_wf ds \<longrightarrow>
    (case r of Inr ds' \<Rightarrow> store_wf ds' | Inl _ \<Rightarrow> True)"
  have "?P dec f bs ds (Inr ds')"
    by (rule decode_loop.raw_induct [where P = ?P, OF _ assms(2)]) (auto split: decoded.splits)
  with assms(1,3) show ?thesis by simp
qed

lemma foldl_push_wf: "versions_wf vs \<Longrightarrow> versions_wf (foldl (\<lambda>vs (v, x). push vs \<lparr>version = v, value_of = x\<rparr>) vs es)"
  by (induction es arbitrary: vs) (auto simp: vc.wf_add)

lemma load_chain_wf: "store_wf ds \<Longrightarrow> store_wf (load_chain e ds)"
  using foldl_push_wf [of "[]"] by (cases e) (simp add: load_chain_def Versions_new_def versions_wf_def store_wf_insert)

lemma replay_log_wf: "store_wf ds \<Longrightarrow> store_wf (replay_log e ds)"
  by (cases e) (auto simp: replay_log_def Versions_from_def versions_wf_def [of "[_]"]
      split: option.splits intro!: store_wf_insert vc.wf_add intro: store_wf_get)

lemma load_file_wf:
  assumes "load_file cdc dec f env st st' content ds = Some (Inr ds')" "store_wf ds"
    and "\<And>e ds. store_wf ds \<Longrightarrow> store_wf (f e ds)"
  shows "store_wf ds'"
  using assms(1,2)
  by (auto simp: load_file_def split: option.splits sum.splits if_splits intro: decode_loop_wf [of f, OF assms(3)])

lemma load_wf:
  assumes "load cdc env p ds = Some (Inr ds')" "store_wf ds"
  shows "store_wf ds'"
  using assms
  by (auto simp: load_def split: option.splits sum.splits
      dest!: load_file_wf [where f = load_chain, OF _ _ load_chain_wf]
        load_file_wf [where f = replay_log, OF _ _ replay_log_wf])

lemma Persistence_new_load:
  assumes "Persistence_new cdc env popts disk ds = Some (Inr (p, ds'))"
  shows "load cdc env (Persistence_init popts (clock env) disk) ds = Some (Inr ds')"
  using assms by (auto simp: Persistence_new_def Let_def split: option.splits sum.splits if_splits)

lemma new_with_persistence_parts:
  assumes "new_with_persistence cdc env opts popts disk unix clk = Some (Inr db)"
  obtains inner p ds where "Inner_new opts unix clk = Some inner"
    "load cdc env (Persistence_init popts (clock env) disk) [] = Some (Inr ds)"
    "db = start_workers opts (Database_of opts (inner\<lparr>datastore := ds, persistence := Some p\<rparr>))"
proof -
  have ds: "datastore inner = []" if "Inner_new opts unix clk = Some inner" for inner
    using that by (auto simp: Inner_new_def split: option.splits)
  from assms that Persistence_new_load show ?thesis
    by (fastforce simp: new_with_persistence_def ds split: option.splits sum.splits prod.splits)
qed

lemma started_store [simp]:
  "datastore (db_inner (start_workers opts (Database_of opts inner))) = datastore inner"
  "ts_oracle (db_inner (start_workers opts (Database_of opts inner))) = ts_oracle inner"
  using start_workers_inner [of opts "Database_of opts inner"] by (auto simp: Database_of_def)

lemma reachable_inv: "reachable s \<Longrightarrow> sys_inv s"
proof (induction rule: reachable.induct)
  case (reachable_new opts unix clk db)
  then obtain inner where i: "Inner_new opts unix clk = Some inner" "db = start_workers opts (Database_of opts inner)"
    by (auto simp: new_with_options_def split: option.splits)
  then have "inner = inner\<lparr>datastore := [], persistence := None\<rparr>"
    by (auto simp: Inner_new_def split: option.splits)
  with initial_inv [OF i(1), of "[]" None] i(2) show ?case
    by (simp add: store_wf_def store_newest_le_def)
next
  case (reachable_loaded cdc env opts popts disk unix clk db)
  from reachable_loaded(1) obtain inner p ds where i: "Inner_new opts unix clk = Some inner"
    "load cdc env (Persistence_init popts (clock env) disk) [] = Some (Inr ds)"
    "db = start_workers opts (Database_of opts (inner\<lparr>datastore := ds, persistence := Some p\<rparr>))"
    by (rule new_with_persistence_parts)
  have "store_wf ds" using load_wf [OF i(2)] by (simp add: store_wf_def)
  with initial_inv [OF i(1)] reachable_loaded(2) i(3) show ?case by simp
next
  case (reachable_step s e s')
  then show ?case using step_simulates by blast
qed

lemma reachable_fresh: "reachable s \<Longrightarrow> si_fresh (abs_sys s)"
proof (induction rule: reachable.induct)
  case (reachable_step s e s')
  then show ?case using step_simulates [OF reachable_inv] si_fresh_step by blast
qed (simp_all add: si_fresh_def abs_sys_def)

lemma reachable_trace: "trace step s es s' \<Longrightarrow> reachable s \<Longrightarrow> reachable s'"
  by (induction rule: trace.induct) (auto intro: reachable_step)

lemma reachable_inner_wf: "reachable s \<Longrightarrow> inner_wf (sys_inner s)"
  using reachable_inv by (simp add: sys_inv_def)

lemma reachable_now: "reachable s \<Longrightarrow>
    now (abs_sys s) k = fetch_in_datastore (sys_inner s) k (timestamp (ts_oracle (sys_inner s)))"
  by (simp add: abs_sys_def fetch_in_datastore_quiet reachable_inner_wf)

lemma reachable_snap: "reachable s \<Longrightarrow> map_of (live s) i = Some tx \<Longrightarrow>
    txs (abs_sys s) i = Some (abs_tx (sys_inner s) tx)
    \<and> snap (abs_tx (sys_inner s) tx) k = fetch_in_datastore (sys_inner s) k (tx_version tx)"
  by (simp add: abs_sys_def abs_tx_def fetch_in_datastore_quiet reachable_inner_wf)

lemma restart:
  assumes "codec_law cdc" "recovers cdc p ds ts" "take 4 (file_of p (aol_path p)) \<noteq> LZ4_MAGIC"
    and "aol_path p = resolve_path (base_path popts) (opt_aol_path popts) ''aol.bin''"
    and "snapshot_path p = resolve_path (base_path popts) (opt_snapshot_path popts) ''snapshot.bin''"
    and "opt_aol_mode popts \<noteq> AolNever" "unix = Some n" "n < 2 ^ 64" "unat ts \<le> n" "aol_path p \<noteq> snapshot_path p"
  obtains db where "new_with_persistence cdc quiet_env opts popts (files p) unix clk = Some (Inr db)"
    "reachable \<lparr>sys_db = db, live = []\<rparr>"
    "\<And>k. now (abs_sys \<lparr>sys_db = db, live = []\<rparr>) k = store_fetch ds k ts"
proof -
  let ?p = "Persistence_init popts (clock quiet_env) (files p)"
  have paths: "aol_path ?p = aol_path p" "snapshot_path ?p = snapshot_path p"
    using assms(4,5) by (simp_all add: Persistence_init_def Let_def)
  have fl: "file_of ?p (aol_path p) = file_of p (aol_path p)" "files ?p (snapshot_path p) = files p (snapshot_path p)"
    using assms(4-6,10) by (auto simp: Persistence_init_def Let_def file_of_def)
  have "recovers cdc ?p ds ts" using assms(2) by (simp add: recovers_def paths fl)
  from recovers_load [OF assms(1) this] assms(3) obtain ds' where ld: "load cdc quiet_env ?p [] = Some (Inr ds')"
    "store_wf ds'" "store_newest_le ds' ts" "\<And>k. store_fetch ds' k ts = store_fetch ds k ts"
    by (auto simp: paths fl)
  obtain inner where i: "Inner_new opts unix clk = Some inner" "timestamp (ts_oracle inner) = of_nat n" "datastore inner = []"
    using assms(7) by (auto simp: Inner_new_def Oracle_new_def current_unix_ns_def background_resync_def)
  have le: "ts \<le> of_nat n" using assms(8,9) by (simp add: word_le_nat_alt unat_of_nat)
  then have nl: "store_newest_le ds' (of_nat n)"
    using ld(3) by (fastforce simp: store_newest_le_def intro: vc.newest_le_mono)
  obtain p' where np: "Persistence_new cdc quiet_env popts (files p) [] = Some (Inr (p', ds'))"
    using ld(1) by (auto simp: Persistence_new_def Let_def quiet_env_def)
  let ?db = "start_workers opts (Database_of opts (inner\<lparr>datastore := ds', persistence := Some p'\<rparr>))"
  have eq: "new_with_persistence cdc quiet_env opts popts (files p) unix clk = Some (Inr ?db)"
    using i np by (simp add: new_with_persistence_def)
  moreover have "reachable \<lparr>sys_db = ?db, live = []\<rparr>"
    by (rule reachable_loaded [OF eq]) (simp add: i(2) nl)
  moreover have "now (abs_sys \<lparr>sys_db = ?db, live = []\<rparr>) k = store_fetch ds k ts" for k
    using store_fetch_beyond [OF ld(2,3) le] ld(4) by (simp add: abs_sys_def i(2))
  ultimately show thesis by (rule that)
qed


text \<open>An acknowledged commit with a synchronous log keeps the files in step with the memory.\<close>

lemma commit_recovers:
  assumes "sys_inv s" "map_of (live s) i = Some tx" "\<not> tx_done tx" "tx_writeset tx \<noteq> []"
    and "timestamp (ts_oracle (sys_inner s)) < u64_MAX" "transaction_commit_id (sys_inner s) < u64_MAX"
    and "persistence (sys_inner s) = Some p" "aol p" "aol_mode p = SynchronousOnCommit" "aol_path p \<noteq> snapshot_path p"
    and "recovers cdc p (datastore (sys_inner s)) (timestamp (ts_oracle (sys_inner s)))"
    and "w_codec w = cdc" "no_faults (w_io w)"
    and "commit w tx (sys_inner s) = Some (Inr (), tx', inner')" "persistence inner' = Some p'"
  shows "recovers cdc p' (datastore inner') (timestamp (ts_oracle inner'))" and "inner_wf inner'"
    and "aol_path p' = aol_path p" "snapshot_path p' = snapshot_path p"
proof -
  let ?db = "sys_inner s" and ?v = "candidate_version (ts_oracle (sys_inner s)) (w_clock w 0)"
  have wf: "inner_wf ?db" and txw: "tx_wf tx"
    using assms(1) sys_inv_live(1) [OF assms(1,2)] by (simp_all add: sys_inv_def live_ok_def)
  have above: "timestamp (ts_oracle ?db) < ?v" by (rule candidate_above [OF assms(5)])
  obtain q where q: "append cdc (w_io w) ?v (tx_writeset tx) p = (Inr (), q)"
    "files q = (files p)(aol_path p \<mapsto> file_of p (aol_path p) @ encode_log cdc (log_entries ?v (tx_writeset tx)))"
    "snapshot_path q = snapshot_path p" "aol_path q = aol_path p"
    using append_sync_ok [OF assms(13,8,9)] by blast
  have "commit_conflict tx ?db = None"
    using commit_conflicting [OF wf assms(6,3,4), of _ w] assms(14) by (cases "commit_conflict tx ?db") auto
  from commit_passing [OF wf assms(6,3,4) this, of w] assms(7,12,14,15) q(1)
  have inner': "inner' = committed_state ?v tx ?db (Some q)" and p': "p' = q"
    by (auto simp: append_outcome_def committed_state_def)
  have ts: "timestamp (ts_oracle inner') = ?v" using above by (simp add: inner' max_absorb2 less_imp_le)
  have sw: "store_wf (datastore ?db)" "store_newest_le (datastore ?db) (timestamp (ts_oracle ?db))"
    using wf by (simp_all add: inner_wf_def)
  have "distinct (ws_keys (tx_writeset tx))" using txw by (simp add: tx_wf_def om_wf_distinct)
  from recovers_append [OF assms(11) above this sw assms(10) q(2-4)]
  show "recovers cdc p' (datastore inner') (timestamp (ts_oracle inner'))"
    by (simp add: p' ts) (simp add: inner' committed_state_def)
  show "inner_wf inner'"
    unfolding inner' by (rule committed_state_props(1) [OF wf txw assms(4,6) above])
  show "aol_path p' = aol_path p" "snapshot_path p' = snapshot_path p" using q p' by simp_all
qed

end
