(* ===== verification/Server.thy ===== *)
theory Server
  imports Recovery
begin

text \<open>
  The HTTP front end (\<open>server/src/main.rs\<close>): the five handlers as programs over the public interface of
  the database, with the response or the status and message each returns, the routes and the choice
  of the port.  The transaction of a request is dropped when its handler returns, on the error paths
  too.  UTF-8 text is the list of its bytes; the lossy conversion of a value that is not UTF-8 is a
  library function and an argument.
\<close>

datatype StatusCode = CONFLICT | INTERNAL_SERVER_ERROR

datatype Response =
    GetResponse bytes "bytes option"
  | ExistsResponse bytes bool
  | WriteResponse bytes bytes

type_synonym ApiResult = "(StatusCode \<times> string) + Response"

definition map_kv_error :: "Error \<Rightarrow> StatusCode \<times> string" where
  "map_kv_error err =
     ((case err of
         KeyWriteConflict \<Rightarrow> CONFLICT
       | KeyReadConflict \<Rightarrow> CONFLICT
       | KeyAlreadyExists \<Rightarrow> CONFLICT
       | _ \<Rightarrow> INTERNAL_SERVER_ERROR), error_message err)"

text \<open>\<open>None\<close> is a call that does not return; \<open>finish\<close> ends the request and drops its transaction.\<close>

definition finish :: "TransactionInner \<Rightarrow> Database \<Rightarrow> ApiResult \<Rightarrow> (ApiResult \<times> Database) option" where
  "finish tx db r = map_option (Pair r) (Transaction_drop tx db)"

definition get_handler :: "(bytes \<Rightarrow> bytes) \<Rightarrow> Database \<Rightarrow> bytes \<Rightarrow> (ApiResult \<times> Database) option" where
  "get_handler lossy db key =
     (case transaction db False of
        None \<Rightarrow> None
      | Some (tx, db) \<Rightarrow>
          (case get (db_inner db) key tx of
             (Inl e, tx) \<Rightarrow> finish tx db (Inl (map_kv_error e))
           | (Inr v, tx) \<Rightarrow> finish tx db (Inr (GetResponse key (map_option lossy v)))))"

definition exists_handler :: "Database \<Rightarrow> bytes \<Rightarrow> (ApiResult \<times> Database) option" where
  "exists_handler db key =
     (case transaction db False of
        None \<Rightarrow> None
      | Some (tx, db) \<Rightarrow>
          (case exists (db_inner db) key tx of
             (Inl e, tx) \<Rightarrow> finish tx db (Inl (map_kv_error e))
           | (Inr b, tx) \<Rightarrow> finish tx db (Inr (ExistsResponse key b))))"

definition commit_and_reply :: "world \<Rightarrow> TransactionInner \<Rightarrow> Database \<Rightarrow> Response \<Rightarrow> (ApiResult \<times> Database) option" where
  "commit_and_reply w tx db reply =
     (case commit w tx (db_inner db) of
        None \<Rightarrow> None
      | Some (Inl e, tx, inner) \<Rightarrow> finish tx (db\<lparr>db_inner := inner\<rparr>) (Inl (map_kv_error e))
      | Some (Inr _, tx, inner) \<Rightarrow> finish tx (db\<lparr>db_inner := inner\<rparr>) (Inr reply))"

definition insert_handler :: "world \<Rightarrow> Database \<Rightarrow> bytes \<Rightarrow> bytes \<Rightarrow> (ApiResult \<times> Database) option" where
  "insert_handler w db key val =
     (case transaction db True of
        None \<Rightarrow> None
      | Some (tx, db) \<Rightarrow>
          (case put (db_inner db) key val tx of
             (Inl e, tx) \<Rightarrow> finish tx db (Inl (map_kv_error e))
           | (Inr _, tx) \<Rightarrow> commit_and_reply w tx db (WriteResponse key val)))"

definition update_handler :: "world \<Rightarrow> Database \<Rightarrow> bytes \<Rightarrow> bytes \<Rightarrow> (ApiResult \<times> Database) option" where
  "update_handler w db key val =
     (case transaction db True of
        None \<Rightarrow> None
      | Some (tx, db) \<Rightarrow>
          (case set_value key val tx of
             (Inl e, tx) \<Rightarrow> finish tx db (Inl (map_kv_error e))
           | (Inr _, tx) \<Rightarrow> commit_and_reply w tx db (WriteResponse key val)))"

definition delete_handler :: "(bytes \<Rightarrow> bytes) \<Rightarrow> world \<Rightarrow> Database \<Rightarrow> bytes \<Rightarrow> (ApiResult \<times> Database) option" where
  "delete_handler lossy w db key =
     (case transaction db True of
        None \<Rightarrow> None
      | Some (tx, db) \<Rightarrow>
          (case get (db_inner db) key tx of
             (Inl e, tx) \<Rightarrow> finish tx db (Inl (map_kv_error e))
           | (Inr v, tx) \<Rightarrow>
               (case del key tx of
                  (Inl e, tx) \<Rightarrow> finish tx db (Inl (map_kv_error e))
                | (Inr _, tx) \<Rightarrow> commit_and_reply w tx db (GetResponse key (map_option lossy v)))))"

section \<open>Routes and start-up\<close>

datatype http_method = GET | POST | DELETE

datatype Request =
    KeyQuery bytes
  | WriteRequest bytes bytes

text \<open>\<open>make_app\<close>: the handler a method and path lead to; \<open>None\<close> outside the routes and for a body of the
  wrong form, which the framework answers.\<close>

fun make_app :: "(bytes \<Rightarrow> bytes) \<Rightarrow> world \<Rightarrow> Database \<Rightarrow> http_method \<Rightarrow> string \<Rightarrow> Request \<Rightarrow>
    (ApiResult \<times> Database) option option" where
  "make_app lossy w db m path (KeyQuery key) =
     (if m = GET \<and> path = ''/get'' then Some (get_handler lossy db key)
      else if m = DELETE \<and> path = ''/delete'' then Some (delete_handler lossy w db key)
      else if m = GET \<and> path = ''/exists'' then Some (exists_handler db key)
      else None)"
| "make_app lossy w db m path (WriteRequest key val) =
     (if m = POST \<and> path = ''/insert'' then Some (insert_handler w db key val)
      else if m = POST \<and> path = ''/update'' then Some (update_handler w db key val)
      else None)"

text \<open>\<open>str::parse::<u16>\<close>: an optional plus sign and at least one digit, below 65536.\<close>

definition parse_digits :: "string \<Rightarrow> nat option" where
  "parse_digits s =
     (if s \<noteq> [] \<and> list_all (\<lambda>c. 48 \<le> (of_char c :: nat) \<and> (of_char c :: nat) \<le> 57) s
      then Some (foldl (\<lambda>n c. 10 * n + (of_char c - 48)) 0 s) else None)"

definition parse_u16 :: "string \<Rightarrow> nat option" where
  "parse_u16 s =
     (case parse_digits (case s of CHR ''+'' # t \<Rightarrow> t | _ \<Rightarrow> s) of
        None \<Rightarrow> None
      | Some n \<Rightarrow> if n < 65536 then Some n else None)"

datatype port_choice = Port nat | HelpExit

text \<open>
  The scan over the arguments after the program name: the first \<open>--port\<close> followed by a number decides,
  \<open>--help\<close> before it ends the program; then the environment variable, then 3000.
\<close>

fun parse_port_args :: "string list \<Rightarrow> port_choice option" where
  "parse_port_args [] = None"
| "parse_port_args (a # rest) =
     (if a = ''--port'' then
        (case rest of
           [] \<Rightarrow> parse_port_args rest
         | v # _ \<Rightarrow> (case parse_u16 v of Some port \<Rightarrow> Some (Port port) | None \<Rightarrow> parse_port_args rest))
      else if a = ''--help'' then Some HelpExit
      else parse_port_args rest)"

definition parse_port :: "string list \<Rightarrow> string option \<Rightarrow> port_choice" where
  "parse_port args env_port =
     (case parse_port_args (tl args) of
        Some c \<Rightarrow> c
      | None \<Rightarrow> Port (case Option.bind env_port parse_u16 of Some p \<Rightarrow> p | None \<Rightarrow> 3000))"

section \<open>Requests are transactions\<close>

text \<open>The current contents of the database, as the next request sees them.\<close>

abbreviation contents :: "System \<Rightarrow> bytes \<Rightarrow> bytes option" where
  "contents s \<equiv> now (abs_sys s)"

text \<open>A state from which requests are served: reachable, in memory only, with numbers to spare.\<close>

definition serving :: "System \<Rightarrow> bool" where
  "serving s \<longleftrightarrow> reachable s \<and> persistence (sys_inner s) = None \<and> Suc (length (live s)) < 2 ^ 64 - 1
     \<and> timestamp (ts_oracle (sys_inner s)) < u64_MAX \<and> transaction_commit_id (sys_inner s) < u64_MAX"

lemma begin_session:
  assumes "serving s"
  obtains i tx db1 where "transaction (sys_db s) wr = Some (tx, db1)" "map_of (live s) i = None"
    "reachable \<lparr>sys_db = db1, live = om_insert i tx (live s)\<rparr>"
    "contents \<lparr>sys_db = db1, live = om_insert i tx (live s)\<rparr> = contents s"
    "\<not> tx_done tx" "tx_write tx = wr" "tx_writeset tx = []" "tx_mode tx = SnapshotIsolation"
    "\<And>k. fetch_in_datastore (db_inner db1) k (tx_version tx) = contents s k"
    "\<And>k. exists_in_datastore (db_inner db1) k (tx_version tx) \<longleftrightarrow> contents s k \<noteq> None"
    "commit_range (tx_commit tx + 1) (transaction_commit_id (db_inner db1) + 1) (transaction_commit_queue (db_inner db1)) = []"
    "ts_oracle (db_inner db1) = ts_oracle (sys_inner s)" "persistence (db_inner db1) = None"
    "transaction_commit_id (db_inner db1) = transaction_commit_id (sys_inner s)"
proof -
  have r: "reachable s" and cap: "Suc (length (live s)) < 2 ^ 64 - 1" and lt: "transaction_commit_id (sys_inner s) < u64_MAX"
    using assms by (simp_all add: serving_def)
  have inv: "sys_inv s" by (rule reachable_inv [OF r])
  obtain i where i: "map_of (live s) i = None"
    using ex_new_if_finite [of "fst ` set (live s)"] by (auto simp: map_of_eq_None_iff infinite_UNIV_nat)
  obtain tx db1 where t: "transaction (sys_db s) wr = Some (tx, db1)" using begin_returns [OF inv cap] by blast
  obtain tv tc where b: "db_inner db1 = (sys_inner s)\<lparr>counter_by_oracle := tv, counter_by_commit := tc\<rparr>"
    "tx_version tx = timestamp (ts_oracle (sys_inner s))" "tx_commit tx = transaction_commit_id (sys_inner s)"
    "tx_mode tx = SnapshotIsolation" "\<not> tx_done tx" "tx_write tx = wr" "tx_writeset tx = []"
    by (rule begin_effect [OF inv t cap])
  have wf: "inner_wf (db_inner db1)" using reachable_inner_wf [OF r] by (simp add: b(1) inner_wf_def)
  have empty: "commit_range (tx_commit tx + 1) (transaction_commit_id (db_inner db1) + 1) (transaction_commit_queue (db_inner db1)) = []"
    by (auto simp: commit_range_def filter_empty_conv b(1,3))
  show thesis
    by (rule that [OF t i reachable_step [OF r step_begin [OF t i cap]] _ b(5-7,4) _ _ empty])
      (use assms in \<open>simp_all add: b(1,2) abs_sys_def fetch_in_datastore_quiet [OF wf, unfolded b(1)]
        exists_in_datastore_quiet [OF wf, unfolded b(1)] serving_def\<close>)
qed

lemma end_session:
  assumes "reachable \<lparr>sys_db = db, live = om_insert i tx (live s)\<rparr>" "reachable s" "map_of (live s) i = None"
  shows "\<exists>db'. finish tx db r = Some (r, db') \<and> reachable (s\<lparr>sys_db := db'\<rparr>)
    \<and> contents (s\<lparr>sys_db := db'\<rparr>) = contents \<lparr>sys_db = db, live = om_insert i tx (live s)\<rparr>"
proof -
  let ?s = "\<lparr>sys_db = db, live = om_insert i tx (live s)\<rparr>"
  have l: "map_of (live ?s) i = Some tx" by (simp add: map_of_om_insert)
  obtain db' tv tc where d: "Transaction_drop tx (sys_db ?s) = Some db'"
    "db_inner db' = (sys_inner ?s)\<lparr>counter_by_commit := tc, counter_by_oracle := tv\<rparr>"
    by (rule drop_effect [OF reachable_inv [OF assms(1)] l])
  have wf: "om_wf (live s)" using reachable_inv [OF assms(2)] by (simp add: sys_inv_def)
  from reachable_step [OF assms(1) step_drop [OF l d(1)]] om_remove_insert_fresh [OF wf assms(3)]
  have "reachable (s\<lparr>sys_db := db'\<rparr>)" by (metis System.select_convs(2) System.update_convs(1) System.surjective unit.exhaust)
  with d show ?thesis by (simp add: finish_def abs_sys_def)
qed

lemma op_session:
  assumes "reachable \<lparr>sys_db = db, live = om_insert i tx rest\<rparr>" "run_op (db_inner db) op tx = (r, tx')"
  shows "reachable \<lparr>sys_db = db, live = om_insert i tx' rest\<rparr>"
    and "contents \<lparr>sys_db = db, live = om_insert i tx' rest\<rparr> = contents \<lparr>sys_db = db, live = om_insert i tx rest\<rparr>"
  using reachable_step [OF assms(1) step_op [of _ i tx op r tx']] assms(2)
  by (simp_all add: map_of_om_insert abs_sys_def)

lemma commit_session:
  assumes "reachable \<lparr>sys_db = db, live = om_insert i tx (live s)\<rparr>" "reachable s" "map_of (live s) i = None"
    and "\<not> tx_done tx" "tx_writeset tx \<noteq> []" "persistence (db_inner db) = None"
    and "commit_range (tx_commit tx + 1) (transaction_commit_id (db_inner db) + 1) (transaction_commit_queue (db_inner db)) = []"
    and "timestamp (ts_oracle (db_inner db)) < u64_MAX" "transaction_commit_id (db_inner db) < u64_MAX"
  shows "\<exists>db'. commit_and_reply w tx db reply = Some (Inr reply, db') \<and> reachable (s\<lparr>sys_db := db'\<rparr>)
    \<and> contents (s\<lparr>sys_db := db'\<rparr>)
      = si_install (map_of (tx_writeset tx)) (contents \<lparr>sys_db = db, live = om_insert i tx (live s)\<rparr>)"
proof -
  let ?s = "\<lparr>sys_db = db, live = om_insert i tx (live s)\<rparr>"
  let ?v = "candidate_version (ts_oracle (db_inner db)) (w_clock w 0)"
  let ?inner = "committed_state ?v tx (db_inner db) None"
  have wf: "inner_wf (db_inner db)" using reachable_inner_wf [OF assms(1)] by simp
  have l: "map_of (live ?s) i = Some tx" by (simp add: map_of_om_insert)
  have txw: "tx_wf tx" using sys_inv_live(1) [OF reachable_inv [OF assms(1)] l] by (simp add: live_ok_def)
  have above: "timestamp (ts_oracle (db_inner db)) < ?v" by (rule candidate_above [OF assms(8)])
  have "commit_conflict tx (db_inner db) = None" using assms(7) by (simp add: commit_conflict_def)
  from commit_passing [OF wf assms(9,4,5) this, of w] assms(6)
  have c: "commit w tx (db_inner db) = Some (Inr (), closed_tx tx, ?inner)" by (simp add: append_outcome_def)
  let ?t = "\<lparr>sys_db = db\<lparr>db_inner := ?inner\<rparr>, live = om_insert i (closed_tx tx) (live s)\<rparr>"
  have "reachable ?t" using reachable_step [OF assms(1) step_commit [OF l, of w]] c assms(8,9) by simp
  from end_session [OF this assms(2,3), of "Inr reply"] obtain db' where d: "finish (closed_tx tx) (db\<lparr>db_inner := ?inner\<rparr>) (Inr reply)
      = Some (Inr reply, db')" "reachable (s\<lparr>sys_db := db'\<rparr>)" "contents (s\<lparr>sys_db := db'\<rparr>) = contents ?t" by blast
  have "contents ?t k = si_install (map_of (tx_writeset tx)) (contents ?s) k" for k
    using committed_state_props(3) [OF wf txw assms(5,9) above] above
    by (simp add: abs_sys_def si_install_def max_absorb2 less_imp_le)
  then have "contents ?t = si_install (map_of (tx_writeset tx)) (contents ?s)" by blast
  with c d show ?thesis by (simp add: commit_and_reply_def)
qed

section \<open>The server is a map\<close>

lemma get_handler_serves:
  assumes "serving s"
  shows "\<exists>db'. get_handler lossy (sys_db s) k = Some (Inr (GetResponse k (map_option lossy (contents s k))), db')
    \<and> reachable (s\<lparr>sys_db := db'\<rparr>) \<and> contents (s\<lparr>sys_db := db'\<rparr>) = contents s"
proof (rule begin_session [OF assms, of False])
  fix i tx db1
  assume b: "transaction (sys_db s) False = Some (tx, db1)" "map_of (live s) i = None"
    "reachable \<lparr>sys_db = db1, live = om_insert i tx (live s)\<rparr>"
    "contents \<lparr>sys_db = db1, live = om_insert i tx (live s)\<rparr> = contents s"
    "\<not> tx_done tx" "tx_write tx = False" "\<And>k. fetch_in_datastore (db_inner db1) k (tx_version tx) = contents s k"
  have r: "reachable s" using assms by (simp add: serving_def)
  from end_session [OF b(3) r b(2), of "Inr (GetResponse k (map_option lossy (contents s k)))"] b show ?thesis
    by (auto simp: get_handler_def get_def)
qed

lemma exists_handler_serves:
  assumes "serving s"
  shows "\<exists>db'. exists_handler (sys_db s) k = Some (Inr (ExistsResponse k (contents s k \<noteq> None)), db')
    \<and> reachable (s\<lparr>sys_db := db'\<rparr>) \<and> contents (s\<lparr>sys_db := db'\<rparr>) = contents s"
proof (rule begin_session [OF assms, of False])
  fix i tx db1
  assume b: "transaction (sys_db s) False = Some (tx, db1)" "map_of (live s) i = None"
    "reachable \<lparr>sys_db = db1, live = om_insert i tx (live s)\<rparr>"
    "contents \<lparr>sys_db = db1, live = om_insert i tx (live s)\<rparr> = contents s"
    "\<not> tx_done tx" "tx_write tx = False" "\<And>k. exists_in_datastore (db_inner db1) k (tx_version tx) \<longleftrightarrow> contents s k \<noteq> None"
  have r: "reachable s" using assms by (simp add: serving_def)
  from end_session [OF b(3) r b(2), of "Inr (ExistsResponse k (contents s k \<noteq> None))"] b show ?thesis
    by (auto simp: exists_handler_def exists_def)
qed

lemma write_session:
  assumes "serving s" "transaction (sys_db s) True = Some (tx, db1)" "map_of (live s) i = None"
    and "reachable \<lparr>sys_db = db1, live = om_insert i tx' (live s)\<rparr>"
    and "contents \<lparr>sys_db = db1, live = om_insert i tx' (live s)\<rparr> = contents s"
    and "\<not> tx_done tx'" "tx_writeset tx' = [(k, x)]" "tx_commit tx' = tx_commit tx"
    and "commit_range (tx_commit tx + 1) (transaction_commit_id (db_inner db1) + 1) (transaction_commit_queue (db_inner db1)) = []"
    and "ts_oracle (db_inner db1) = ts_oracle (sys_inner s)" "persistence (db_inner db1) = None"
    and "transaction_commit_id (db_inner db1) = transaction_commit_id (sys_inner s)"
  shows "\<exists>db'. commit_and_reply w tx' db1 reply = Some (Inr reply, db') \<and> reachable (s\<lparr>sys_db := db'\<rparr>)
    \<and> contents (s\<lparr>sys_db := db'\<rparr>) = (contents s)(k := x)"
proof -
  have "reachable s" "timestamp (ts_oracle (db_inner db1)) < u64_MAX" "transaction_commit_id (db_inner db1) < u64_MAX"
    using assms(1,10,12) by (simp_all add: serving_def)
  moreover have "si_install (map_of [(k, x)]) (contents s) = (contents s)(k := x)"
    by (auto simp: si_install_def fun_eq_iff)
  ultimately show ?thesis
    using commit_session [OF assms(4) _ assms(3,6), of w reply] assms(5,7-12) by simp
qed

lemma write_request:
  assumes "serving s" and "transaction (sys_db s) True = Some (tx, db1)"
    and op: "\<And>tx. \<not> tx_done tx \<Longrightarrow> tx_write tx \<Longrightarrow> tx_writeset tx = [] \<Longrightarrow> tx_mode tx = SnapshotIsolation \<Longrightarrow>
      run_op (db_inner db1) op tx = (r, tx\<lparr>tx_writeset := [(k, x)]\<rparr>)"
  shows "\<exists>db'. commit_and_reply w (snd (run_op (db_inner db1) op tx)) db1 reply = Some (Inr reply, db')
    \<and> reachable (s\<lparr>sys_db := db'\<rparr>) \<and> contents (s\<lparr>sys_db := db'\<rparr>) = (contents s)(k := x)"
proof (rule begin_session [OF assms(1), of True])
  fix i tx1 db2
  assume b: "transaction (sys_db s) True = Some (tx1, db2)" "map_of (live s) i = None"
    "reachable \<lparr>sys_db = db2, live = om_insert i tx1 (live s)\<rparr>"
    "contents \<lparr>sys_db = db2, live = om_insert i tx1 (live s)\<rparr> = contents s"
    "\<not> tx_done tx1" "tx_write tx1 = True" "tx_writeset tx1 = []" "tx_mode tx1 = SnapshotIsolation"
    "commit_range (tx_commit tx1 + 1) (transaction_commit_id (db_inner db2) + 1) (transaction_commit_queue (db_inner db2)) = []"
    "ts_oracle (db_inner db2) = ts_oracle (sys_inner s)" "persistence (db_inner db2) = None"
    "transaction_commit_id (db_inner db2) = transaction_commit_id (sys_inner s)"
  have e: "tx1 = tx" "db2 = db1" using assms(2) b(1) by simp_all
  note o = op [OF b(5) _ b(7,8), simplified b(6), simplified]
  note s = op_session [OF b(3) o [folded e(2)]]
  show ?thesis
    using write_session [OF assms(1) b(1,2) s(1) s(2) [unfolded b(4)], of k x w reply] b(5,9-12) o e by simp
qed

lemma update_handler_serves:
  assumes "serving s"
  shows "\<exists>db'. update_handler w (sys_db s) k v = Some (Inr (WriteResponse k v), db')
    \<and> reachable (s\<lparr>sys_db := db'\<rparr>) \<and> contents (s\<lparr>sys_db := db'\<rparr>) = (contents s)(k \<mapsto> v)"
proof (rule begin_session [OF assms, of True])
  fix i tx db1
  assume b: "transaction (sys_db s) True = Some (tx, db1)" "\<not> tx_done tx" "tx_write tx = True" "tx_writeset tx = []"
  have "\<exists>db'. commit_and_reply w (snd (run_op (db_inner db1) (OpSet k v) tx)) db1 (WriteResponse k v) = Some (Inr (WriteResponse k v), db')
    \<and> reachable (s\<lparr>sys_db := db'\<rparr>) \<and> contents (s\<lparr>sys_db := db'\<rparr>) = (contents s)(k \<mapsto> v)"
    by (rule write_request [OF assms b(1)]) (simp add: set_value_def)
  with b show ?thesis by (simp add: update_handler_def set_value_def)
qed

lemma insert_handler_serves:
  assumes "serving s"
  shows "\<exists>db'. insert_handler w (sys_db s) k v
      = Some (if contents s k = None then Inr (WriteResponse k v) else Inl (map_kv_error KeyAlreadyExists), db')
    \<and> reachable (s\<lparr>sys_db := db'\<rparr>)
    \<and> contents (s\<lparr>sys_db := db'\<rparr>) = (if contents s k = None then (contents s)(k \<mapsto> v) else contents s)"
proof (rule begin_session [OF assms, of True])
  fix i tx db1
  assume b: "transaction (sys_db s) True = Some (tx, db1)" "map_of (live s) i = None"
    "reachable \<lparr>sys_db = db1, live = om_insert i tx (live s)\<rparr>"
    "contents \<lparr>sys_db = db1, live = om_insert i tx (live s)\<rparr> = contents s"
    "\<not> tx_done tx" "tx_write tx = True" "tx_writeset tx = []"
    "\<And>k. exists_in_datastore (db_inner db1) k (tx_version tx) \<longleftrightarrow> contents s k \<noteq> None"
  have r: "reachable s" using assms by (simp add: serving_def)
  show ?thesis
  proof (cases "contents s k")
    case None
    have "\<exists>db'. commit_and_reply w (tx\<lparr>tx_writeset := [(k, Some v)]\<rparr>) db1 (WriteResponse k v) = Some (Inr (WriteResponse k v), db')
      \<and> reachable (s\<lparr>sys_db := db'\<rparr>) \<and> contents (s\<lparr>sys_db := db'\<rparr>) = (contents s)(k \<mapsto> v)"
      using write_request [OF assms b(1), of "OpSet k v" "RUnit (Inr ())" k "Some v" w "WriteResponse k v"] b(5-7)
      by (simp add: set_value_def)
    with b None show ?thesis by (simp add: insert_handler_def put_def)
  next
    case (Some y)
    with b end_session [OF b(3) r b(2), of "Inl (map_kv_error KeyAlreadyExists)"] show ?thesis
      by (auto simp: insert_handler_def put_def)
  qed
qed

lemma delete_handler_serves:
  assumes "serving s"
  shows "\<exists>db'. delete_handler lossy w (sys_db s) k = Some (Inr (GetResponse k (map_option lossy (contents s k))), db')
    \<and> reachable (s\<lparr>sys_db := db'\<rparr>) \<and> contents (s\<lparr>sys_db := db'\<rparr>) = (contents s)(k := None)"
proof (rule begin_session [OF assms, of True])
  fix i tx db1
  assume b: "transaction (sys_db s) True = Some (tx, db1)" "\<not> tx_done tx" "tx_write tx = True" "tx_writeset tx = []"
    "tx_mode tx = SnapshotIsolation" "\<And>k. fetch_in_datastore (db_inner db1) k (tx_version tx) = contents s k"
  let ?r = "GetResponse k (map_option lossy (contents s k))"
  have "\<exists>db'. commit_and_reply w (snd (run_op (db_inner db1) (OpDel k) tx)) db1 ?r = Some (Inr ?r, db')
    \<and> reachable (s\<lparr>sys_db := db'\<rparr>) \<and> contents (s\<lparr>sys_db := db'\<rparr>) = (contents s)(k := None)"
    by (rule write_request [OF assms b(1)]) (simp add: del_def)
  with b show ?thesis by (simp add: delete_handler_def del_def get_def record_read_def)
qed

text \<open>The specification: what each route answers from a map, and the map afterwards.\<close>

fun map_server :: "(bytes \<Rightarrow> bytes) \<Rightarrow> http_method \<Rightarrow> string \<Rightarrow> Request \<Rightarrow> (bytes \<Rightarrow> bytes option) \<Rightarrow>
    (ApiResult \<times> (bytes \<Rightarrow> bytes option)) option" where
  "map_server lossy m path (KeyQuery k) c =
     (if m = GET \<and> path = ''/get'' then Some (Inr (GetResponse k (map_option lossy (c k))), c)
      else if m = GET \<and> path = ''/exists'' then Some (Inr (ExistsResponse k (c k \<noteq> None)), c)
      else if m = DELETE \<and> path = ''/delete'' then Some (Inr (GetResponse k (map_option lossy (c k))), c(k := None))
      else None)"
| "map_server lossy m path (WriteRequest k v) c =
     (if m = POST \<and> path = ''/update'' then Some (Inr (WriteResponse k v), c(k \<mapsto> v))
      else if m = POST \<and> path = ''/insert''
      then Some (if c k = None then (Inr (WriteResponse k v), c(k \<mapsto> v))
                 else (Inl (CONFLICT, error_message KeyAlreadyExists), c))
      else None)"

lemmas handler_serves = get_handler_serves exists_handler_serves insert_handler_serves update_handler_serves
  delete_handler_serves

lemma make_app_serves:
  assumes "serving s"
  shows "case map_server lossy m path req (contents s) of
      None \<Rightarrow> make_app lossy w (sys_db s) m path req = None
    | Some (r, c) \<Rightarrow> \<exists>db'. make_app lossy w (sys_db s) m path req = Some (Some (r, db'))
        \<and> reachable (s\<lparr>sys_db := db'\<rparr>) \<and> contents (s\<lparr>sys_db := db'\<rparr>) = c"
proof (cases req)
  case (KeyQuery k)
  then show ?thesis
    using handler_serves(1,2,5) [OF assms, where k = k] by simp
next
  case (WriteRequest k v)
  then show ?thesis
    using handler_serves(3,4) [OF assms, where k = k and v = v and w = w] by (auto simp: map_kv_error_def)
qed

end
