(* ===== verification/C_Interface.thy ===== *)
theory C_Interface
  imports System
begin

text \<open>
  The C interface (\<open>stupid-kv-c/src/lib.rs\<close>): return codes, option structs, opaque handles, and the
  memory handed to the caller.  A handle is an address of a heap that keeps what every \<open>Box::into_raw\<close>
  gave away until the matching free; address 0 is the null pointer.  The value \<open>None\<close> of a call stands
  for behaviour the interface does not define (an address that is not live) and for a call that does
  not return.  An out-parameter is given by whether its pointer is non-null, and the call returns what
  it stores there.
\<close>

section \<open>Return codes and errors\<close>

definition SK_OK :: int where "SK_OK = 0"
definition SK_NOT_FOUND :: int where "SK_NOT_FOUND = 1"
definition SK_NULL_ARG :: int where "SK_NULL_ARG = -1"
definition SK_TX_CLOSED :: int where "SK_TX_CLOSED = -2"
definition SK_TX_NOT_WRITABLE :: int where "SK_TX_NOT_WRITABLE = -3"
definition SK_WRITE_CONFLICT :: int where "SK_WRITE_CONFLICT = -4"
definition SK_READ_CONFLICT :: int where "SK_READ_CONFLICT = -5"
definition SK_ALREADY_EXISTS :: int where "SK_ALREADY_EXISTS = -6"
definition SK_COMMIT_NOT_PERSISTED :: int where "SK_COMMIT_NOT_PERSISTED = -7"
definition SK_IO :: int where "SK_IO = -8"
definition SK_PANIC :: int where "SK_PANIC = -99"

lemmas sk_codes = SK_OK_def SK_NOT_FOUND_def SK_NULL_ARG_def SK_TX_CLOSED_def SK_TX_NOT_WRITABLE_def
  SK_WRITE_CONFLICT_def SK_READ_CONFLICT_def SK_ALREADY_EXISTS_def SK_COMMIT_NOT_PERSISTED_def SK_IO_def SK_PANIC_def

fun map_err :: "Error \<Rightarrow> int \<times> string" where
  "map_err TxClosed = (SK_TX_CLOSED, ''transaction is closed'')"
| "map_err KeyWriteConflict = (SK_WRITE_CONFLICT, ''write conflict, retry the transaction'')"
| "map_err KeyReadConflict = (SK_READ_CONFLICT, ''read conflict, retry the transaction'')"
| "map_err TxNotWritable = (SK_TX_NOT_WRITABLE, ''transaction is not writable'')"
| "map_err KeyAlreadyExists = (SK_ALREADY_EXISTS, ''key already exists'')"
| "map_err (TxCommitNotPersisted p) =
     (SK_COMMIT_NOT_PERSISTED, ''commit not persisted: '' @ persistence_error_message p)"

section \<open>The heap of handles\<close>

text \<open>
  \<open>h_engines\<close> is the state a database handle and its transactions share, which lives as long as any of
  them; \<open>h_dbs\<close> are the database handles not yet freed.  A transaction handle is a
  \<open>Mutex<Option<Transaction>>\<close>, with the database it belongs to.
\<close>

record c_heap =
  h_engines :: "nat \<Rightarrow> Database option"
  h_dbs :: "nat set"
  h_txs :: "(nat, nat \<times> TransactionInner option) omap"
  h_values :: "nat \<Rightarrow> bytes option"
  h_strings :: "nat \<Rightarrow> string option"
  h_next :: nat

definition c_start :: c_heap where
  "c_start = \<lparr>h_engines = (\<lambda>_. None), h_dbs = {}, h_txs = [], h_values = (\<lambda>_. None), h_strings = (\<lambda>_. None), h_next = 1\<rparr>"

record c_ret =
  code :: int
  err_ptr :: nat
  val_ptr :: nat
  val_len :: "nat option"
  out_flag :: "int option"

definition ret :: "int \<Rightarrow> c_ret" where
  "ret c = \<lparr>code = c, err_ptr = 0, val_ptr = 0, val_len = None, out_flag = None\<rparr>"

definition alloc_string :: "string \<Rightarrow> c_heap \<Rightarrow> nat \<times> c_heap" where
  "alloc_string msg h = (h_next h, h\<lparr>h_strings := (h_strings h)(h_next h \<mapsto> msg), h_next := Suc (h_next h)\<rparr>)"

definition alloc_value :: "bytes \<Rightarrow> c_heap \<Rightarrow> nat \<times> c_heap" where
  "alloc_value v h = (h_next h, h\<lparr>h_values := (h_values h)(h_next h \<mapsto> v), h_next := Suc (h_next h)\<rparr>)"

text \<open>\<open>CString::new\<close> refuses a text with a zero byte.\<close>

definition set_err :: "bool \<Rightarrow> string \<Rightarrow> c_heap \<Rightarrow> nat \<times> c_heap" where
  "set_err err_out msg h =
     (if \<not> err_out then (0, h)
      else alloc_string (if CHR 0x00 \<in> set msg then ''invalid error message'' else msg) h)"

datatype 'a unwind = Returned 'a | Panicked

fun guard :: "bool \<Rightarrow> ((int \<times> string) + c_ret) unwind \<Rightarrow> c_heap \<Rightarrow> c_ret \<times> c_heap" where
  "guard err_out (Returned (Inr r)) h = (r, h)"
| "guard err_out (Returned (Inl (c, msg))) h =
     (case set_err err_out msg h of (p, h') \<Rightarrow> ((ret c)\<lparr>err_ptr := p\<rparr>, h'))"
| "guard err_out Panicked h =
     (case set_err err_out ''rust panic escaped the FFI boundary'' h of (p, h') \<Rightarrow> ((ret SK_PANIC)\<lparr>err_ptr := p\<rparr>, h'))"

text \<open>A pointer and a length: null with a length, or that many bytes.\<close>

datatype buffer = NullBuf nat | Buf bytes

fun bytes_arg :: "buffer \<Rightarrow> int + bytes" where
  "bytes_arg (NullBuf len) = (if len \<noteq> 0 then Inl SK_NULL_ARG else Inr [])"
| "bytes_arg (Buf bs) = Inr bs"

section \<open>Options\<close>

record SkDbOptions =
  sk_gc_interval_ms :: u64
  sk_cleanup_interval_ms :: u64
  sk_gc_full_scan_frequency :: u64
  sk_pool_size :: u64
  sk_reset_threshold :: u64
  sk_enable_cleanup :: int
  sk_enable_gc :: int

definition SkDbOptions_to_kv :: "SkDbOptions \<Rightarrow> DatabaseOptions" where
  "SkDbOptions_to_kv self =
     (let o1 = DatabaseOptions_default;
          o2 = (if sk_gc_interval_ms self \<noteq> 0 then o1\<lparr>opt_gc_interval := from_millis (unat (sk_gc_interval_ms self))\<rparr> else o1);
          o3 = (if sk_cleanup_interval_ms self \<noteq> 0
                then o2\<lparr>opt_cleanup_interval := from_millis (unat (sk_cleanup_interval_ms self))\<rparr> else o2);
          o4 = (if sk_gc_full_scan_frequency self \<noteq> 0
                then o3\<lparr>opt_gc_full_scan_frequency := sk_gc_full_scan_frequency self\<rparr> else o3);
          o5 = (if sk_pool_size self \<noteq> 0 then o4\<lparr>opt_pool_size := unat (sk_pool_size self)\<rparr> else o4);
          o6 = (if sk_reset_threshold self \<noteq> 0 then o5\<lparr>opt_reset_threshold := unat (sk_reset_threshold self)\<rparr> else o5);
          o7 = (if sk_enable_cleanup self \<ge> 0 then o6\<lparr>opt_enable_cleanup := (sk_enable_cleanup self \<noteq> 0)\<rparr> else o6)
      in if sk_enable_gc self \<ge> 0 then o7\<lparr>opt_enable_gc := (sk_enable_gc self \<noteq> 0)\<rparr> else o7)"

record SkPersistOptions =
  sp_base_path :: "string option"
  sp_snapshot_path :: "string option"
  sp_aol_path :: "string option"
  sp_snapshot_mode :: int
  sp_snapshot_interval_ms :: u64
  sp_aol_mode :: int
  sp_fsync_mode :: int
  sp_fsync_interval_ms :: u64
  sp_compression :: int

definition SkPersistOptions_to_kv :: "SkPersistOptions \<Rightarrow> string + PersistenceOptions" where
  "SkPersistOptions_to_kv self =
     (case sp_base_path self of
        None \<Rightarrow> Inl ''base_path is NULL''
      | Some base \<Rightarrow>
          if sp_snapshot_mode self \<notin> {0, 1} then Inl (''invalid snapshot_mode: '' @ show_int (sp_snapshot_mode self))
          else if sp_aol_mode self \<notin> {0, 1, 2} then Inl (''invalid aol_mode: '' @ show_int (sp_aol_mode self))
          else if sp_fsync_mode self \<notin> {0, 1, 2} then Inl (''invalid fsync_mode: '' @ show_int (sp_fsync_mode self))
          else if sp_compression self \<notin> {0, 1} then Inl (''invalid compression: '' @ show_int (sp_compression self))
          else
            let o1 = PersistenceOptions_new base;
                o2 = (if sp_snapshot_path self \<noteq> None then o1\<lparr>opt_snapshot_path := sp_snapshot_path self\<rparr> else o1);
                o3 = (if sp_aol_path self \<noteq> None then o2\<lparr>opt_aol_path := sp_aol_path self\<rparr> else o2)
            in Inr (o3\<lparr>
              snapshot_mode := (if sp_snapshot_mode self = 0 then SnapshotNever
                else SnapshotInterval (from_millis (unat (sp_snapshot_interval_ms self)))),
              opt_aol_mode := (if sp_aol_mode self = 0 then AolNever
                else if sp_aol_mode self = 1 then SynchronousOnCommit else AsynchronousAfterCommit),
              opt_fsync_mode := (if sp_fsync_mode self = 0 then FsyncNever
                else if sp_fsync_mode self = 1 then EveryAppend
                else FsyncInterval (from_millis (max (unat (sp_fsync_interval_ms self)) 1))),
              opt_compression_mode := (if sp_compression self = 0 then CompressionNone else Lz4)\<rparr>))"

section \<open>Databases\<close>

definition box_db :: "Database \<Rightarrow> c_heap \<Rightarrow> nat \<times> c_heap" where
  "box_db db h = (h_next h, h\<lparr>h_engines := (h_engines h)(h_next h \<mapsto> db), h_dbs := insert (h_next h) (h_dbs h),
     h_next := Suc (h_next h)\<rparr>)"

definition sk_db_new_with_options :: "SkDbOptions option \<Rightarrow> nat option \<Rightarrow> nat \<Rightarrow> c_heap \<Rightarrow> nat \<times> c_heap" where
  "sk_db_new_with_options opts unix now h =
     (let kv_opts = (case opts of None \<Rightarrow> DatabaseOptions_default | Some o' \<Rightarrow> SkDbOptions_to_kv o') in
      case new_with_options kv_opts unix now of None \<Rightarrow> (0, h) | Some db \<Rightarrow> box_db db h)"

definition sk_db_new :: "nat option \<Rightarrow> nat \<Rightarrow> c_heap \<Rightarrow> nat \<times> c_heap" where
  "sk_db_new unix now h =
     (case new_with_options DatabaseOptions_default unix now of None \<Rightarrow> (0, h) | Some db \<Rightarrow> box_db db h)"

text \<open>The handle and the error text; the clock before the epoch is a panic, which the barrier catches.\<close>

definition sk_db_new_with_persistence :: "world \<Rightarrow> (string \<Rightarrow> bytes option) \<Rightarrow> SkDbOptions option \<Rightarrow> SkPersistOptions option \<Rightarrow>
    bool \<Rightarrow> nat option \<Rightarrow> nat \<Rightarrow> c_heap \<Rightarrow> (nat \<times> nat \<times> c_heap) option" where
  "sk_db_new_with_persistence w disk opts popts err_out unix now h =
     (let fail = (\<lambda>msg. case set_err err_out msg h of (p, h') \<Rightarrow> Some (0, p, h')) in
      case popts of
        None \<Rightarrow> fail ''popts is NULL''
      | Some po \<Rightarrow>
          (case SkPersistOptions_to_kv po of
             Inl msg \<Rightarrow> fail msg
           | Inr kv_popts \<Rightarrow>
               let kv_opts = (case opts of None \<Rightarrow> DatabaseOptions_default | Some o' \<Rightarrow> SkDbOptions_to_kv o') in
               if Inner_new kv_opts unix now = None then fail ''rust panic escaped the FFI boundary''
               else
                 (case new_with_persistence (w_codec w) (w_io w) kv_opts kv_popts disk unix now of
                    None \<Rightarrow> None
                  | Some (Inl e) \<Rightarrow> fail (persistence_error_message e)
                  | Some (Inr db) \<Rightarrow> (case box_db db h of (d, h') \<Rightarrow> Some (d, 0, h')))))"

definition sk_db_free :: "nat \<Rightarrow> c_heap \<Rightarrow> c_heap option" where
  "sk_db_free d h =
     (if d = 0 then Some h
      else if d \<notin> h_dbs h then None
      else map_option (\<lambda>db. h\<lparr>h_engines := (h_engines h)(d \<mapsto> shutdown db), h_dbs := h_dbs h - {d}\<rparr>) (h_engines h d))"

definition sk_db_tx_begin :: "nat \<Rightarrow> int \<Rightarrow> c_heap \<Rightarrow> (nat \<times> c_heap) option" where
  "sk_db_tx_begin d write h =
     (if d \<notin> h_dbs h then None
      else
        (case h_engines h d of
           None \<Rightarrow> None
         | Some db \<Rightarrow>
             (case transaction db (write \<noteq> 0) of
                None \<Rightarrow> None
              | Some (tx, db') \<Rightarrow>
                  Some (h_next h, h\<lparr>h_engines := (h_engines h)(d \<mapsto> db'),
                    h_txs := om_insert (h_next h) (d, Some tx) (h_txs h), h_next := Suc (h_next h)\<rparr>))))"

definition sk_db_snapshot :: "world \<Rightarrow> nat \<Rightarrow> bool \<Rightarrow> c_heap \<Rightarrow> (c_ret \<times> c_heap) option" where
  "sk_db_snapshot w d err_out h =
     (if d = 0 then Some (ret SK_NULL_ARG, h)
      else if d \<notin> h_dbs h then None
      else
        (case h_engines h d of
           None \<Rightarrow> None
         | Some db \<Rightarrow>
             (case db_snapshot w db of
                (r, db') \<Rightarrow>
                  Some (guard err_out
                    (Returned (case r of Inl e \<Rightarrow> Inl (SK_IO, persistence_error_message e) | Inr _ \<Rightarrow> Inr (ret SK_OK)))
                    (h\<lparr>h_engines := (h_engines h)(d \<mapsto> db')\<rparr>)))))"


section \<open>Transactions\<close>

text \<open>\<open>lock_tx\<close>: the database and the content of a live handle.  A poisoned lock is entered all the same.\<close>

definition lock_tx :: "nat \<Rightarrow> c_heap \<Rightarrow> (nat \<times> Database \<times> TransactionInner option) option" where
  "lock_tx a h =
     (case map_of (h_txs h) a of
        None \<Rightarrow> None
      | Some (d, t) \<Rightarrow> map_option (\<lambda>db. (d, db, t)) (h_engines h d))"

definition store_tx :: "nat \<Rightarrow> nat \<Rightarrow> TransactionInner \<Rightarrow> c_heap \<Rightarrow> c_heap" where
  "store_tx a d t h = h\<lparr>h_txs := om_insert a (d, Some t) (h_txs h)\<rparr>"

definition closed_handle :: "int \<times> string" where
  "closed_handle = (SK_TX_CLOSED, ''transaction is closed'')"

definition sk_tx_free :: "nat \<Rightarrow> c_heap \<Rightarrow> c_heap option" where
  "sk_tx_free a h =
     (if a = 0 then Some h
      else
        (case lock_tx a h of
           None \<Rightarrow> None
         | Some (d, db, None) \<Rightarrow> Some (h\<lparr>h_txs := om_remove a (h_txs h)\<rparr>)
         | Some (d, db, Some t) \<Rightarrow>
             map_option (\<lambda>db'. h\<lparr>h_engines := (h_engines h)(d \<mapsto> db'), h_txs := om_remove a (h_txs h)\<rparr>)
               (Transaction_drop t db)))"

definition sk_tx_version :: "nat \<Rightarrow> c_heap \<Rightarrow> u64 option" where
  "sk_tx_version a h =
     (if a = 0 then Some 0
      else map_option (\<lambda>(d, db, t). case t of Some t \<Rightarrow> tx_version t | None \<Rightarrow> 0) (lock_tx a h))"

definition sk_tx_is_closed :: "nat \<Rightarrow> c_heap \<Rightarrow> int option" where
  "sk_tx_is_closed a h =
     (if a = 0 then Some 1
      else map_option (\<lambda>(d, db, t). case t of Some t \<Rightarrow> (if tx_done t then 1 else 0) | None \<Rightarrow> 1) (lock_tx a h))"

definition switch_isolation :: "nat \<Rightarrow> bool \<Rightarrow> c_heap \<Rightarrow> (c_ret \<times> c_heap) option" where
  "switch_isolation a ssi h =
     (if a = 0 then Some (ret SK_NULL_ARG, h)
      else
        (case lock_tx a h of
           None \<Rightarrow> None
         | Some (d, db, None) \<Rightarrow> Some (guard False (Returned (Inl closed_handle)) h)
         | Some (d, db, Some t) \<Rightarrow>
             Some (guard False (Returned (Inr (ret SK_OK)))
               (store_tx a d (if ssi then with_serializable_snapshot_isolation t else with_snapshot_isolation t) h))))"

definition sk_tx_with_snapshot_isolation :: "nat \<Rightarrow> c_heap \<Rightarrow> (c_ret \<times> c_heap) option" where
  "sk_tx_with_snapshot_isolation a h = switch_isolation a False h"

definition sk_tx_with_serializable_snapshot_isolation :: "nat \<Rightarrow> c_heap \<Rightarrow> (c_ret \<times> c_heap) option" where
  "sk_tx_with_serializable_snapshot_isolation a h = switch_isolation a True h"

definition sk_free_value :: "nat \<Rightarrow> nat \<Rightarrow> c_heap \<Rightarrow> c_heap option" where
  "sk_free_value ptr len h =
     (if ptr = 0 then Some h
      else
        (case h_values h ptr of
           None \<Rightarrow> None
         | Some v \<Rightarrow> if length v = len then Some (h\<lparr>h_values := (h_values h)(ptr := None)\<rparr>) else None))"

definition sk_free_string :: "nat \<Rightarrow> c_heap \<Rightarrow> c_heap option" where
  "sk_free_string ptr h =
     (if ptr = 0 then Some h
      else
        (case h_strings h ptr of
           None \<Rightarrow> None
         | Some _ \<Rightarrow> Some (h\<lparr>h_strings := (h_strings h)(ptr := None)\<rparr>)))"

text \<open>Handing a value to the caller: both out-parameters are written where they are non-null, and the
  value is reclaimed when one of them is null.\<close>

definition hand_out :: "bytes \<Rightarrow> bool \<Rightarrow> bool \<Rightarrow> c_heap \<Rightarrow> c_ret \<times> c_heap" where
  "hand_out v val_out len_out h =
     (case alloc_value v h of
        (ptr, h1) \<Rightarrow>
          ((ret SK_OK)\<lparr>val_ptr := (if val_out then ptr else 0), val_len := (if len_out then Some (length v) else None)\<rparr>,
           if \<not> val_out \<or> \<not> len_out then the (sk_free_value ptr (length v) h1) else h1))"

definition sk_tx_get :: "nat \<Rightarrow> buffer \<Rightarrow> bool \<Rightarrow> bool \<Rightarrow> bool \<Rightarrow> c_heap \<Rightarrow> (c_ret \<times> c_heap) option" where
  "sk_tx_get a key val_out len_out err_out h =
     (if a = 0 then Some (ret SK_NULL_ARG, h)
      else
        (case bytes_arg key of
           Inl c \<Rightarrow> Some (guard err_out (Returned (Inl (c, ''invalid key buffer''))) h)
         | Inr k \<Rightarrow>
             (case lock_tx a h of
                None \<Rightarrow> None
              | Some (d, db, None) \<Rightarrow> Some (guard err_out (Returned (Inl closed_handle)) h)
              | Some (d, db, Some t) \<Rightarrow>
                  (case get (db_inner db) k t of
                     (Inr (Some v), t') \<Rightarrow>
                       (case hand_out v val_out len_out (store_tx a d t' h) of
                          (r, h') \<Rightarrow> Some (guard err_out (Returned (Inr r)) h'))
                   | (Inr None, t') \<Rightarrow> Some (guard err_out (Returned (Inr (ret SK_NOT_FOUND))) (store_tx a d t' h))
                   | (Inl e, t') \<Rightarrow> Some (guard err_out (Returned (Inl (map_err e))) (store_tx a d t' h))))))"

definition sk_tx_exists :: "nat \<Rightarrow> buffer \<Rightarrow> bool \<Rightarrow> bool \<Rightarrow> c_heap \<Rightarrow> (c_ret \<times> c_heap) option" where
  "sk_tx_exists a key out err_out h =
     (if a = 0 then Some (ret SK_NULL_ARG, h)
      else
        (case bytes_arg key of
           Inl c \<Rightarrow> Some (guard err_out (Returned (Inl (c, ''invalid key buffer''))) h)
         | Inr k \<Rightarrow>
             (case lock_tx a h of
                None \<Rightarrow> None
              | Some (d, db, None) \<Rightarrow> Some (guard err_out (Returned (Inl closed_handle)) h)
              | Some (d, db, Some t) \<Rightarrow>
                  (case exists (db_inner db) k t of
                     (Inr found, t') \<Rightarrow>
                       Some (guard err_out (Returned (Inr
                         ((ret SK_OK)\<lparr>out_flag := (if out then Some (if found then 1 else 0) else None)\<rparr>))) (store_tx a d t' h))
                   | (Inl e, t') \<Rightarrow> Some (guard err_out (Returned (Inl (map_err e))) (store_tx a d t' h))))))"

datatype WriteOp = WSet | WPut | WDel

fun run_write :: "Inner \<Rightarrow> WriteOp \<Rightarrow> bytes \<Rightarrow> bytes option \<Rightarrow> TransactionInner \<Rightarrow> (Error + unit) \<times> TransactionInner" where
  "run_write db WSet k val t = (case val of Some v \<Rightarrow> set_value k v t | None \<Rightarrow> (Inl TxNotWritable, t))"
| "run_write db WPut k val t = (case val of Some v \<Rightarrow> put db k v t | None \<Rightarrow> (Inl TxNotWritable, t))"
| "run_write db WDel k val t = del k t"

text \<open>A unit result of the engine as the closure returns it.\<close>

definition finish_unit :: "bool \<Rightarrow> Error + unit \<Rightarrow> c_heap \<Rightarrow> c_ret \<times> c_heap" where
  "finish_unit err_out r h =
     guard err_out (Returned (case r of Inl e \<Rightarrow> Inl (map_err e) | Inr _ \<Rightarrow> Inr (ret SK_OK))) h"

definition write_op :: "nat \<Rightarrow> buffer \<Rightarrow> buffer option \<Rightarrow> WriteOp \<Rightarrow> bool \<Rightarrow> c_heap \<Rightarrow> (c_ret \<times> c_heap) option" where
  "write_op a key val op err_out h =
     (if a = 0 then Some (ret SK_NULL_ARG, h)
      else
        (case bytes_arg key of
           Inl c \<Rightarrow> Some (guard err_out (Returned (Inl (c, ''invalid key buffer''))) h)
         | Inr k \<Rightarrow>
             (case (case val of None \<Rightarrow> Inr None | Some b \<Rightarrow> map_sum id Some (bytes_arg b)) of
                Inl c \<Rightarrow> Some (guard err_out (Returned (Inl (c, ''invalid value buffer''))) h)
              | Inr v \<Rightarrow>
                  (case lock_tx a h of
                     None \<Rightarrow> None
                   | Some (d, db, None) \<Rightarrow> Some (guard err_out (Returned (Inl closed_handle)) h)
                   | Some (d, db, Some t) \<Rightarrow>
                       (case run_write (db_inner db) op k v t of
                          (r, t') \<Rightarrow> Some (finish_unit err_out r (store_tx a d t' h)))))))"

definition sk_tx_set :: "nat \<Rightarrow> buffer \<Rightarrow> buffer \<Rightarrow> bool \<Rightarrow> c_heap \<Rightarrow> (c_ret \<times> c_heap) option" where
  "sk_tx_set a key val err_out h = write_op a key (Some val) WSet err_out h"

definition sk_tx_put :: "nat \<Rightarrow> buffer \<Rightarrow> buffer \<Rightarrow> bool \<Rightarrow> c_heap \<Rightarrow> (c_ret \<times> c_heap) option" where
  "sk_tx_put a key val err_out h = write_op a key (Some val) WPut err_out h"

definition sk_tx_del :: "nat \<Rightarrow> buffer \<Rightarrow> bool \<Rightarrow> c_heap \<Rightarrow> (c_ret \<times> c_heap) option" where
  "sk_tx_del a key err_out h = write_op a key None WDel err_out h"

definition sk_tx_commit :: "world \<Rightarrow> nat \<Rightarrow> bool \<Rightarrow> c_heap \<Rightarrow> (c_ret \<times> c_heap) option" where
  "sk_tx_commit w a err_out h =
     (if a = 0 then Some (ret SK_NULL_ARG, h)
      else
        (case lock_tx a h of
           None \<Rightarrow> None
         | Some (d, db, None) \<Rightarrow> Some (guard err_out (Returned (Inl closed_handle)) h)
         | Some (d, db, Some t) \<Rightarrow>
             (case commit w t (db_inner db) of
                None \<Rightarrow> None
              | Some (r, t', inner) \<Rightarrow>
                  Some (finish_unit err_out r
                    (store_tx a d t' (h\<lparr>h_engines := (h_engines h)(d \<mapsto> db\<lparr>db_inner := inner\<rparr>)\<rparr>))))))"

definition sk_tx_cancel :: "nat \<Rightarrow> bool \<Rightarrow> c_heap \<Rightarrow> (c_ret \<times> c_heap) option" where
  "sk_tx_cancel a err_out h =
     (if a = 0 then Some (ret SK_NULL_ARG, h)
      else
        (case lock_tx a h of
           None \<Rightarrow> None
         | Some (d, db, None) \<Rightarrow> Some (guard err_out (Returned (Inl closed_handle)) h)
         | Some (d, db, Some t) \<Rightarrow>
             (case cancel t of (r, t') \<Rightarrow> Some (finish_unit err_out r (store_tx a d t' h)))))"

end
