(* ===== verification/C_Refinement.thy ===== *)
theory C_Refinement
  imports C_Interface
begin

text \<open>
  A C program over the interface runs the engine: every call on live handles is one step of the system
  of theory \<open>System\<close>, with the code that step's result calls for, and leaves the other databases alone.
  Memory: what a call hands out is owned by the caller until the matching free.
\<close>

section \<open>Calls\<close>

datatype c_call =
    CBegin nat int
  | CGet nat buffer bool bool bool
  | CExists nat buffer bool bool
  | CSet nat buffer buffer bool
  | CPut nat buffer buffer bool
  | CDel nat buffer bool
  | CCommit nat bool
  | CCancel nat bool
  | CIsolation nat bool
  | CFree nat

fun run_c :: "world \<Rightarrow> c_call \<Rightarrow> c_heap \<Rightarrow> (c_ret \<times> c_heap) option" where
  "run_c w (CBegin d write) h = map_option (\<lambda>(a, h'). ((ret SK_OK)\<lparr>val_ptr := a\<rparr>, h')) (sk_db_tx_begin d write h)"
| "run_c w (CGet a k vo lo eo) h = sk_tx_get a k vo lo eo h"
| "run_c w (CExists a k out eo) h = sk_tx_exists a k out eo h"
| "run_c w (CSet a k v eo) h = sk_tx_set a k v eo h"
| "run_c w (CPut a k v eo) h = sk_tx_put a k v eo h"
| "run_c w (CDel a k eo) h = sk_tx_del a k eo h"
| "run_c w (CCommit a eo) h = sk_tx_commit w a eo h"
| "run_c w (CCancel a eo) h = sk_tx_cancel a eo h"
| "run_c w (CIsolation a ssi) h =
     (if ssi then sk_tx_with_serializable_snapshot_isolation a h else sk_tx_with_snapshot_isolation a h)"
| "run_c w (CFree a) h = map_option (Pair (ret SK_OK)) (sk_tx_free a h)"

section \<open>The system behind a database handle\<close>

definition project :: "nat \<Rightarrow> (nat, nat \<times> TransactionInner option) omap \<Rightarrow> (nat, TransactionInner) omap" where
  "project d m = List.map_filter (\<lambda>(a, d', t). if d' = d then map_option (Pair a) t else None) m"

definition abs_c :: "nat \<Rightarrow> c_heap \<Rightarrow> System" where
  "abs_c d h = \<lparr>sys_db = the (h_engines h d), live = project d (h_txs h)\<rparr>"

definition entry_ok :: "nat \<Rightarrow> (nat \<Rightarrow> Database option) \<Rightarrow> nat \<times> nat \<times> TransactionInner option \<Rightarrow> bool" where
  "entry_ok n engines e \<longleftrightarrow> 0 < fst e \<and> fst e < n \<and> engines (fst (snd e)) \<noteq> None \<and> snd (snd e) \<noteq> None"

definition c_wf :: "c_heap \<Rightarrow> bool" where
  "c_wf h \<longleftrightarrow> om_wf (h_txs h) \<and> 0 < h_next h \<and> (\<forall>e\<in>set (h_txs h). entry_ok (h_next h) (h_engines h) e)
     \<and> dom (h_values h) \<union> dom (h_strings h) \<subseteq> {0<..<h_next h}"

lemma entry_ok_mono:
  "entry_ok n engines e \<Longrightarrow> n \<le> n' \<Longrightarrow> dom engines \<subseteq> dom engines' \<Longrightarrow> entry_ok n' engines' e"
  by (force simp: entry_ok_def)

definition c_frame :: "c_heap \<Rightarrow> c_heap \<Rightarrow> bool" where
  "c_frame h h' \<longleftrightarrow> h_engines h' = h_engines h \<and> h_txs h' = h_txs h \<and> (c_wf h \<longrightarrow> c_wf h')"

section \<open>Projections\<close>

lemma project_simps [simp]:
  "project d [] = []"
  "project d ((a, d', t) # m) = (if d' = d then (case t of Some t \<Rightarrow> (a, t) # project d m | None \<Rightarrow> project d m) else project d m)"
  by (simp_all add: project_def map_filter_simps split: option.splits)

lemma set_project: "(a, t) \<in> set (project d m) \<longleftrightarrow> (a, d, Some t) \<in> set m"
  by (induction m) (auto split: option.splits if_splits)

lemma om_wf_ConsD: "om_wf (e # m) \<Longrightarrow> om_wf m" "om_wf (e # m) \<Longrightarrow> \<forall>x\<in>set m. fst e < fst x"
  by (auto simp: om_wf_def)

lemma om_insert_front: "\<forall>x\<in>fst ` set m. k < x \<Longrightarrow> om_insert k v m = (k, v) # m"
  by (cases m) auto

lemma project_front: "\<forall>x\<in>set m. k < fst x \<Longrightarrow> om_insert k v (project d m) = (k, v) # project d m"
  by (intro om_insert_front) (force simp: set_project)

lemma project_insert:
  "om_wf m \<Longrightarrow> project d (om_insert a (d, Some t) m) = om_insert a t (project d m)"
proof (induction m)
  case (Cons e m)
  obtain b d' t' where e: "e = (b, d', t')" by (cases e) auto
  note wf = om_wf_ConsD [OF Cons.prems]
  show ?case
  proof (cases a b rule: linorder_cases)
    case less
    then have "\<forall>x\<in>set (e # m). a < fst x" using wf(2) by (auto simp: e)
    from project_front [OF this, of t d] less show ?thesis by (simp add: e)
  next
    case equal
    then have "\<forall>x\<in>set m. a < fst x" using wf(2) by (auto simp: e)
    from project_front [OF this, of t d] equal show ?thesis by (auto simp: e split: option.splits)
  next
    case greater
    with Cons.IH [OF wf(1)] show ?thesis by (auto simp: e split: option.splits)
  qed
qed simp

lemma project_insert_other:
  assumes "d' \<noteq> d" "\<And>x t. map_of m a = Some (x, t) \<Longrightarrow> x = d'"
  shows "project d (om_insert a (d', t) m) = project d m"
  using assms
proof (induction m)
  case (Cons e m)
  obtain b x t' where e: "e = (b, x, t')" by (cases e) auto
  show ?case
  proof (cases a b rule: linorder_cases)
    case equal
    with Cons.prems(2) [of x t'] Cons.prems(1) show ?thesis by (simp add: e)
  qed (use Cons in \<open>auto simp: e split: option.splits\<close>)
qed simp

lemma project_remove: "project d (om_remove a m) = om_remove a (project d m)"
  by (induction m) (auto simp: om_remove_def split: option.splits)

lemma om_remove_fresh: "k \<notin> fst ` set m \<Longrightarrow> om_remove k m = m"
  by (auto simp: om_remove_def filter_id_conv)

lemma om_wf_project: "om_wf m \<Longrightarrow> om_wf (project d m)"
proof (induction m)
  case (Cons e m)
  obtain b d' t where e: "e = (b, d', t)" by (cases e) auto
  note wf = om_wf_ConsD [OF Cons.prems]
  then have "\<forall>x\<in>set (project d m). b < fst x" by (force simp: set_project e)
  with Cons.IH [OF wf(1)] show ?case by (auto simp: e om_wf_def split: option.splits)
qed simp

lemma map_of_project:
  assumes "om_wf m" "map_of m a = Some (d, Some t)"
  shows "map_of (project d m) a = Some t"
  using assms om_wf_project [OF assms(1), of d] by (simp add: om_wf_map_of_iff set_project)

lemma map_of_project_None: "map_of m a = None \<Longrightarrow> map_of (project d m) a = None"
  by (force simp: map_of_eq_None_iff set_project)

lemma project_remove_other:
  assumes "om_wf m" "map_of m a = Some (d', t)" "d' \<noteq> d"
  shows "project d (om_remove a m) = project d m"
proof -
  have "(a, d, Some x) \<notin> set m" for x
    using assms by (auto simp: om_wf_map_of_iff [symmetric])
  then have "a \<notin> fst ` set (project d m)" by (auto simp: set_project)
  then show ?thesis by (simp add: project_remove om_remove_fresh)
qed


section \<open>Frames\<close>

lemma c_frame_refl [simp]: "c_frame h h"
  by (simp add: c_frame_def)

lemma c_frame_trans: "c_frame h h' \<Longrightarrow> c_frame h' h'' \<Longrightarrow> c_frame h h''"
  by (auto simp: c_frame_def)

lemma alloc_frame: "c_frame h (snd (alloc_string msg h))" "c_frame h (snd (alloc_value v h))"
  by (auto simp: c_frame_def c_wf_def alloc_string_def alloc_value_def intro: entry_ok_mono)

lemma set_err_frame: "c_frame h (snd (set_err eo msg h))"
  by (simp add: set_err_def alloc_frame)

lemma guard_frame: "c_frame h (snd (guard eo x h))"
proof (cases "(eo, x, h)" rule: guard.cases)
  case (2 err_out c msg h1)
  then show ?thesis using set_err_frame [of h err_out msg] by (auto split: prod.splits)
next
  case (3 err_out h1)
  then show ?thesis using set_err_frame [of h err_out "''rust panic escaped the FFI boundary''"] by (auto split: prod.splits)
qed simp

lemma guard_code: "code (fst (guard eo (Returned (Inl (c, msg))) h)) = c"
  by (simp add: ret_def split: prod.splits)

lemma free_value_frame: "sk_free_value p n h = Some h' \<Longrightarrow> c_frame h h'"
  by (auto simp: sk_free_value_def c_frame_def c_wf_def subset_iff dom_def split: if_splits option.splits)

lemma hand_out_frame: "c_frame h (snd (hand_out v vo lo h))"
proof -
  obtain p h1 where a: "alloc_value v h = (p, h1)" by fastforce
  have f: "c_frame h h1" using alloc_frame(2) [of h v] a by simp
  have "sk_free_value p (length v) h1 \<noteq> None" using a by (auto simp: alloc_value_def sk_free_value_def)
  then obtain h2 where "sk_free_value p (length v) h1 = Some h2" by blast
  with f free_value_frame [OF this] a show ?thesis by (auto simp: hand_out_def intro: c_frame_trans)
qed

lemma hand_out_code [simp]: "code (fst (hand_out v vo lo h)) = SK_OK"
  by (simp add: hand_out_def ret_def split: prod.splits)

lemma finish_unit_frame: "c_frame h (snd (finish_unit eo r h))"
  by (simp add: finish_unit_def guard_frame)

fun ret_code :: "tx_result \<Rightarrow> int" where
  "ret_code (RValue (Inl e)) = fst (map_err e)"
| "ret_code (RValue (Inr v)) = (case v of Some _ \<Rightarrow> SK_OK | None \<Rightarrow> SK_NOT_FOUND)"
| "ret_code (RBool (Inl e)) = fst (map_err e)"
| "ret_code (RBool (Inr _)) = SK_OK"
| "ret_code (RUnit (Inl e)) = fst (map_err e)"
| "ret_code (RUnit (Inr _)) = SK_OK"

lemma guard_map_err_code [simp]: "code (fst (guard eo (Returned (Inl (map_err e))) h)) = fst (map_err e)"
  by (cases "map_err e") (simp add: ret_def split: prod.splits)

lemma finish_unit_code [simp]: "code (fst (finish_unit eo r h)) = ret_code (RUnit r)"
  by (cases r) (simp_all add: finish_unit_def ret_def)

section \<open>Calls are steps\<close>

lemma lock_txD:
  assumes "c_wf h" "lock_tx a h = Some (d, db, t)"
  shows "map_of (h_txs h) a = Some (d, t)" "h_engines h d = Some db" "t \<noteq> None"
  using assms map_of_SomeD [of "h_txs h" a] by (fastforce simp: lock_tx_def c_wf_def entry_ok_def split: option.splits)+

lemma store_tx_wf:
  assumes "c_wf h" "map_of (h_txs h) a = Some (d, t0)"
  shows "c_wf (store_tx a d t h)"
proof -
  have "(a, d, t0) \<in> set (h_txs h)" "om_wf (h_txs h)" using assms by (auto simp: c_wf_def dest: map_of_SomeD)
  moreover from this assms(1) have "entry_ok (h_next h) (h_engines h) (a, d, Some t)" by (force simp: c_wf_def entry_ok_def)
  ultimately show ?thesis using assms(1) by (auto simp: c_wf_def store_tx_def set_om_insert om_wf_insert)
qed

lemma abs_c_frame: "c_frame h h' \<Longrightarrow> abs_c d h' = abs_c d h"
  by (simp add: abs_c_def c_frame_def)

lemma abs_c_store:
  assumes "c_wf h" "map_of (h_txs h) a = Some (d, t0)"
  shows "abs_c d' (store_tx a d t h)
    = (if d' = d then (abs_c d h)\<lparr>live := om_insert a t (live (abs_c d h))\<rparr> else abs_c d' h)"
proof -
  have "om_wf (h_txs h)" using assms(1) by (simp add: c_wf_def)
  moreover have "project d' (om_insert a (d, Some t) (h_txs h)) = project d' (h_txs h)" if "d' \<noteq> d"
    by (rule project_insert_other) (use assms(2) that in auto)
  ultimately show ?thesis by (simp add: abs_c_def store_tx_def project_insert)
qed

text \<open>One event on the database \<open>d\<close>, none on the others.\<close>

definition single :: "nat \<Rightarrow> event \<Rightarrow> c_heap \<Rightarrow> c_heap \<Rightarrow> bool" where
  "single d e h h' \<longleftrightarrow> c_wf h' \<and> step (abs_c d h) e (abs_c d h') \<and> (\<forall>d'. d' \<noteq> d \<longrightarrow> abs_c d' h' = abs_c d' h)"

lemma single_frame: "single d e h h' \<Longrightarrow> c_frame h' h'' \<Longrightarrow> single d e h h''"
  unfolding single_def using abs_c_frame [of h' h''] by (auto simp: c_frame_def)

lemma op_single:
  assumes "c_wf h" "lock_tx a h = Some (d, db, Some t)" "run_op (db_inner db) op t = (res, t')"
  shows "single d (Op a op res) h (store_tx a d t' h)"
proof -
  note l = lock_txD [OF assms(1,2)]
  have "om_wf (h_txs h)" using assms(1) by (simp add: c_wf_def)
  then have "map_of (live (abs_c d h)) a = Some t" by (simp add: abs_c_def map_of_project l(1))
  moreover have "sys_inner (abs_c d h) = db_inner db" by (simp add: abs_c_def l(2))
  ultimately show ?thesis
    using step_op [of "abs_c d h" a t op res t'] assms(3) store_tx_wf [OF assms(1) l(1)]
    by (simp add: single_def abs_c_store [OF assms(1) l(1)])
qed

lemma commit_single:
  assumes "c_wf h" "lock_tx a h = Some (d, db, Some t)" "commit w t (db_inner db) = Some (r, t', inner)"
    and "timestamp (ts_oracle (db_inner db)) < u64_MAX" "transaction_commit_id (db_inner db) < u64_MAX"
  shows "single d (Committed a r) h (store_tx a d t' (h\<lparr>h_engines := (h_engines h)(d \<mapsto> db\<lparr>db_inner := inner\<rparr>)\<rparr>))"
proof -
  let ?h = "h\<lparr>h_engines := (h_engines h)(d \<mapsto> db\<lparr>db_inner := inner\<rparr>)\<rparr>"
  note l = lock_txD [OF assms(1,2)]
  have wf: "c_wf ?h" using assms(1) by (auto simp: c_wf_def intro: entry_ok_mono)
  have m: "map_of (h_txs ?h) a = Some (d, Some t)" using l(1) by simp
  have "om_wf (h_txs h)" using assms(1) by (simp add: c_wf_def)
  then have "map_of (live (abs_c d h)) a = Some t" by (simp add: abs_c_def map_of_project l(1))
  moreover have "sys_inner (abs_c d h) = db_inner db" "sys_db (abs_c d h) = db" by (simp_all add: abs_c_def l(2))
  ultimately show ?thesis
    using step_commit [of "abs_c d h" a t w r t' inner] assms(3-5) store_tx_wf [OF wf m, of t']
    by (simp add: single_def abs_c_store [OF wf m]) (simp add: abs_c_def)
qed

lemma begin_single:
  assumes "c_wf h" "h_engines h d = Some db" "transaction db wr = Some (t, db')" "a = h_next h"
    and "Suc (length (live (abs_c d h))) < 2 ^ 64 - 1"
  shows "single d (Begin a wr) h (h\<lparr>h_engines := (h_engines h)(d \<mapsto> db'),
    h_txs := om_insert a (d, Some t) (h_txs h), h_next := Suc a\<rparr>)"
proof -
  have wf: "om_wf (h_txs h)" and fresh: "map_of (h_txs h) a = None"
    using assms(1,4) by (force simp: c_wf_def map_of_eq_None_iff entry_ok_def)+
  have "step (abs_c d h) (Begin a wr) \<lparr>sys_db = db', live = om_insert a t (live (abs_c d h))\<rparr>"
    by (rule step_begin) (use assms(2,3,5) map_of_project_None [OF fresh] in \<open>simp_all add: abs_c_def\<close>)
  moreover have "c_wf (h\<lparr>h_engines := (h_engines h)(d \<mapsto> db'), h_txs := om_insert a (d, Some t) (h_txs h), h_next := Suc a\<rparr>)"
    using assms(1,4) wf by (auto simp: c_wf_def set_om_insert om_wf_insert entry_ok_def intro: less_SucI)
  moreover have "project d' (om_insert a (d, Some t) (h_txs h)) = project d' (h_txs h)" if "d' \<noteq> d" for d'
    by (rule project_insert_other) (use fresh that in auto)
  ultimately show ?thesis
    using wf by (simp add: single_def abs_c_def project_insert)
qed

lemma free_single:
  assumes "c_wf h" "lock_tx a h = Some (d, db, Some t)" "Transaction_drop t db = Some db'"
  shows "single d (Dropped a) h (h\<lparr>h_engines := (h_engines h)(d \<mapsto> db'), h_txs := om_remove a (h_txs h)\<rparr>)"
proof -
  note l = lock_txD [OF assms(1,2)]
  have wf: "om_wf (h_txs h)" using assms(1) by (simp add: c_wf_def)
  then have "map_of (live (abs_c d h)) a = Some t" by (simp add: abs_c_def map_of_project l(1))
  then have "step (abs_c d h) (Dropped a) \<lparr>sys_db = db', live = om_remove a (live (abs_c d h))\<rparr>"
    by (rule step_drop) (simp add: abs_c_def l(2) assms(3))
  moreover have "c_wf (h\<lparr>h_engines := (h_engines h)(d \<mapsto> db'), h_txs := om_remove a (h_txs h)\<rparr>)"
    using assms(1) by (auto simp: c_wf_def set_om_remove intro: om_wf_remove entry_ok_mono)
  ultimately show ?thesis
    using project_remove_other [OF wf l(1)] by (simp add: single_def abs_c_def project_remove)
qed


section \<open>All calls\<close>

text \<open>The transaction operation a call with a live handle and valid buffers stands for.\<close>

fun c_op :: "c_call \<Rightarrow> (nat \<times> tx_op) option" where
  "c_op (CGet a k vo lo eo) = (case bytes_arg k of Inl _ \<Rightarrow> None | Inr k \<Rightarrow> Some (a, OpGet k))"
| "c_op (CExists a k out eo) = (case bytes_arg k of Inl _ \<Rightarrow> None | Inr k \<Rightarrow> Some (a, OpExists k))"
| "c_op (CSet a k v eo) =
     (case bytes_arg k of Inl _ \<Rightarrow> None | Inr k \<Rightarrow> (case bytes_arg v of Inl _ \<Rightarrow> None | Inr v \<Rightarrow> Some (a, OpSet k v)))"
| "c_op (CPut a k v eo) =
     (case bytes_arg k of Inl _ \<Rightarrow> None | Inr k \<Rightarrow> (case bytes_arg v of Inl _ \<Rightarrow> None | Inr v \<Rightarrow> Some (a, OpPut k v)))"
| "c_op (CDel a k eo) = (case bytes_arg k of Inl _ \<Rightarrow> None | Inr k \<Rightarrow> Some (a, OpDel k))"
| "c_op (CCancel a eo) = Some (a, OpCancel)"
| "c_op (CIsolation a ssi) = Some (a, OpMode (if ssi then SerializableSnapshotIsolation else SnapshotIsolation))"
| "c_op _ = None"

text \<open>The event a call shows, given what it returned.\<close>

fun c_event :: "c_call \<Rightarrow> c_ret \<Rightarrow> event \<Rightarrow> bool" where
  "c_event call r (Op a op res) \<longleftrightarrow> c_op call = Some (a, op) \<and> code r = ret_code res"
| "c_event call r (Committed a res) \<longleftrightarrow> (\<exists>eo. call = CCommit a eo) \<and> code r = ret_code (RUnit res)"
| "c_event call r (Begin a wr) \<longleftrightarrow> (\<exists>d write. call = CBegin d write \<and> wr = (write \<noteq> 0)) \<and> val_ptr r = a"
| "c_event call r (Dropped a) \<longleftrightarrow> call = CFree a"
| "c_event call r Internal \<longleftrightarrow> False"

fun c_handle :: "c_call \<Rightarrow> nat" where
  "c_handle (CBegin d write) = d"
| "c_handle (CGet a k vo lo eo) = a"
| "c_handle (CExists a k out eo) = a"
| "c_handle (CSet a k v eo) = a"
| "c_handle (CPut a k v eo) = a"
| "c_handle (CDel a k eo) = a"
| "c_handle (CCommit a eo) = a"
| "c_handle (CCancel a eo) = a"
| "c_handle (CIsolation a ssi) = a"
| "c_handle (CFree a) = a"

text \<open>The database a call works on; \<open>None\<close> for a null handle or a buffer that is null with a length.\<close>

definition c_target :: "c_call \<Rightarrow> c_heap \<Rightarrow> nat option" where
  "c_target call h =
     (case call of
        CBegin d write \<Rightarrow> Some d
      | CCommit a eo \<Rightarrow> map_option fst (map_of (h_txs h) a)
      | CFree a \<Rightarrow> map_option fst (map_of (h_txs h) a)
      | _ \<Rightarrow> if c_op call = None then None else map_option fst (map_of (h_txs h) (c_handle call)))"

definition c_bounds :: "nat \<Rightarrow> c_heap \<Rightarrow> bool" where
  "c_bounds d h \<longleftrightarrow> Suc (length (live (abs_c d h))) < 2 ^ 64 - 1
     \<and> timestamp (ts_oracle (sys_inner (abs_c d h))) < u64_MAX \<and> transaction_commit_id (sys_inner (abs_c d h)) < u64_MAX"

text \<open>What a call does to the systems: one matching event on its target and nothing else.\<close>

definition c_refines :: "c_call \<Rightarrow> c_ret \<Rightarrow> c_heap \<Rightarrow> c_heap \<Rightarrow> bool" where
  "c_refines call r h h' \<longleftrightarrow>
     (case c_target call h of
        None \<Rightarrow> c_frame h h' \<and> (code r = SK_NULL_ARG \<or> call = CFree 0)
      | Some d \<Rightarrow> \<exists>e. c_event call r e \<and> single d e h h')"

lemma lock_tx_Some:
  assumes "c_wf h" "lock_tx a h \<noteq> None"
  obtains d db t where "lock_tx a h = Some (d, db, Some t)" "map_of (h_txs h) a = Some (d, Some t)" "a \<noteq> 0"
proof -
  from assms(2) obtain d db t where l: "lock_tx a h = Some (d, db, t)" by (cases "lock_tx a h") auto
  note d = lock_txD [OF assms(1) l]
  then obtain t' where "t = Some t'" by blast
  moreover have "a \<noteq> 0" using map_of_SomeD [OF d(1)] assms(1) by (force simp: c_wf_def entry_ok_def)
  ultimately show ?thesis using that l d(1) by blast
qed

lemma null_handle: "c_wf h \<Longrightarrow> map_of (h_txs h) 0 = None"
  by (force simp: c_wf_def entry_ok_def map_of_eq_None_iff)

text \<open>A call that fails before it touches its handle.\<close>

lemma refused:
  assumes "c_target call h = None" "guard eo (Returned (Inl (SK_NULL_ARG, msg))) h = (r, h')"
  shows "c_refines call r h h'"
  using assms guard_frame [of h eo "Returned (Inl (SK_NULL_ARG, msg))"] guard_code [of eo SK_NULL_ARG msg h]
  by (simp add: c_refines_def)

lemma null_call:
  assumes "c_wf h" "c_target call h = None" "(r, h') = (ret SK_NULL_ARG, h)"
  shows "c_refines call r h h'"
  using assms by (simp add: c_refines_def ret_def)

text \<open>A call that runs one operation of the transaction behind its handle.\<close>

lemma performed:
  assumes "c_wf h" "lock_tx a h = Some (d, db, Some t)" "c_op call = Some (a, op)" "c_target call h = Some d"
    and "run_op (db_inner db) op t = (res, t')" "c_frame (store_tx a d t' h) h'" "code r = ret_code res"
  shows "c_refines call r h h'"
  using op_single [OF assms(1,2,5)] single_frame assms(3,4,6,7)
  by (auto simp: c_refines_def intro!: exI [of _ "Op a op res"])


lemma c_target_op: "c_op call = Some (a, op) \<Longrightarrow> c_target call h = map_option fst (map_of (h_txs h) a)"
  by (cases call) (auto simp: c_target_def split: sum.splits)

lemma live_call:
  assumes "c_wf h" "c_op call = Some (a, op)" "a = 0 \<Longrightarrow> (r, h') = (ret SK_NULL_ARG, h)" "a \<noteq> 0 \<Longrightarrow> lock_tx a h \<noteq> None"
    and "\<And>d db t res t'. a \<noteq> 0 \<Longrightarrow> lock_tx a h = Some (d, db, Some t) \<Longrightarrow> run_op (db_inner db) op t = (res, t') \<Longrightarrow>
      c_frame (store_tx a d t' h) h' \<and> code r = ret_code res"
  shows "c_refines call r h h'"
proof (cases "a = 0")
  case True
  with assms(3) null_handle [OF assms(1)] show ?thesis by (intro null_call [OF assms(1)]) (simp_all add: c_target_op [OF assms(2)])
next
  case False
  from lock_tx_Some [OF assms(1) assms(4) [OF False]] obtain d db t where
    l: "lock_tx a h = Some (d, db, Some t)" "map_of (h_txs h) a = Some (d, Some t)" by blast
  obtain res t' where g: "run_op (db_inner db) op t = (res, t')" by fastforce
  from assms(5) [OF False l(1) g] performed [OF assms(1) l(1) assms(2) _ g] l(2) show ?thesis
    by (simp add: c_target_op [OF assms(2)])
qed

lemma bad_buffer: "bytes_arg k = Inl c \<Longrightarrow> c = SK_NULL_ARG"
  by (cases k) (auto split: if_splits)

lemma err_result: "guard eo (Returned (Inl (map_err e))) h = (r, h') \<Longrightarrow> c_frame h h' \<and> code r = fst (map_err e)"
  by (metis fst_conv snd_conv guard_frame guard_map_err_code)

lemma unit_result: "finish_unit eo u h = (r, h') \<Longrightarrow> c_frame h h' \<and> code r = ret_code (RUnit u)"
  by (metis fst_conv snd_conv finish_unit_frame finish_unit_code)

lemma value_result: "hand_out v vo lo h = (r, h') \<Longrightarrow> c_frame h h' \<and> code r = SK_OK"
  by (metis fst_conv snd_conv hand_out_frame hand_out_code)

lemma get_refines:
  assumes "c_wf h" "sk_tx_get a k vo lo eo h = Some (r, h')"
  shows "c_refines (CGet a k vo lo eo) r h h'"
proof (cases "bytes_arg k")
  case (Inl c)
  show ?thesis
  proof (cases "a = 0")
    case True
    with Inl assms show ?thesis by (intro null_call) (auto simp: sk_tx_get_def c_target_def)
  next
    case False
    with Inl assms bad_buffer [OF Inl] show ?thesis by (intro refused) (auto simp: sk_tx_get_def c_target_def)
  qed
next
  case (Inr key)
  show ?thesis
  proof (rule live_call [OF assms(1), of _ a "OpGet key"])
    fix d db t res t'
    assume l: "a \<noteq> 0" "lock_tx a h = Some (d, db, Some t)" "run_op (db_inner db) (OpGet key) t = (res, t')"
    obtain x where g: "get (db_inner db) key t = (x, t')" "res = RValue x" using l(3) by (cases "get (db_inner db) key t") auto
    show "c_frame (store_tx a d t' h) h' \<and> code r = ret_code res"
      using assms(2) Inr l(1,2) g err_result [where h = "store_tx a d t' h"] value_result [where h = "store_tx a d t' h"]
      by (auto simp: sk_tx_get_def ret_def split: sum.splits option.splits prod.splits)
  qed (use assms(2) Inr in \<open>auto simp: sk_tx_get_def split: option.splits\<close>)
qed

lemma exists_refines:
  assumes "c_wf h" "sk_tx_exists a k out eo h = Some (r, h')"
  shows "c_refines (CExists a k out eo) r h h'"
proof (cases "bytes_arg k")
  case (Inl c)
  show ?thesis
  proof (cases "a = 0")
    case True
    with Inl assms show ?thesis by (intro null_call) (auto simp: sk_tx_exists_def c_target_def)
  next
    case False
    with Inl assms bad_buffer [OF Inl] show ?thesis by (intro refused) (auto simp: sk_tx_exists_def c_target_def)
  qed
next
  case (Inr key)
  show ?thesis
  proof (rule live_call [OF assms(1), of _ a "OpExists key"])
    fix d db t res t'
    assume l: "a \<noteq> 0" "lock_tx a h = Some (d, db, Some t)" "run_op (db_inner db) (OpExists key) t = (res, t')"
    obtain x where g: "exists (db_inner db) key t = (x, t')" "res = RBool x" using l(3) by (cases "exists (db_inner db) key t") auto
    show "c_frame (store_tx a d t' h) h' \<and> code r = ret_code res"
      using assms(2) Inr l(1,2) g err_result [where h = "store_tx a d t' h"]
      by (auto simp: sk_tx_exists_def ret_def split: sum.splits)
  qed (use assms(2) Inr in \<open>auto simp: sk_tx_exists_def split: option.splits\<close>)
qed


text \<open>The three writes share one body: refused for a null handle or a bad buffer, else one operation.\<close>

lemma write_op_cases:
  assumes "write_op a k val op eo h = Some (r, h')"
  obtains (null) "a = 0" "(r, h') = (ret SK_NULL_ARG, h)"
  | (bad) msg where "a \<noteq> 0" "(\<exists>c. bytes_arg k = Inl c) \<or> (\<exists>b c. val = Some b \<and> bytes_arg b = Inl c)"
      "guard eo (Returned (Inl (SK_NULL_ARG, msg))) h = (r, h')"
  | (run) key v where "a \<noteq> 0" "bytes_arg k = Inr key" "(case val of None \<Rightarrow> v = None | Some b \<Rightarrow> \<exists>x. bytes_arg b = Inr x \<and> v = Some x)"
      "lock_tx a h \<noteq> None"
      "\<And>d db t u t'. lock_tx a h = Some (d, db, Some t) \<Longrightarrow> run_write (db_inner db) op key v t = (u, t') \<Longrightarrow>
         c_frame (store_tx a d t' h) h' \<and> code r = ret_code (RUnit u)"
proof (cases "a = 0")
  case True
  with assms null show ?thesis by (simp add: write_op_def)
next
  case False
  show ?thesis
  proof (cases "(\<exists>c. bytes_arg k = Inl c) \<or> (\<exists>b c. val = Some b \<and> bytes_arg b = Inl c)")
    case True
    with False assms bad bad_buffer show ?thesis by (auto simp: write_op_def split: sum.splits option.splits)
  next
    case ok: False
    then obtain key v where v: "bytes_arg k = Inr key" "(case val of None \<Rightarrow> v = None | Some b \<Rightarrow> \<exists>x. bytes_arg b = Inr x \<and> v = Some x)"
      "(case val of None \<Rightarrow> Inr None | Some b \<Rightarrow> map_sum id Some (bytes_arg b)) = Inr v"
      by (cases "bytes_arg k"; cases val; cases "bytes_arg (the val)") auto
    show ?thesis
    proof (rule run [OF False v(1,2)])
      show "lock_tx a h \<noteq> None" using assms False v(1,3) by (cases "lock_tx a h") (simp_all add: write_op_def)
      fix d db t u t'
      assume "lock_tx a h = Some (d, db, Some t)" "run_write (db_inner db) op key v t = (u, t')"
      with assms False v unit_result show "c_frame (store_tx a d t' h) h' \<and> code r = ret_code (RUnit u)"
        by (simp add: write_op_def)
    qed
  qed
qed

lemma set_refines:
  assumes "c_wf h" "sk_tx_set a k v eo h = Some (r, h')"
  shows "c_refines (CSet a k v eo) r h h'"
  using assms(2) unfolding sk_tx_set_def
proof (cases rule: write_op_cases)
  case null
  then show ?thesis using null_handle [OF assms(1)] by (intro null_call [OF assms(1)]) (simp_all add: c_target_def split: sum.splits)
next
  case (bad msg)
  then show ?thesis by (intro refused) (auto simp: c_target_def split: sum.splits)
next
  case (run key x)
  then obtain y where y: "bytes_arg v = Inr y" "x = Some y" by auto
  show ?thesis by (rule live_call [OF assms(1), of _ a "OpSet key y"]) (use run y in \<open>auto simp: apfst_def map_prod_def split: prod.splits\<close>)
qed

lemma put_refines:
  assumes "c_wf h" "sk_tx_put a k v eo h = Some (r, h')"
  shows "c_refines (CPut a k v eo) r h h'"
  using assms(2) unfolding sk_tx_put_def
proof (cases rule: write_op_cases)
  case null
  then show ?thesis using null_handle [OF assms(1)] by (intro null_call [OF assms(1)]) (simp_all add: c_target_def split: sum.splits)
next
  case (bad msg)
  then show ?thesis by (intro refused) (auto simp: c_target_def split: sum.splits)
next
  case (run key x)
  then obtain y where y: "bytes_arg v = Inr y" "x = Some y" by auto
  show ?thesis by (rule live_call [OF assms(1), of _ a "OpPut key y"]) (use run y in \<open>auto simp: apfst_def map_prod_def split: prod.splits\<close>)
qed

lemma del_refines:
  assumes "c_wf h" "sk_tx_del a k eo h = Some (r, h')"
  shows "c_refines (CDel a k eo) r h h'"
  using assms(2) unfolding sk_tx_del_def
proof (cases rule: write_op_cases)
  case null
  then show ?thesis using null_handle [OF assms(1)] by (intro null_call [OF assms(1)]) (simp_all add: c_target_def split: sum.splits)
next
  case (bad msg)
  then show ?thesis by (intro refused) (auto simp: c_target_def split: sum.splits)
next
  case (run key x)
  show ?thesis by (rule live_call [OF assms(1), of _ a "OpDel key"]) (use run in \<open>auto simp: apfst_def map_prod_def split: prod.splits\<close>)
qed

lemma cancel_refines:
  assumes "c_wf h" "sk_tx_cancel a eo h = Some (r, h')"
  shows "c_refines (CCancel a eo) r h h'"
proof (rule live_call [OF assms(1), of _ a OpCancel])
  fix d db t res t'
  assume l: "a \<noteq> 0" "lock_tx a h = Some (d, db, Some t)" "run_op (db_inner db) OpCancel t = (res, t')"
  then obtain u where "cancel t = (u, t')" "res = RUnit u" by (cases "cancel t") auto
  with assms(2) l unit_result show "c_frame (store_tx a d t' h) h' \<and> code r = ret_code res" by (simp add: sk_tx_cancel_def)
qed (use assms(2) in \<open>auto simp: sk_tx_cancel_def split: option.splits\<close>)

lemma isolation_refines:
  assumes "c_wf h" "switch_isolation a ssi h = Some (r, h')"
  shows "c_refines (CIsolation a ssi) r h h'"
proof (rule live_call [OF assms(1), of _ a "OpMode (if ssi then SerializableSnapshotIsolation else SnapshotIsolation)"])
  fix d db t res t'
  assume l: "a \<noteq> 0" "lock_tx a h = Some (d, db, Some t)"
    "run_op (db_inner db) (OpMode (if ssi then SerializableSnapshotIsolation else SnapshotIsolation)) t = (res, t')"
  then have "t' = (if ssi then with_serializable_snapshot_isolation t else with_snapshot_isolation t)" "res = RUnit (Inr ())"
    by (auto simp: set_mode_def)
  with assms(2) l show "c_frame (store_tx a d t' h) h' \<and> code r = ret_code res" by (auto simp: switch_isolation_def ret_def)
qed (use assms(2) in \<open>auto simp: switch_isolation_def split: option.splits\<close>)

lemma commit_refines:
  assumes "c_wf h" "sk_tx_commit w a eo h = Some (r, h')" "\<And>d. c_target (CCommit a eo) h = Some d \<Longrightarrow> c_bounds d h"
  shows "c_refines (CCommit a eo) r h h'"
proof (cases "a = 0")
  case True
  with assms(2) null_handle [OF assms(1)] show ?thesis
    by (intro null_call [OF assms(1)]) (simp_all add: c_target_def sk_tx_commit_def)
next
  case False
  with assms(2) have "lock_tx a h \<noteq> None" by (cases "lock_tx a h") (simp_all add: sk_tx_commit_def)
  from lock_tx_Some [OF assms(1) this] obtain d db t where
    l: "lock_tx a h = Some (d, db, Some t)" "map_of (h_txs h) a = Some (d, Some t)" by blast
  obtain u t' inner where c: "commit w t (db_inner db) = Some (u, t', inner)"
    using assms(2) False l(1) by (auto simp: sk_tx_commit_def split: option.splits)
  let ?h = "store_tx a d t' (h\<lparr>h_engines := (h_engines h)(d \<mapsto> db\<lparr>db_inner := inner\<rparr>)\<rparr>)"
  have t: "c_target (CCommit a eo) h = Some d" using l(2) by (simp add: c_target_def)
  have "sys_inner (abs_c d h) = db_inner db" using lock_txD(2) [OF assms(1) l(1)] by (simp add: abs_c_def)
  then have "single d (Committed a u) h ?h"
    using assms(3) [OF t] by (intro commit_single [OF assms(1) l(1) c]) (simp_all add: c_bounds_def)
  moreover have "c_frame ?h h' \<and> code r = ret_code (RUnit u)"
    using assms(2) False l(1) c unit_result by (simp add: sk_tx_commit_def)
  ultimately show ?thesis
    using single_frame t by (auto simp: c_refines_def intro!: exI [of _ "Committed a u"])
qed

lemma begin_refines:
  assumes "c_wf h" "sk_db_tx_begin d write h = Some (a, h')" "c_bounds d h" "r = (ret SK_OK)\<lparr>val_ptr := a\<rparr>"
  shows "c_refines (CBegin d write) r h h'"
proof -
  from assms(2) obtain db t db' where b: "h_engines h d = Some db" "transaction db (write \<noteq> 0) = Some (t, db')" "a = h_next h"
    "h' = h\<lparr>h_engines := (h_engines h)(d \<mapsto> db'), h_txs := om_insert a (d, Some t) (h_txs h), h_next := Suc a\<rparr>"
    by (auto simp: sk_db_tx_begin_def split: if_splits option.splits)
  from begin_single [OF assms(1) b(1-3)] assms(3,4) b(4) show ?thesis
    by (auto simp: c_refines_def c_target_def c_bounds_def ret_def intro!: exI [of _ "Begin a (write \<noteq> 0)"])
qed

lemma free_refines:
  assumes "c_wf h" "sk_tx_free a h = Some h'"
  shows "c_refines (CFree a) r h h'"
proof (cases "a = 0")
  case True
  with assms null_handle [OF assms(1)] show ?thesis by (simp add: c_refines_def c_target_def sk_tx_free_def)
next
  case False
  with assms(2) have "lock_tx a h \<noteq> None" by (cases "lock_tx a h") (simp_all add: sk_tx_free_def)
  from lock_tx_Some [OF assms(1) this] obtain d db t where
    l: "lock_tx a h = Some (d, db, Some t)" "map_of (h_txs h) a = Some (d, Some t)" by blast
  with assms(2) False obtain db' where "Transaction_drop t db = Some db'"
    "h' = h\<lparr>h_engines := (h_engines h)(d \<mapsto> db'), h_txs := om_remove a (h_txs h)\<rparr>"
    by (auto simp: sk_tx_free_def)
  with free_single [OF assms(1) l(1)] l(2) show ?thesis
    by (auto simp: c_refines_def c_target_def intro!: exI [of _ "Dropped a"])
qed

lemmas call_refines = get_refines exists_refines set_refines put_refines del_refines cancel_refines isolation_refines
  commit_refines begin_refines free_refines

lemma run_c_refines:
  assumes "c_wf h" "run_c w call h = Some (r, h')" "\<And>d. c_target call h = Some d \<Longrightarrow> c_bounds d h"
  shows "c_refines call r h h'"
proof (cases call)
  case (CBegin d wr)
  with assms begin_refines show ?thesis by (auto simp: c_target_def)
next
  case (CIsolation a ssi)
  with assms isolation_refines show ?thesis
    by (auto simp: sk_tx_with_snapshot_isolation_def sk_tx_with_serializable_snapshot_isolation_def split: if_splits)
qed (use assms call_refines in auto)


lemma refines_wf: "c_wf h \<Longrightarrow> c_refines call r h h' \<Longrightarrow> c_wf h'"
  by (auto simp: c_refines_def c_frame_def single_def split: option.splits)

lemma refines_step: "c_refines call r h h' \<Longrightarrow> abs_c d h' = abs_c d h \<or> (\<exists>e. step (abs_c d h) e (abs_c d h'))"
  by (cases "c_target call h = Some d") (auto simp: c_refines_def single_def abs_c_frame split: option.splits)

section \<open>Memory handed to the caller\<close>

lemma guard_heap:
  assumes "c_wf h" "guard eo (Returned (Inl (c, msg))) h = (r, h')"
  shows "code r = c" "val_ptr r = 0" "h_values h' = h_values h" "\<not> eo \<Longrightarrow> err_ptr r = 0 \<and> h' = h"
    "eo \<Longrightarrow> h_strings h (err_ptr r) = None \<and> (\<exists>h''. sk_free_string (err_ptr r) h' = Some h'' \<and> h_strings h'' = h_strings h)"
proof -
  have f: "h_next h \<noteq> 0" "h_strings h (h_next h) = None" using assms(1) by (auto simp: c_wf_def)
  then have "(h_strings h)(h_next h := None) = h_strings h" by (metis fun_upd_triv)
  with f assms(2) show "code r = c" "val_ptr r = 0" "h_values h' = h_values h" "\<not> eo \<Longrightarrow> err_ptr r = 0 \<and> h' = h"
    "eo \<Longrightarrow> h_strings h (err_ptr r) = None \<and> (\<exists>h''. sk_free_string (err_ptr r) h' = Some h'' \<and> h_strings h'' = h_strings h)"
    by (auto simp: set_err_def alloc_string_def sk_free_string_def ret_def split: if_splits)
qed

lemma hand_out_heap:
  assumes "c_wf h" "hand_out v vo lo h = (r, h')"
  shows "h_strings h' = h_strings h" "err_ptr r = 0"
    "vo \<Longrightarrow> val_ptr r \<noteq> 0 \<and> h_values h (val_ptr r) = None"
    "vo \<Longrightarrow> lo \<Longrightarrow> h_values h' (val_ptr r) = Some v \<and> val_len r = Some (length v)
       \<and> (\<exists>h''. sk_free_value (val_ptr r) (length v) h' = Some h'' \<and> h_values h'' = h_values h)"
    "\<not> vo \<or> \<not> lo \<Longrightarrow> h_values h' = h_values h"
proof -
  have f: "h_next h \<noteq> 0" "h_values h (h_next h) = None" using assms(1) by (auto simp: c_wf_def)
  then have u: "(h_values h)(h_next h := None) = h_values h" by (metis fun_upd_triv)
  show "h_strings h' = h_strings h" "err_ptr r = 0" "vo \<Longrightarrow> val_ptr r \<noteq> 0 \<and> h_values h (val_ptr r) = None"
    "vo \<Longrightarrow> lo \<Longrightarrow> h_values h' (val_ptr r) = Some v \<and> val_len r = Some (length v)
       \<and> (\<exists>h''. sk_free_value (val_ptr r) (length v) h' = Some h'' \<and> h_values h'' = h_values h)"
    "\<not> vo \<or> \<not> lo \<Longrightarrow> h_values h' = h_values h"
    using assms(2) f u by (auto simp: hand_out_def alloc_value_def sk_free_value_def ret_def split: if_splits)
qed

text \<open>The ways a read through the interface ends.\<close>

lemma sk_tx_get_cases:
  assumes "c_wf h" "sk_tx_get a k vo lo eo h = Some (r, h')"
  obtains (null) "a = 0" "r = ret SK_NULL_ARG" "h' = h"
  | (found) v h1 where "c_wf h1" "h_values h1 = h_values h" "h_strings h1 = h_strings h" "hand_out v vo lo h1 = (r, h')"
  | (absent) "r = ret SK_NOT_FOUND" "h_values h' = h_values h" "h_strings h' = h_strings h"
  | (error) c msg h1 where "c < 0" "c_wf h1" "h_values h1 = h_values h" "h_strings h1 = h_strings h"
      "guard eo (Returned (Inl (c, msg))) h1 = (r, h')"
proof (cases "a = 0")
  case True
  with assms(2) null show ?thesis by (simp add: sk_tx_get_def)
next
  case False
  show ?thesis
  proof (cases "bytes_arg k")
    case (Inl c)
    with assms(2) False bad_buffer [OF Inl] show ?thesis
      by (intro error [OF _ assms(1), where c = c and msg = "''invalid key buffer''"]) (auto simp: sk_tx_get_def sk_codes)
  next
    case (Inr key)
    with False assms(2) have "lock_tx a h \<noteq> None" by (cases "lock_tx a h") (simp_all add: sk_tx_get_def)
    from lock_tx_Some [OF assms(1) this] obtain d db t where
      l: "lock_tx a h = Some (d, db, Some t)" "map_of (h_txs h) a = Some (d, Some t)" by blast
    obtain res t' where g: "get (db_inner db) key t = (res, t')" by fastforce
    let ?h = "store_tx a d t' h"
    have wf: "c_wf ?h" by (rule store_tx_wf [OF assms(1) l(2)])
    have h: "h_values ?h = h_values h" "h_strings ?h = h_strings h" by (simp_all add: store_tx_def)
    show ?thesis
    proof (cases res)
      case (Inl e)
      have "fst (map_err e) < 0" by (cases e) (simp_all add: sk_codes)
      with assms(2) False Inr l(1) g Inl show ?thesis
        by (intro error [OF _ wf h, where c = "fst (map_err e)" and msg = "snd (map_err e)"]) (simp_all add: sk_tx_get_def)
    next
      case (Inr v)
      show ?thesis
      proof (cases v)
        case None
        with assms(2) False \<open>bytes_arg k = Inr key\<close> l(1) g Inr h show ?thesis
          by (intro absent) (auto simp: sk_tx_get_def)
      next
        case (Some x)
        with assms(2) False \<open>bytes_arg k = Inr key\<close> l(1) g Inr show ?thesis
          by (intro found [OF wf h, of x]) (auto simp: sk_tx_get_def split: prod.splits)
      qed
    qed
  qed
qed

end
