(* ===== verification/Samples.thy ===== *)
theory Samples
  imports Server C_Refinement
begin

text \<open>
  Concrete instances at which the properties are evaluated: a record codec that satisfies the codec
  laws (numbers in unary, byte strings with their length in front), and a short run of the system
  (open a database, begin, write a key, commit).
\<close>

section \<open>A codec\<close>

definition enc_nat :: "nat \<Rightarrow> bytes" where
  "enc_nat n = replicate n 1 @ [0]"

fun dec_nat :: "bytes \<Rightarrow> (nat \<times> bytes) option" where
  "dec_nat [] = None"
| "dec_nat (b # bs) = (if b = 1 then map_option (apfst Suc) (dec_nat bs) else Some (0, bs))"

definition enc_bytes :: "bytes \<Rightarrow> bytes" where
  "enc_bytes bs = enc_nat (length bs) @ bs"

definition dec_bytes :: "bytes \<Rightarrow> (bytes \<times> bytes) option" where
  "dec_bytes bs =
     (case dec_nat bs of
        None \<Rightarrow> None
      | Some (n, rest) \<Rightarrow> if n \<le> length rest then Some (take n rest, drop n rest) else None)"

definition enc_item :: "u64 \<times> bytes option \<Rightarrow> bytes" where
  "enc_item e = enc_nat (unat (fst e)) @ (case snd e of None \<Rightarrow> [0] | Some bs \<Rightarrow> 1 # enc_bytes bs)"

definition dec_item :: "bytes \<Rightarrow> ((u64 \<times> bytes option) \<times> bytes) option" where
  "dec_item bs =
     (case dec_nat bs of
        Some (n, b # rest) \<Rightarrow>
          if b = 0 then Some ((of_nat n, None), rest)
          else map_option (\<lambda>(x, rest). ((of_nat n, Some x), rest)) (dec_bytes rest)
      | _ \<Rightarrow> None)"

fun dec_items :: "nat \<Rightarrow> bytes \<Rightarrow> ((u64 \<times> bytes option) list \<times> bytes) option" where
  "dec_items 0 bs = Some ([], bs)"
| "dec_items (Suc n) bs =
     (case dec_item bs of
        None \<Rightarrow> None
      | Some (e, rest) \<Rightarrow> map_option (apfst ((#) e)) (dec_items n rest))"

definition or_eof :: "('a \<times> bytes) option \<Rightarrow> 'a decoded" where
  "or_eof r = (case r of None \<Rightarrow> UnexpectedEof | Some (e, rest) \<Rightarrow> Decoded e rest)"

definition sample_codec :: codec where
  "sample_codec =
     \<lparr>enc_chain = (\<lambda>(k, vs). enc_bytes k @ enc_nat (length vs) @ concat (map enc_item vs)),
      dec_chain = (\<lambda>bs. or_eof (case dec_bytes bs of None \<Rightarrow> None
        | Some (k, rest) \<Rightarrow> (case dec_nat rest of None \<Rightarrow> None
            | Some (n, rest) \<Rightarrow> map_option (apfst (Pair k)) (dec_items n rest)))),
      enc_log = (\<lambda>(k, v, x). enc_bytes k @ enc_item (v, x)),
      dec_log = (\<lambda>bs. or_eof (case dec_bytes bs of None \<Rightarrow> None
        | Some (k, rest) \<Rightarrow> map_option (apfst (Pair k)) (dec_item rest))),
      lz4_lib = \<lparr>lz4_frame = (\<lambda>bs. LZ4_MAGIC @ bs), lz4_read = (\<lambda>bs. Inr (drop 4 bs))\<rparr>\<rparr>"

lemma dec_enc_nat: "dec_nat (enc_nat n @ rest) = Some (n, rest)"
  by (induction n) (simp_all add: enc_nat_def)

lemma dec_enc_bytes: "dec_bytes (enc_bytes bs @ rest) = Some (bs, rest)"
  by (simp add: enc_bytes_def dec_bytes_def dec_enc_nat)

lemma dec_enc_item: "dec_item (enc_item e @ rest) = Some (e, rest)"
  by (cases e; cases "snd e") (simp_all add: enc_item_def dec_item_def dec_enc_nat dec_enc_bytes)

lemma dec_enc_items: "dec_items (length vs) (concat (map enc_item vs) @ rest) = Some (vs, rest)"
  by (induction vs) (simp_all add: dec_enc_item)

lemma sample_codec_law: "codec_law sample_codec"
proof -
  have "dec_bytes [] = None" by (simp add: dec_bytes_def)
  then show ?thesis
    by (auto simp: codec_law_def sample_codec_def lz4_law_def or_eof_def dec_enc_bytes dec_enc_nat dec_enc_item
        dec_enc_items)
qed

lemma sample_log_plain: "take 4 (encode_log sample_codec es) \<noteq> LZ4_MAGIC"
proof (cases es)
  case Nil
  then show ?thesis by (simp add: encode_log_def LZ4_MAGIC_def)
next
  case (Cons e es')
  have "\<exists>b bs. encode_log sample_codec es = b # bs \<and> b \<in> {0, 1}"
    by (cases e; cases "fst e") (simp_all add: Cons encode_log_def sample_codec_def enc_bytes_def enc_nat_def)
  then show ?thesis by (auto simp: LZ4_MAGIC_def)
qed

section \<open>A run\<close>

abbreviation sample_key :: bytes where
  "sample_key \<equiv> [107]"

abbreviation sample_value :: bytes where
  "sample_value \<equiv> [118]"

definition sample_world :: world where
  "sample_world = \<lparr>w_clock = (\<lambda>_. 0), w_codec = sample_codec, w_io = quiet_env, w_others = (\<lambda>_ s. s)\<rparr>"

definition sample_db :: Database where
  "sample_db = the (new_with_options DatabaseOptions_default (Some 1000) 0)"

definition sample_s0 :: System where
  "sample_s0 = \<lparr>sys_db = sample_db, live = []\<rparr>"

definition sample_tx :: TransactionInner where
  "sample_tx = fst (the (transaction sample_db True))"

definition sample_s1 :: System where
  "sample_s1 = \<lparr>sys_db = snd (the (transaction sample_db True)), live = [(0, sample_tx)]\<rparr>"

definition sample_tx2 :: TransactionInner where
  "sample_tx2 = sample_tx\<lparr>tx_writeset := [(sample_key, Some sample_value)]\<rparr>"

definition sample_s2 :: System where
  "sample_s2 = sample_s1\<lparr>live := [(0, sample_tx2)]\<rparr>"

definition sample_s3 :: System where
  "sample_s3 = \<lparr>sys_db = (sys_db sample_s2)\<lparr>db_inner := committed_state 1001 sample_tx2 (sys_inner sample_s2) None\<rparr>,
     live = [(0, closed_tx sample_tx2)]\<rparr>"

lemma sample_new: "new_with_options DatabaseOptions_default (Some 1000) 0 = Some sample_db"
  by (simp add: sample_db_def new_with_options_def Inner_new_def Oracle_new_def current_unix_ns_def)

lemma sample_reachable0: "reachable sample_s0"
  unfolding sample_s0_def by (rule reachable_new [OF sample_new])

lemma sample_inv0: "sys_inv sample_s0"
  by (rule reachable_inv [OF sample_reachable0])

lemma sample_inner:
  "ts_oracle (db_inner sample_db) = background_resync \<lparr>timestamp = 1000, reference = (1000, 0), resync_enable = True,
     resync_handle = False, resync_interval = DEFAULT_RESYNC_INTERVAL\<rparr>"
  "transaction_commit_id (db_inner sample_db) = 0" "datastore (db_inner sample_db) = []"
  "persistence (db_inner sample_db) = None" "transaction_commit_queue (db_inner sample_db) = []"
  by (simp_all add: sample_db_def new_with_options_def Inner_new_def Oracle_new_def current_unix_ns_def
      start_workers_def initialise_cleanup_worker_def initialise_garbage_worker_def Database_of_def
      DatabaseOptions_default_def Let_def)

lemma sample_begin: "transaction sample_db True = Some (sample_tx, sys_db sample_s1)"
  using begin_returns [OF sample_inv0, of True]
  by (auto simp: sample_s0_def sample_tx_def sample_s1_def)

lemma sample_effect:
  obtains tv tc where "sys_inner sample_s1 = (db_inner sample_db)\<lparr>counter_by_oracle := tv, counter_by_commit := tc\<rparr>"
    "tx_version sample_tx = 1000" "tx_commit sample_tx = 0" "\<not> tx_done sample_tx" "tx_write sample_tx"
    "tx_mode sample_tx = SnapshotIsolation" "tx_writeset sample_tx = []" "tx_readset sample_tx = {}"
proof -
  have "transaction (sys_db sample_s0) True = Some (sample_tx, sys_db sample_s1)"
    using sample_begin by (simp add: sample_s0_def)
  moreover have "Suc (length (live sample_s0)) < 2 ^ 64 - 1" by (simp add: sample_s0_def)
  ultimately obtain tv tc where
    b: "sys_inner sample_s1 = (sys_inner sample_s0)\<lparr>counter_by_oracle := tv, counter_by_commit := tc\<rparr>"
    "tx_version sample_tx = timestamp (ts_oracle (sys_inner sample_s0))"
    "tx_commit sample_tx = transaction_commit_id (sys_inner sample_s0)" "\<not> tx_done sample_tx" "tx_write sample_tx = True"
    "tx_mode sample_tx = SnapshotIsolation" "tx_writeset sample_tx = []" "tx_readset sample_tx = {}"
    by (rule begin_effect [OF sample_inv0])
  have s0: "sys_inner sample_s0 = db_inner sample_db" by (simp add: sample_s0_def)
  show ?thesis
    by (rule that [OF b(1) [unfolded s0]])
      (simp_all add: b(2-8) [unfolded s0] sample_inner background_resync_def)
qed

lemma sample_step1: "step sample_s0 (Begin 0 True) sample_s1"
proof -
  have "sample_s1 = \<lparr>sys_db = sys_db sample_s1, live = om_insert 0 sample_tx (live sample_s0)\<rparr>"
    by (simp add: sample_s1_def sample_s0_def)
  moreover have "step sample_s0 (Begin 0 True) \<lparr>sys_db = sys_db sample_s1, live = om_insert 0 sample_tx (live sample_s0)\<rparr>"
    by (rule step_begin) (simp_all add: sample_s0_def sample_begin)
  ultimately show ?thesis by metis
qed

lemma sample_step2: "step sample_s1 (Op 0 (OpSet sample_key sample_value) (RUnit (Inr ()))) sample_s2"
proof -
  have "run_op (sys_inner sample_s1) (OpSet sample_key sample_value) sample_tx = (RUnit (Inr ()), sample_tx2)"
    by (rule sample_effect) (simp add: set_value_def sample_tx2_def)
  from step_op [OF _ this, of 0] show ?thesis by (simp add: sample_s1_def sample_s2_def)
qed

lemma sample_reachable1: "reachable sample_s1"
  by (rule reachable_step [OF sample_reachable0 sample_step1])

lemma sample_reachable2: "reachable sample_s2"
  by (rule reachable_step [OF sample_reachable1 sample_step2])

lemma sample_s2_inner: "sys_inner sample_s2 = sys_inner sample_s1"
  by (simp add: sample_s2_def)

lemma sample_commit:
  "commit sample_world sample_tx2 (sys_inner sample_s2)
     = Some (Inr (), closed_tx sample_tx2, committed_state 1001 sample_tx2 (sys_inner sample_s2) None)"
proof (rule sample_effect)
  fix tv tc
  assume i: "sys_inner sample_s1 = (db_inner sample_db)\<lparr>counter_by_oracle := tv, counter_by_commit := tc\<rparr>"
    and t: "tx_version sample_tx = 1000" "tx_commit sample_tx = 0" "\<not> tx_done sample_tx" "tx_write sample_tx"
      "tx_mode sample_tx = SnapshotIsolation" "tx_writeset sample_tx = []" "tx_readset sample_tx = {}"
  have wf: "inner_wf (sys_inner sample_s2)"
    using reachable_inv [OF sample_reachable2] by (simp add: sys_inv_def)
  have "commit_conflict sample_tx2 (sys_inner sample_s2) = None"
    by (simp add: commit_conflict_def sample_s2_inner i sample_inner commit_range_def)
  moreover have "candidate_version (ts_oracle (sys_inner sample_s2)) (w_clock sample_world 0) = 1001"
    by (simp add: sample_s2_inner i sample_inner background_resync_def candidate_version_def current_time_ns_def
        sample_world_def)
  moreover have "transaction_commit_id (sys_inner sample_s2) < u64_MAX" "persistence (sys_inner sample_s2) = None"
    by (simp_all add: sample_s2_inner i sample_inner)
  ultimately show ?thesis
    using commit_passing [OF wf, of sample_tx2 sample_world] t
    by (simp add: sample_tx2_def append_outcome_def)
qed

lemma sample_step3: "step sample_s2 (Committed 0 (Inr ())) sample_s3"
proof (rule sample_effect)
  fix tv tc
  assume i: "sys_inner sample_s1 = (db_inner sample_db)\<lparr>counter_by_oracle := tv, counter_by_commit := tc\<rparr>"
  have "timestamp (ts_oracle (sys_inner sample_s2)) < u64_MAX" "transaction_commit_id (sys_inner sample_s2) < u64_MAX"
    by (simp_all add: sample_s2_inner i sample_inner background_resync_def)
  from step_commit [OF _ sample_commit this, of 0] show ?thesis
    by (simp add: sample_s2_def sample_s3_def)
qed

lemma sample_reachable3: "reachable sample_s3"
  by (rule reachable_step [OF sample_reachable2 sample_step3])

lemma sample_run:
  "trace step sample_s0 [Begin 0 True, Op 0 (OpSet sample_key sample_value) (RUnit (Inr ())), Committed 0 (Inr ())] sample_s3"
  using sample_step1 sample_step2 sample_step3 by auto


lemma sample_live [simp]:
  "live sample_s0 = []" "live sample_s1 = [(0, sample_tx)]" "live sample_s2 = [(0, sample_tx2)]"
  "live sample_s3 = [(0, closed_tx sample_tx2)]"
  by (simp_all add: sample_s0_def sample_s1_def sample_s2_def sample_s3_def)

lemma sample_tx_facts [simp]:
  "tx_version sample_tx = 1000" "tx_commit sample_tx = 0" "\<not> tx_done sample_tx" "tx_write sample_tx"
  "tx_mode sample_tx = SnapshotIsolation" "tx_writeset sample_tx = []" "tx_readset sample_tx = {}"
  by (rule sample_effect, assumption)+

lemma sample_inner_facts [simp]:
  "ts_oracle (sys_inner sample_s1) = ts_oracle (db_inner sample_db)"
  "transaction_commit_id (sys_inner sample_s1) = 0" "transaction_commit_queue (sys_inner sample_s1) = []"
  "datastore (sys_inner sample_s1) = []" "persistence (sys_inner sample_s1) = None"
  by (rule sample_effect, simp add: sample_inner)+

lemma sample_clock [simp]:
  "timestamp (ts_oracle (db_inner sample_db)) = 1000"
  "candidate_version (ts_oracle (db_inner sample_db)) (w_clock sample_world 0) = 1001"
  by (simp_all add: sample_inner background_resync_def candidate_version_def current_time_ns_def sample_world_def)

section \<open>A serializable transaction that reads and writes\<close>

definition sample_ssi_tx :: TransactionInner where
  "sample_ssi_tx = snd (run_op (sys_inner sample_s1) (OpSet sample_key sample_value)
     (snd (run_op (sys_inner sample_s1) (OpGet [1])
       (snd (run_op (sys_inner sample_s1) (OpMode SerializableSnapshotIsolation) sample_tx)))))"

definition sample_ssi :: System where
  "sample_ssi = sample_s1\<lparr>live := [(0, sample_ssi_tx)]\<rparr>"

lemma reachable_run_op:
  assumes "reachable (sample_s1\<lparr>live := [(0, tx)]\<rparr>)"
  shows "reachable (sample_s1\<lparr>live := [(0, snd (run_op (sys_inner sample_s1) op tx))]\<rparr>)"
proof -
  obtain r tx' where "run_op (sys_inner sample_s1) op tx = (r, tx')" by fastforce
  with reachable_step [OF assms step_op [of _ 0 tx op r tx']] show ?thesis by simp
qed

lemma sample_ssi_reachable: "reachable sample_ssi"
proof -
  have "sample_s1\<lparr>live := [(0, sample_tx)]\<rparr> = sample_s1" by (simp add: sample_s1_def)
  with sample_reachable1 have "reachable (sample_s1\<lparr>live := [(0, sample_tx)]\<rparr>)" by metis
  then show ?thesis
    unfolding sample_ssi_def sample_ssi_tx_def by (intro reachable_run_op)
qed

lemma sample_ssi_facts [simp]:
  "tx_mode sample_ssi_tx = SerializableSnapshotIsolation" "tx_readset sample_ssi_tx = {[1]}"
  "tx_writeset sample_ssi_tx = [(sample_key, Some sample_value)]" "\<not> tx_done sample_ssi_tx"
  "live sample_ssi = [(0, sample_ssi_tx)]" "sys_inner sample_ssi = sys_inner sample_s1"
  by (simp_all add: sample_ssi_tx_def sample_ssi_def set_mode_def with_serializable_snapshot_isolation_def
      get_def set_value_def record_read_def)

lemma commit_first:
  assumes "reachable s" "ts_oracle (sys_inner s) = ts_oracle (db_inner sample_db)"
    "transaction_commit_id (sys_inner s) = 0" "transaction_commit_queue (sys_inner s) = []"
    "persistence (sys_inner s) = None" "map_of (live s) i = Some tx" "\<not> tx_done tx" "tx_writeset tx \<noteq> []"
  shows "step s (Committed i (Inr ()))
    \<lparr>sys_db = (sys_db s)\<lparr>db_inner := committed_state 1001 tx (sys_inner s) None\<rparr>, live = om_insert i (closed_tx tx) (live s)\<rparr>"
proof -
  have "commit_conflict tx (sys_inner s) = None" using assms(4) by (simp add: commit_conflict_def commit_range_def)
  from commit_passing [OF reachable_inner_wf [OF assms(1)] _ assms(7,8) this, of sample_world] assms(2-5)
  have "commit sample_world tx (sys_inner s)
      = Some (Inr (), closed_tx tx, committed_state 1001 tx (sys_inner s) None)"
    by (simp add: append_outcome_def)
  from step_commit [OF assms(6) this] assms(2,3) show ?thesis by (simp add: word_less_nat_alt unat_u64_MAX)
qed

lemma sample_ssi_step: "\<exists>s'. step sample_ssi (Committed 0 (Inr ())) s'"
  using commit_first [OF sample_ssi_reachable, of 0 sample_ssi_tx] by auto

section \<open>Two writers of one key\<close>

lemma sample_conflict:
  "\<exists>s s' tx. reachable s \<and> step s (Committed 1 (Inl KeyWriteConflict)) s' \<and> map_of (live s) 1 = Some tx"
proof -
  have inv2: "sys_inv sample_s2" by (rule reachable_inv [OF sample_reachable2])
  have cap: "Suc (length (live sample_s2)) < 2 ^ 64 - 1" by simp
  obtain tx1 db1 where bg: "transaction (sys_db sample_s2) True = Some (tx1, db1)"
    using begin_returns [OF inv2 cap] by blast
  obtain tv tc where b: "db_inner db1 = (sys_inner sample_s2)\<lparr>counter_by_oracle := tv, counter_by_commit := tc\<rparr>"
    "tx_commit tx1 = transaction_commit_id (sys_inner sample_s2)" "tx_mode tx1 = SnapshotIsolation" "\<not> tx_done tx1"
    "tx_write tx1 = True" "tx_writeset tx1 = []"
    by (rule begin_effect [OF inv2 bg cap])
  let ?tx1 = "tx1\<lparr>tx_writeset := [(sample_key, Some sample_value)]\<rparr>"
  let ?a = "\<lparr>sys_db = db1, live = om_insert 1 tx1 (live sample_s2)\<rparr>"
  let ?b = "\<lparr>sys_db = db1, live = [(0, sample_tx2), (1, ?tx1)]\<rparr>"
  have "reachable ?a" using reachable_step [OF sample_reachable2 step_begin [OF bg, of 1]] by simp
  moreover have "step ?a (Op 1 (OpSet sample_key sample_value) (RUnit (Inr ()))) ?b"
    using step_op [of ?a 1 tx1 "OpSet sample_key sample_value" "RUnit (Inr ())" ?tx1] b by (simp add: set_value_def)
  ultimately have rb: "reachable ?b" by (rule reachable_step)
  let ?inner = "committed_state 1001 sample_tx2 (db_inner db1) None"
  let ?c = "\<lparr>sys_db = db1\<lparr>db_inner := ?inner\<rparr>, live = [(0, closed_tx sample_tx2), (1, ?tx1)]\<rparr>"
  have t2: "\<not> tx_done sample_tx2" "tx_writeset sample_tx2 = [(sample_key, Some sample_value)]"
    by (simp_all add: sample_tx2_def)
  have "step ?b (Committed 0 (Inr ())) ?c"
    using commit_first [OF rb, of 0 sample_tx2] t2 by (simp add: b(1) sample_s2_inner)
  from reachable_step [OF rb this] have rc: "reachable ?c" .
  have ch: "sample_key \<in> changed_since (transaction_commit_queue ?inner) 0"
    using committed_state_props(4) [OF reachable_inner_wf [OF rb, simplified], of sample_tx2 1001 0]
      sys_inv_live(1) [OF reachable_inv [OF rb], of 0 sample_tx2] t2
    by (simp add: b(1) sample_s2_inner live_ok_def word_less_nat_alt unat_u64_MAX)
  have lt: "timestamp (ts_oracle ?inner) < u64_MAX" "transaction_commit_id ?inner < u64_MAX"
    by (simp_all add: b(1) sample_s2_inner word_less_nat_alt unat_u64_MAX max_def)
  have tx1: "tx_wf ?tx1" "tx_commit ?tx1 \<le> transaction_commit_id ?inner" "map_of (live ?c) 1 = Some ?tx1"
    using sys_inv_live(1) [OF reachable_inv [OF rc], of 1 ?tx1] by (simp_all add: live_ok_def)
  have "commit_conflict ?tx1 ?inner = Some KeyWriteConflict"
    using commit_conflict_cases [OF reachable_inner_wf [OF rc, simplified] tx1(1) _ lt(2) tx1(2)] ch b(2,3)
    by (auto simp: sample_s2_inner split: option.splits)
  from commit_conflicting [OF reachable_inner_wf [OF rc, simplified] lt(2) _ _ this, of sample_world] b(4)
  have "\<exists>tx' inner'. commit sample_world ?tx1 ?inner = Some (Inl KeyWriteConflict, tx', inner')" by simp
  then obtain tx' inner' where "commit sample_world ?tx1 ?inner = Some (Inl KeyWriteConflict, tx', inner')" by blast
  with step_commit [of ?c 1 ?tx1 sample_world "Inl KeyWriteConflict" tx' inner'] lt have
    "\<exists>s'. step ?c (Committed 1 (Inl KeyWriteConflict)) s'" by auto
  with rc tx1(3) show ?thesis by blast
qed


section \<open>A database with a synchronous log\<close>

definition sample_popts :: PersistenceOptions where
  "sample_popts = with_sync_aol (PersistenceOptions_new ''/d'') 60"

definition sample_pdb :: Database where
  "sample_pdb = (case new_with_persistence sample_codec quiet_env DatabaseOptions_default sample_popts (\<lambda>_. None) (Some 1000) 0
     of Some (Inr db) \<Rightarrow> db | _ \<Rightarrow> sample_db)"

lemma sample_paths:
  "resolve_path ''/d'' None ''aol.bin'' = ''/d/aol.bin''" "resolve_path ''/d'' None ''snapshot.bin'' = ''/d/snapshot.bin''"
  by (simp_all add: resolve_path_def path_join_def is_absolute_def)

definition sample_p :: Persistence where
  "sample_p = spawn_fsync_worker (spawn_appender_worker (spawn_snapshot_worker
     (Persistence_init sample_popts (clock quiet_env) (\<lambda>_. None))))"

lemma sample_p_facts [simp]:
  "aol_path sample_p = ''/d/aol.bin''" "snapshot_path sample_p = ''/d/snapshot.bin''" "aol sample_p"
  "aol_mode sample_p = SynchronousOnCommit" "fsync_mode sample_p = EveryAppend"
  "files sample_p = (\<lambda>_. None)(''/d/aol.bin'' \<mapsto> [])" "compression_mode sample_p = CompressionNone"
  by (simp_all add: sample_p_def Persistence_init_def sample_popts_def with_sync_aol_def PersistenceOptions_new_def
      PersistenceOptions_default_def sample_paths spawn_fsync_worker_def spawn_appender_worker_def
      spawn_snapshot_worker_def Let_def)

lemma sample_p_load: "load sample_codec quiet_env (Persistence_init sample_popts (clock quiet_env) (\<lambda>_. None)) [] = Some (Inr [])"
  by (simp add: load_def load_file_def Persistence_init_def sample_popts_def with_sync_aol_def PersistenceOptions_new_def
      PersistenceOptions_default_def sample_paths Let_def quiet_env_def)

lemma sample_pdb_new:
  "new_with_persistence sample_codec quiet_env DatabaseOptions_default sample_popts (\<lambda>_. None) (Some 1000) 0 = Some (Inr sample_pdb)"
  "persistence (db_inner sample_pdb) = Some sample_p" "datastore (db_inner sample_pdb) = []"
  "ts_oracle (db_inner sample_pdb) = ts_oracle (db_inner sample_db)"
  "transaction_commit_id (db_inner sample_pdb) = 0" "transaction_commit_queue (db_inner sample_pdb) = []"
proof -
  have p: "Persistence_new sample_codec quiet_env sample_popts (\<lambda>_. None) [] = Some (Inr (sample_p, []))"
    using sample_p_load by (simp add: Persistence_new_def sample_p_def Let_def) (simp add: quiet_env_def)
  obtain inner where i: "Inner_new DatabaseOptions_default (Some 1000) 0 = Some inner" "datastore inner = []"
    "ts_oracle inner = ts_oracle (db_inner sample_db)" "transaction_commit_id inner = 0" "transaction_commit_queue inner = []"
    by (simp add: sample_inner) (simp add: Inner_new_def Oracle_new_def current_unix_ns_def DatabaseOptions_default_def)
  let ?db = "start_workers DatabaseOptions_default (Database_of DatabaseOptions_default (inner\<lparr>datastore := [], persistence := Some sample_p\<rparr>))"
  have new: "new_with_persistence sample_codec quiet_env DatabaseOptions_default sample_popts (\<lambda>_. None) (Some 1000) 0 = Some (Inr ?db)"
    using i p by (simp add: new_with_persistence_def)
  then show "new_with_persistence sample_codec quiet_env DatabaseOptions_default sample_popts (\<lambda>_. None) (Some 1000) 0 = Some (Inr sample_pdb)"
    by (simp add: sample_pdb_def)
  with new have "sample_pdb = ?db" by simp
  moreover obtain a b where "db_inner ?db = inner\<lparr>datastore := [], persistence := Some sample_p, transaction_cleanup_handle := a,
      garbage_collection_handle := b\<rparr>"
    using start_workers_inner [of DatabaseOptions_default "Database_of DatabaseOptions_default (inner\<lparr>datastore := [], persistence := Some sample_p\<rparr>)"]
    by (auto simp: Database_of_def)
  ultimately show "persistence (db_inner sample_pdb) = Some sample_p" "datastore (db_inner sample_pdb) = []"
    "ts_oracle (db_inner sample_pdb) = ts_oracle (db_inner sample_db)"
    "transaction_commit_id (db_inner sample_pdb) = 0" "transaction_commit_queue (db_inner sample_pdb) = []"
    using i by simp_all
qed

lemma sample_durable:
  "\<exists>s tx. reachable s \<and> map_of (live s) 0 = Some tx \<and> \<not> tx_done tx \<and> tx_writeset tx = [(sample_key, Some sample_value)]
    \<and> persistence (sys_inner s) = Some sample_p \<and> timestamp (ts_oracle (sys_inner s)) = 1000
    \<and> transaction_commit_id (sys_inner s) = 0 \<and> recovers sample_codec sample_p (datastore (sys_inner s)) 1000
    \<and> commit_conflict tx (sys_inner s) = None
    \<and> candidate_version (ts_oracle (sys_inner s)) (w_clock sample_world 0) = 1001"
proof -
  let ?s = "\<lparr>sys_db = sample_pdb, live = []\<rparr>"
  have r: "reachable ?s"
    by (rule reachable_loaded [OF sample_pdb_new(1)]) (simp add: sample_pdb_new store_newest_le_def)
  have cap: "Suc (length (live ?s)) < 2 ^ 64 - 1" by simp
  obtain tx db where bg: "transaction (sys_db ?s) True = Some (tx, db)"
    using begin_returns [OF reachable_inv [OF r] cap] by blast
  obtain tv tc where b: "db_inner db = (sys_inner ?s)\<lparr>counter_by_oracle := tv, counter_by_commit := tc\<rparr>"
    "\<not> tx_done tx" "tx_write tx = True" "tx_writeset tx = []"
    by (rule begin_effect [OF reachable_inv [OF r] bg cap])
  let ?tx = "tx\<lparr>tx_writeset := [(sample_key, Some sample_value)]\<rparr>"
  let ?a = "\<lparr>sys_db = db, live = [(0, tx)]\<rparr>" let ?b = "\<lparr>sys_db = db, live = [(0, ?tx)]\<rparr>"
  have "reachable ?a" using reachable_step [OF r step_begin [OF bg, of 0]] by simp
  moreover have "step ?a (Op 0 (OpSet sample_key sample_value) (RUnit (Inr ()))) ?b"
    using step_op [of ?a 0 tx "OpSet sample_key sample_value" "RUnit (Inr ())" ?tx] b by (simp add: set_value_def)
  ultimately have rb: "reachable ?b" by (rule reachable_step)
  have "recovers sample_codec sample_p [] 1000"
    unfolding recovers_def
    by (intro exI [of _ "[]"]) (simp add: load_file_def file_of_def encode_log_def store_wf_def store_newest_le_def)
  with rb b show ?thesis
    by (intro exI [of _ ?b] exI [of _ ?tx]) (simp add: sample_pdb_new commit_conflict_def commit_range_def)
qed

lemma sample_serving: "serving sample_s0"
  using sample_reachable0 by (simp add: serving_def sample_inner background_resync_def sample_s0_def)

section \<open>A heap of handles\<close>

definition sample_heap :: c_heap where
  "sample_heap = c_start\<lparr>h_engines := [5 \<mapsto> sys_db sample_s1], h_dbs := {5}, h_txs := [(6, 5, Some sample_tx)], h_next := 7\<rparr>"

lemma sample_heap_wf: "c_wf sample_heap"
  by (simp add: c_wf_def sample_heap_def c_start_def entry_ok_def om_wf_def)

lemma sample_heap_lock: "lock_tx 6 sample_heap = Some (5, sys_db sample_s1, Some sample_tx)"
  by (simp add: lock_tx_def sample_heap_def)

lemma sample_heap_abs: "abs_c 5 sample_heap = \<lparr>sys_db = sys_db sample_s1, live = [(6, sample_tx)]\<rparr>"
  by (simp add: abs_c_def sample_heap_def)

lemma sample_heap_reachable: "reachable (abs_c 5 sample_heap)"
proof -
  have "step sample_s0 (Begin 6 True) \<lparr>sys_db = sys_db sample_s1, live = om_insert 6 sample_tx (live sample_s0)\<rparr>"
    by (rule step_begin) (simp_all add: sample_s0_def sample_begin)
  from reachable_step [OF sample_reachable0 this] show ?thesis by (simp add: sample_heap_abs)
qed

lemma sample_heap_bounds: "c_bounds 5 sample_heap"
  by (simp add: c_bounds_def sample_heap_abs)

end
