(* ===== verification/Registration.thy ===== *)
theory Registration
  imports Counters
begin

text \<open>
  The registration protocol between transactions and collectors at the grain of its atomic accesses
  (\<open>register_counter\<close>, \<open>release_counter\<close> and \<open>Transaction::drop\<close> on one side, \<open>compute_cleanup_ts\<close>,
  \<open>run_cleanup_inner\<close> and \<open>earliest_active\<close> on the other).  Any number of threads interleave; each step
  is one load, store, exchange or map access, in a sequentially consistent order, which is what the
  code's fences ask for.  A weak exchange may fail for no reason.  Theory \<open>Counters\<close> gives the same
  operations when they run undisturbed.
\<close>

section \<open>Shared memory and threads\<close>

record shared =
  tbl :: Counters
  atomic :: u64
  floor_cell :: "u64 option"

text \<open>Where a transaction thread stands, named by the access it makes next; the flag tells a roll-back
  inside \<open>register_counter\<close> from a drop.\<close>

datatype reg_pc =
    RIdle
  | RLoad
  | RSlot u64
  | RLoadCell u64 nat
  | RCas u64 nat u64
  | RCheckAtomic u64 nat
  | RCheckFloor u64 nat bool
  | RHeld u64 nat
  | RRelLoad bool u64 nat
  | RRelCas bool u64 nat u64
  | RRemove bool u64 nat
  | RUnlink u64 nat

definition set_cell :: "nat \<Rightarrow> u64 \<Rightarrow> shared \<Rightarrow> shared" where
  "set_cell c x s = s\<lparr>tbl := (tbl s)\<lparr>cells := (cells (tbl s))[c := x]\<rparr>\<rparr>"

definition drop_slot :: "u64 \<Rightarrow> shared \<Rightarrow> shared" where
  "drop_slot v s = s\<lparr>tbl := (tbl s)\<lparr>slots := om_remove v (slots (tbl s))\<rparr>\<rparr>"

fun reg_next :: "bool \<Rightarrow> shared \<Rightarrow> reg_pc \<Rightarrow> reg_pc \<times> shared" where
  "reg_next weak s RIdle = (RLoad, s)"
| "reg_next weak s RLoad = (RSlot (atomic s), s)"
| "reg_next weak s (RSlot v) =
     (case slot_get_or_insert (tbl s) v of (counter, t) \<Rightarrow> (RLoadCell v counter, s\<lparr>tbl := t\<rparr>))"
| "reg_next weak s (RLoadCell v counter) =
     (let current = cells (tbl s) ! counter in
      if current = COUNTER_TOMBSTONE then (RLoad, s) else (RCas v counter current, s))"
| "reg_next weak s (RCas v counter current) =
     (if \<not> weak \<and> cells (tbl s) ! counter = current
      then (RCheckAtomic v counter, set_cell counter (current + 1) s)
      else (RLoadCell v counter, s))"
| "reg_next weak s (RCheckAtomic v counter) = (RCheckFloor v counter (atomic s = v), s)"
| "reg_next weak s (RCheckFloor v counter atomic_stable) =
     (let floor_ok = (case floor_cell s of Some fl \<Rightarrow> fl \<le> v | None \<Rightarrow> True) in
      if atomic_stable \<and> floor_ok then (RHeld v counter, s) else (RRelLoad True v counter, s))"
| "reg_next weak s (RHeld v counter) = (RRelLoad False v counter, s)"
| "reg_next weak s (RRelLoad rollback v counter) = (RRelCas rollback v counter (cells (tbl s) ! counter), s)"
| "reg_next weak s (RRelCas rollback v counter current) =
     (if current > 1 then
        (if \<not> weak \<and> cells (tbl s) ! counter = current
         then (if rollback then RLoad else RIdle, set_cell counter (current - 1) s)
         else (RRelLoad rollback v counter, s))
      else
        (if \<not> weak \<and> cells (tbl s) ! counter = 1
         then (RRemove rollback v counter, set_cell counter COUNTER_TOMBSTONE s)
         else (RRelLoad rollback v counter, s)))"
| "reg_next weak s (RRemove rollback v counter) =
     (if \<not> rollback then (RIdle, drop_slot v s)
      else if map_of (slots (tbl s)) v = Some counter then (RUnlink v counter, s)
      else (RLoad, s))"
| "reg_next weak s (RUnlink v counter) =
     (RLoad, if map_of (slots (tbl s)) v = Some counter then drop_slot v s else s)"

text \<open>The lazy iteration over the table: the first entry behind the cursor at the time of the call.\<close>

fun ahead :: "u64 option \<Rightarrow> u64 \<Rightarrow> bool" where
  "ahead None v = True"
| "ahead (Some k) v = (k < v)"

definition next_slot :: "u64 option \<Rightarrow> (u64, nat) omap \<Rightarrow> (u64 \<times> nat) option" where
  "next_slot cursor m = find (\<lambda>e. ahead cursor (fst e)) m"

definition active :: "shared \<Rightarrow> nat \<Rightarrow> bool" where
  "active s c \<longleftrightarrow> cells (tbl s) ! c \<noteq> 0 \<and> cells (tbl s) ! c \<noteq> COUNTER_TOMBSTONE"

text \<open>The version collector in \<open>compute_cleanup_ts\<close>; \<open>VDone\<close> is the collection with its watermark.\<close>

datatype gc_pc =
    VIdle
  | VScan1 u64 "u64 option"
  | VCell1 u64 u64 nat
  | VOracle u64 u64
  | VPublish u64 u64
  | VScan2 u64 u64 "u64 option"
  | VCell2 u64 u64 u64 nat
  | VDone u64

fun gc_next :: "u64 \<Rightarrow> shared \<Rightarrow> gc_pc \<Rightarrow> gc_pc \<times> shared" where
  "gc_next clock_now s VIdle = (VScan1 clock_now None, s)"
| "gc_next clock_now s (VScan1 now cursor) =
     (case next_slot cursor (slots (tbl s)) of
        Some (k, c) \<Rightarrow> (VCell1 now k c, s) | None \<Rightarrow> (VOracle now now, s))"
| "gc_next clock_now s (VCell1 now k c) = (if active s c then (VOracle now k, s) else (VScan1 now (Some k), s))"
| "gc_next clock_now s (VOracle now earliest_tx) = (VPublish now (min (min now earliest_tx) (atomic s)), s)"
| "gc_next clock_now s (VPublish now proposed) =
     (VScan2 now proposed None, s\<lparr>floor_cell := map_option (\<lambda>fl. max fl proposed) (floor_cell s)\<rparr>)"
| "gc_next clock_now s (VScan2 now proposed cursor) =
     (case next_slot cursor (slots (tbl s)) of
        Some (k, c) \<Rightarrow> (VCell2 now proposed k c, s) | None \<Rightarrow> (VDone (min proposed now), s))"
| "gc_next clock_now s (VCell2 now proposed k c) =
     (if active s c then (VDone (min proposed k), s) else (VScan2 now proposed (Some k), s))"
| "gc_next clock_now s (VDone cleanup_ts) = (VIdle, s)"

text \<open>The commit-queue collector in \<open>run_cleanup_inner\<close>; in \<open>QDone\<close> the entries below the second number go.\<close>

datatype cleanup_pc =
    QIdle
  | QScan u64 "u64 option"
  | QCell u64 u64 nat
  | QDone u64 u64

fun cleanup_next :: "shared \<Rightarrow> cleanup_pc \<Rightarrow> cleanup_pc \<times> shared" where
  "cleanup_next s QIdle = (QScan (atomic s) None, s)"
| "cleanup_next s (QScan fallback cursor) =
     (case next_slot cursor (slots (tbl s)) of
        Some (k, c) \<Rightarrow> (QCell fallback k c, s) | None \<Rightarrow> (QDone fallback fallback, s))"
| "cleanup_next s (QCell fallback k c) =
     (if active s c then (QDone fallback k, s) else (QScan fallback (Some k), s))"
| "cleanup_next s (QDone fallback oldest) = (QIdle, s)"

section \<open>Interleavings\<close>

record machine =
  mem :: shared
  regs :: "reg_pc list"
  gcs :: "gc_pc list"
  cleanups :: "cleanup_pc list"

inductive mstep :: "machine \<Rightarrow> machine \<Rightarrow> bool" where
  mstep_reg: "mstep m (m\<lparr>mem := s', regs := (regs m)[i := pc]\<rparr>)"
    if "i < length (regs m)" "reg_next weak (mem m) (regs m ! i) = (pc, s')"
| mstep_gc: "mstep m (m\<lparr>mem := s', gcs := (gcs m)[i := pc]\<rparr>)"
    if "i < length (gcs m)" "gc_next clock_now (mem m) (gcs m ! i) = (pc, s')"
| mstep_cleanup: "mstep m (m\<lparr>mem := s', cleanups := (cleanups m)[i := pc]\<rparr>)"
    if "i < length (cleanups m)" "cleanup_next (mem m) (cleanups m ! i) = (pc, s')"
| mstep_advance: "mstep m (m\<lparr>mem := (mem m)\<lparr>atomic := a\<rparr>\<rparr>)"
    if "atomic (mem m) \<le> a"

text \<open>The table of snapshot versions, guarded by the floor, and the table of commit numbers, without.\<close>

definition version_machine :: "nat \<Rightarrow> nat \<Rightarrow> u64 \<Rightarrow> machine" where
  "version_machine n g a =
     \<lparr>mem = \<lparr>tbl = Counters_new, atomic = a, floor_cell = Some 0\<rparr>, regs = replicate n RIdle,
      gcs = replicate g VIdle, cleanups = []\<rparr>"

definition queue_machine :: "nat \<Rightarrow> nat \<Rightarrow> u64 \<Rightarrow> machine" where
  "queue_machine n q a =
     \<lparr>mem = \<lparr>tbl = Counters_new, atomic = a, floor_cell = None\<rparr>, regs = replicate n RIdle,
      gcs = [], cleanups = replicate q QIdle\<rparr>"

section \<open>The table invariant\<close>

fun held :: "reg_pc \<Rightarrow> (u64 \<times> nat) option" where
  "held (RCheckAtomic v c) = Some (v, c)"
| "held (RCheckFloor v c b) = Some (v, c)"
| "held (RHeld v c) = Some (v, c)"
| "held (RRelLoad rb v c) = Some (v, c)"
| "held (RRelCas rb v c x) = Some (v, c)"
| "held _ = None"

fun removing :: "reg_pc \<Rightarrow> (u64 \<times> nat) option" where
  "removing (RRemove rb v c) = Some (v, c)"
| "removing (RUnlink v c) = Some (v, c)"
| "removing _ = None"

fun awaiting :: "reg_pc \<Rightarrow> (u64 \<times> nat) option" where
  "awaiting (RLoadCell v c) = Some (v, c)"
| "awaiting (RCas v c x) = Some (v, c)"
| "awaiting _ = None"

definition holders :: "nat \<Rightarrow> reg_pc list \<Rightarrow> nat" where
  "holders c rs = length (filter (\<lambda>r. map_option snd (held r) = Some c) rs)"

definition removers :: "nat \<Rightarrow> reg_pc list \<Rightarrow> nat" where
  "removers c rs = length (filter (\<lambda>r. map_option snd (removing r) = Some c) rs)"

definition reg_ok :: "Counters \<Rightarrow> reg_pc \<Rightarrow> bool" where
  "reg_ok t r \<longleftrightarrow>
     (\<forall>v c. held r = Some (v, c) \<longrightarrow> map_of (slots t) v = Some c \<and> cells t ! c \<noteq> COUNTER_TOMBSTONE)
     \<and> (\<forall>v c. removing r = Some (v, c) \<longrightarrow> map_of (slots t) v = Some c \<and> cells t ! c = COUNTER_TOMBSTONE)
     \<and> (\<forall>v c. awaiting r = Some (v, c) \<longrightarrow>
          c < length (cells t) \<and> (cells t ! c \<noteq> COUNTER_TOMBSTONE \<longrightarrow> map_of (slots t) v = Some c))
     \<and> (\<forall>v c. r \<noteq> RCas v c COUNTER_TOMBSTONE)"

definition slots_ok :: "Counters \<Rightarrow> bool" where
  "slots_ok t \<longleftrightarrow> om_wf (slots t) \<and> inj_on snd (set (slots t)) \<and> snd ` set (slots t) \<subseteq> {..<length (cells t)}"

definition cells_ok :: "Counters \<Rightarrow> reg_pc list \<Rightarrow> bool" where
  "cells_ok t rs \<longleftrightarrow> (\<forall>c<length (cells t). removers c rs \<le> 1
     \<and> (cells t ! c \<noteq> COUNTER_TOMBSTONE \<longrightarrow> cells t ! c = of_nat (holders c rs)))"

definition table_inv :: "Counters \<Rightarrow> reg_pc list \<Rightarrow> bool" where
  "table_inv t rs \<longleftrightarrow> length rs < 2 ^ 64 - 1 \<and> slots_ok t \<and> cells_ok t rs \<and> (\<forall>r\<in>set rs. reg_ok t r)"


lemma length_filter_update:
  "i < length rs \<Longrightarrow> length (filter P (rs[i := r])) + (if P (rs ! i) then 1 else 0)
     = length (filter P rs) + (if P r then 1 else 0)"
proof (induction rs arbitrary: i)
  case (Cons a rs)
  then show ?case by (cases i) fastforce+
qed simp

lemma holders_update:
  "i < length rs \<Longrightarrow> holders c (rs[i := r]) + (if map_option snd (held (rs ! i)) = Some c then 1 else 0)
     = holders c rs + (if map_option snd (held r) = Some c then 1 else 0)"
  unfolding holders_def by (rule length_filter_update)

lemma removers_update:
  "i < length rs \<Longrightarrow> removers c (rs[i := r]) + (if map_option snd (removing (rs ! i)) = Some c then 1 else 0)
     = removers c rs + (if map_option snd (removing r) = Some c then 1 else 0)"
  unfolding removers_def by (rule length_filter_update)

lemma holders_le: "holders c rs \<le> length rs"
  by (simp add: holders_def)

lemma holders_pos: "r \<in> set rs \<Longrightarrow> held r = Some (v, c) \<Longrightarrow> 0 < holders c rs"
  by (auto simp: holders_def length_greater_0_conv filter_empty_conv)

lemma removers_pos: "r \<in> set rs \<Longrightarrow> removing r = Some (v, c) \<Longrightarrow> 0 < removers c rs"
  by (auto simp: removers_def length_greater_0_conv filter_empty_conv)

lemma slots_okD:
  assumes "slots_ok t" "map_of (slots t) v = Some c"
  shows "c < length (cells t)" "map_of (slots t) v' = Some c \<Longrightarrow> v' = v"
proof -
  have m: "(v, c) \<in> set (slots t)" by (rule map_of_SomeD [OF assms(2)])
  then show "c < length (cells t)" using assms(1) by (force simp: slots_ok_def)
  assume "map_of (slots t) v' = Some c"
  then have "(v', c) \<in> set (slots t)" by (rule map_of_SomeD)
  with m assms(1) inj_onD [of snd "set (slots t)" "(v', c)" "(v, c)"] show "v' = v" by (simp add: slots_ok_def)
qed

lemma table_invD:
  assumes "table_inv t rs"
  shows "slots_ok t" "cells_ok t rs" "\<And>r. r \<in> set rs \<Longrightarrow> reg_ok t r" "\<And>c. holders c rs < 2 ^ 64 - 1"
    "\<And>r v c. r \<in> set rs \<Longrightarrow> held r = Some (v, c) \<Longrightarrow>
       map_of (slots t) v = Some c \<and> c < length (cells t) \<and> cells t ! c = of_nat (holders c rs) \<and> 0 < holders c rs"
proof -
  show 1: "slots_ok t" "cells_ok t rs" "\<And>r. r \<in> set rs \<Longrightarrow> reg_ok t r" using assms by (auto simp: table_inv_def)
  show "\<And>c. holders c rs < 2 ^ 64 - 1" using assms holders_le order_le_less_trans unfolding table_inv_def by blast
  fix r v c assume r: "r \<in> set rs" "held r = Some (v, c)"
  then have "map_of (slots t) v = Some c" "cells t ! c \<noteq> COUNTER_TOMBSTONE" using 1(3) [OF r(1)] by (auto simp: reg_ok_def)
  with slots_okD(1) [OF 1(1)] 1(2) holders_pos [OF r]
  show "map_of (slots t) v = Some c \<and> c < length (cells t) \<and> cells t ! c = of_nat (holders c rs) \<and> 0 < holders c rs"
    by (fastforce simp: cells_ok_def)
qed

text \<open>One thread moves from \<open>rs ! i\<close> to \<open>r\<close> and the table from \<open>t\<close> to \<open>t'\<close>.\<close>

lemma table_inv_update:
  assumes "table_inv t rs" "i < length rs" "slots_ok t'" "cells_ok t' (rs[i := r])" "reg_ok t' r"
    and "\<And>j. j < length rs \<Longrightarrow> j \<noteq> i \<Longrightarrow> reg_ok t (rs ! j) \<Longrightarrow> reg_ok t' (rs ! j)"
  shows "table_inv t' (rs[i := r])"
proof -
  have "reg_ok t' x" if x: "x \<in> set (rs[i := r])" for x
  proof -
    from x obtain j where j: "j < length rs" "x = rs[i := r] ! j" by (auto simp: in_set_conv_nth)
    show ?thesis
    proof (cases "j = i")
      case True then show ?thesis using j assms(2,5) by simp
    next
      case False then show ?thesis using j assms(6) table_invD(3) [OF assms(1)] by auto
    qed
  qed
  with assms(1,3,4) show ?thesis by (simp add: table_inv_def)
qed

lemma table_inv_quiet:
  assumes "table_inv t rs" "i < length rs" "held r = held (rs ! i)" "removing r = removing (rs ! i)" "reg_ok t r"
  shows "table_inv t (rs[i := r])"
proof (rule table_inv_update [OF assms(1,2) table_invD(1) [OF assms(1)] _ assms(5)])
  have "holders c (rs[i := r]) = holders c rs" "removers c (rs[i := r]) = removers c rs" for c
    using holders_update [OF assms(2), of c r] removers_update [OF assms(2), of c r] assms(3,4) by (auto split: if_splits)
  then show "cells_ok t (rs[i := r])" using table_invD(2) [OF assms(1)] by (simp add: cells_ok_def)
qed


text \<open>The five accesses that change the table.\<close>

lemma table_inv_slot:
  assumes "table_inv t rs" "i < length rs" "rs ! i = RSlot v" "slot_get_or_insert t v = (c, t')"
  shows "table_inv t' (rs[i := RLoadCell v c])"
proof (cases "map_of (slots t) v")
  case (Some c')
  then have "t' = t" "c' = c" using assms(4) by (simp_all add: slot_get_or_insert_def)
  with table_inv_quiet [OF assms(1,2), of "RLoadCell v c"] Some assms(3) slots_okD(1) [OF table_invD(1) [OF assms(1)] Some]
  show ?thesis by (simp add: reg_ok_def)
next
  case None
  let ?n = "length (cells t)"
  have t': "c = ?n" "t' = t\<lparr>slots := om_insert v ?n (slots t), cells := cells t @ [0]\<rparr>"
    using assms(4) None by (auto simp: slot_get_or_insert_def)
  note inv = table_invD [OF assms(1)]
  have "holders ?n rs = 0"
    using inv(5) by (fastforce simp: holders_def filter_empty_conv)
  moreover have "removers ?n rs = 0"
    using inv(3) slots_okD(1) [OF inv(1)] by (fastforce simp: removers_def filter_empty_conv reg_ok_def)
  moreover have eq: "holders c' (rs[i := RLoadCell v c]) = holders c' rs" "removers c' (rs[i := RLoadCell v c]) = removers c' rs" for c'
    using holders_update [OF assms(2), of c' "RLoadCell v c"] removers_update [OF assms(2), of c' "RLoadCell v c"] assms(3) by simp_all
  ultimately have "cells_ok t' (rs[i := RLoadCell v c])"
    using inv(2) by (auto simp: cells_ok_def t'(2) nth_append less_Suc_eq)
  moreover have "slots_ok t'"
    using inv(1) None by (force simp: slots_ok_def t'(2) set_om_insert inj_on_def map_of_None_keys intro: wf_intros)
  moreover have "reg_ok t' r" if "reg_ok t r" for r
    using that None inv(1) slots_okD(1) [OF inv(1)]
    by (auto simp: reg_ok_def t'(2) map_of_om_insert nth_append)
  ultimately show ?thesis
    by (intro table_inv_update [OF assms(1,2)]) (auto simp: reg_ok_def t'(2) map_of_om_insert t'(1) [symmetric] nth_append)
qed

lemma count_word:
  assumes "n < 2 ^ 64 - 1"
  shows "unat (of_nat n :: u64) = n" "(of_nat n :: u64) \<noteq> COUNTER_TOMBSTONE" "(of_nat n :: u64) = 1 \<longleftrightarrow> n = 1"
    "(of_nat n :: u64) = 0 \<longleftrightarrow> n = 0"
proof -
  show u: "unat (of_nat n :: u64) = n" using assms by (simp add: unat_of_nat take_bit_nat_eq_self)
  then show "(of_nat n :: u64) \<noteq> COUNTER_TOMBSTONE"
    using assms unat_u64_MAX unfolding COUNTER_TOMBSTONE_def by (metis less_irrefl)
  show "(of_nat n :: u64) = 1 \<longleftrightarrow> n = 1" "(of_nat n :: u64) = 0 \<longleftrightarrow> n = 0"
    using u by (auto simp: word_unat_eq_iff)
qed

lemma cells_ok_set:
  assumes "cells_ok t rs" "t' = t\<lparr>cells := (cells t)[c := x]\<rparr>" "c < length (cells t)"
    and "\<And>c'. c' \<noteq> c \<Longrightarrow> holders c' rs' = holders c' rs \<and> removers c' rs' = removers c' rs"
    and "removers c rs' \<le> 1" "x = COUNTER_TOMBSTONE \<or> x = of_nat (holders c rs')"
  shows "cells_ok t' rs'"
  using assms by (auto simp: cells_ok_def nth_list_update)

lemma slots_ok_cells: "slots_ok (t\<lparr>cells := (cells t)[c := x]\<rparr>) = slots_ok t"
  by (simp add: slots_ok_def)

text \<open>A thread that gains, loses or turns the cell \<open>c\<close> into a tombstone.\<close>

lemma table_inv_cell:
  assumes "table_inv t rs" "i < length rs" "c < length (cells t)" "cells t ! c \<noteq> COUNTER_TOMBSTONE"
    and "\<And>c'. c' \<noteq> c \<Longrightarrow> map_option snd (held r) \<noteq> Some c' \<and> map_option snd (held (rs ! i)) \<noteq> Some c'
      \<and> map_option snd (removing r) \<noteq> Some c' \<and> map_option snd (removing (rs ! i)) \<noteq> Some c'"
    and "x = COUNTER_TOMBSTONE \<or> x = of_nat (holders c (rs[i := r]))" "x = COUNTER_TOMBSTONE \<longrightarrow> holders c (rs[i := r]) = 0"
    and "reg_ok (t\<lparr>cells := (cells t)[c := x]\<rparr>) r"
  shows "table_inv (t\<lparr>cells := (cells t)[c := x]\<rparr>) (rs[i := r])"
proof -
  note inv = table_invD [OF assms(1)]
  have none: "removers c rs = 0"
    using inv(3) assms(4) by (fastforce simp: removers_def filter_empty_conv reg_ok_def)
  have r: "removers c (rs[i := r]) \<le> 1" using removers_update [OF assms(2), of c r] none by (auto split: if_splits)
  have others: "reg_ok (t\<lparr>cells := (cells t)[c := x]\<rparr>) (rs ! j)" if j: "j < length rs" "j \<noteq> i" "reg_ok t (rs ! j)" for j
  proof -
    have m: "rs ! j \<in> set (rs[i := r])" using j by (metis length_list_update nth_list_update_neq nth_mem)
    have "x \<noteq> COUNTER_TOMBSTONE" if "held (rs ! j) = Some (v, c)" for v
      using holders_pos [OF m that] assms(7) by auto
    moreover have "removing (rs ! j) \<noteq> Some (v, c)" for v using j(3) assms(4) by (auto simp: reg_ok_def)
    ultimately show ?thesis
      using j(3) assms(3,4) by (auto simp: reg_ok_def nth_list_update)
  qed
  have "cells_ok (t\<lparr>cells := (cells t)[c := x]\<rparr>) (rs[i := r])"
  proof (rule cells_ok_set [OF inv(2) refl assms(3) _ r assms(6)])
    fix c' assume "c' \<noteq> c"
    from assms(5) [OF this] holders_update [OF assms(2), of c' r] removers_update [OF assms(2), of c' r]
    show "holders c' (rs[i := r]) = holders c' rs \<and> removers c' (rs[i := r]) = removers c' rs" by auto
  qed
  from table_inv_update [OF assms(1,2) _ this assms(8)] others inv(1) show ?thesis by (simp add: slots_ok_cells)
qed

lemma table_inv_drop_slot:
  assumes "table_inv t rs" "i < length rs" "removing (rs ! i) = Some (v, c)" "held r = None" "removing r = None" "awaiting r = None"
  shows "table_inv (t\<lparr>slots := om_remove v (slots t)\<rparr>) (rs[i := r])"
proof (rule table_inv_update [OF assms(1,2)])
  note inv = table_invD [OF assms(1)]
  have i: "map_of (slots t) v = Some c" "cells t ! c = COUNTER_TOMBSTONE"
    using inv(3) [of "rs ! i"] assms(2,3) by (auto simp: reg_ok_def)
  have h: "held (rs ! i) = None" using assms(3) by (cases "rs ! i") auto
  show "slots_ok (t\<lparr>slots := om_remove v (slots t)\<rparr>)"
    using inv(1) by (auto simp: slots_ok_def set_om_remove intro: wf_intros inj_on_subset)
  have "holders c' (rs[i := r]) = holders c' rs" "removers c' (rs[i := r]) \<le> removers c' rs" for c'
    using holders_update [OF assms(2), of c' r] removers_update [OF assms(2), of c' r] assms(4,5) h by auto
  then show "cells_ok (t\<lparr>slots := om_remove v (slots t)\<rparr>) (rs[i := r])"
    using inv(2) order_trans by (fastforce simp: cells_ok_def)
  show "reg_ok (t\<lparr>slots := om_remove v (slots t)\<rparr>) r"
    using assms(4-6) by (cases r) (auto simp: reg_ok_def)
  fix j assume j: "j < length rs" "j \<noteq> i" "reg_ok t (rs ! j)"
  have "removing (rs ! j) \<noteq> Some (v, c)"
  proof
    assume "removing (rs ! j) = Some (v, c)"
    moreover have "rs ! j \<in> set (rs[i := r])" using j by (metis length_list_update nth_list_update_neq nth_mem)
    ultimately have "0 < removers c (rs[i := r])" by (rule removers_pos [rotated])
    then show False
      using removers_update [OF assms(2), of c r] assms(3,5) inv(2) slots_okD(1) [OF inv(1) i(1)] by (fastforce simp: cells_ok_def)
  qed
  with j(3) i show "reg_ok (t\<lparr>slots := om_remove v (slots t)\<rparr>) (rs ! j)"
    by (auto simp: reg_ok_def map_of_om_remove)
qed


lemma reg_ok_plain: "held r = None \<Longrightarrow> removing r = None \<Longrightarrow> awaiting r = None \<Longrightarrow> reg_ok t r"
  by (cases r) (auto simp: reg_ok_def)

lemma holders_lt: "table_inv t rs \<Longrightarrow> i < length rs \<Longrightarrow> holders c (rs[i := r]) < 2 ^ 64 - 1"
  using holders_le [of c "rs[i := r]"] by (simp add: table_inv_def)

lemma table_inv_cas:
  assumes "table_inv t rs" "i < length rs" "rs ! i = RCas v c cur" "cells t ! c = cur"
  shows "table_inv (t\<lparr>cells := (cells t)[c := cur + 1]\<rparr>) (rs[i := RCheckAtomic v c])"
proof -
  have ok: "reg_ok t (RCas v c cur)" using table_invD(3) [OF assms(1) nth_mem [OF assms(2)]] assms(3) by simp
  then have c: "c < length (cells t)" "cells t ! c \<noteq> COUNTER_TOMBSTONE" "map_of (slots t) v = Some c"
    using assms(4) by (auto simp: reg_ok_def)
  have n: "holders c (rs[i := RCheckAtomic v c]) = Suc (holders c rs)"
    using holders_update [OF assms(2), of c "RCheckAtomic v c"] assms(3) by simp
  moreover have "cur = of_nat (holders c rs)" using table_invD(2) [OF assms(1)] c assms(4) by (auto simp: cells_ok_def)
  ultimately have x: "cur + 1 = of_nat (holders c (rs[i := RCheckAtomic v c]))" by simp
  with count_word(2) [OF holders_lt [OF assms(1,2)]] have "cur + 1 \<noteq> COUNTER_TOMBSTONE" by metis
  then show ?thesis
    using table_inv_cell [OF assms(1,2) c(1,2), of "RCheckAtomic v c" "cur + 1"] x c assms(3) by (simp add: reg_ok_def)
qed

lemma table_inv_release:
  assumes "table_inv t rs" "i < length rs" "rs ! i = RRelCas rb v c cur" "cells t ! c = cur" "1 < cur"
    and "r = RIdle \<or> r = RLoad"
  shows "table_inv (t\<lparr>cells := (cells t)[c := cur - 1]\<rparr>) (rs[i := r])"
proof -
  have h: "c < length (cells t)" "cells t ! c = of_nat (holders c rs)" "0 < holders c rs"
    using table_invD(5) [OF assms(1) nth_mem [OF assms(2)]] assms(3) by auto
  have n: "Suc (holders c (rs[i := r])) = holders c rs"
    using holders_update [OF assms(2), of c r] assms(3,6) by auto
  then have x: "cur - 1 = of_nat (holders c (rs[i := r]))" using h(2) assms(4) by (metis add_diff_cancel_right' of_nat_Suc add.commute)
  have t: "cells t ! c \<noteq> COUNTER_TOMBSTONE" using count_word(2) [OF table_invD(4) [OF assms(1)]] h(2) by simp
  from count_word(2) [OF holders_lt [OF assms(1,2)]] x have "cur - 1 \<noteq> COUNTER_TOMBSTONE" by metis
  then show ?thesis
    using table_inv_cell [OF assms(1,2) h(1) t, of r "cur - 1"] x assms(3,6) reg_ok_plain [of r] by auto
qed

lemma table_inv_tombstone:
  assumes "table_inv t rs" "i < length rs" "rs ! i = RRelCas rb v c cur" "cells t ! c = 1"
  shows "table_inv (t\<lparr>cells := (cells t)[c := COUNTER_TOMBSTONE]\<rparr>) (rs[i := RRemove rb v c])"
proof -
  have h: "map_of (slots t) v = Some c" "c < length (cells t)" "cells t ! c = of_nat (holders c rs)"
    using table_invD(5) [OF assms(1) nth_mem [OF assms(2)]] assms(3) by auto
  have "holders c rs = 1" using count_word(3) [OF table_invD(4) [OF assms(1)]] h(3) assms(4) by metis
  then have n: "holders c (rs[i := RRemove rb v c]) = 0"
    using holders_update [OF assms(2), of c "RRemove rb v c"] assms(3) by simp
  have "cells t ! c \<noteq> COUNTER_TOMBSTONE" using assms(4) by (simp add: COUNTER_TOMBSTONE_def)
  from table_inv_cell [OF assms(1,2) h(2) this, of "RRemove rb v c" COUNTER_TOMBSTONE] n h assms(3)
  show ?thesis by (simp add: reg_ok_def)
qed

lemma reg_next_table_inv:
  assumes "table_inv (tbl s) rs" "i < length rs" "reg_next weak s (rs ! i) = (r, s')"
  shows "table_inv (tbl s') (rs[i := r])"
proof -
  have ok: "reg_ok (tbl s) (rs ! i)" using table_invD(3) [OF assms(1)] assms(2) by simp
  note quiet = table_inv_quiet [OF assms(1,2)]
  show ?thesis
  proof (cases "rs ! i")
    case (RSlot v)
    with assms(3) table_inv_slot [OF assms(1,2) RSlot] show ?thesis by (auto split: prod.splits)
  next
    case (RCas v c cur)
    with assms(3) ok table_inv_cas [OF assms(1,2) RCas] quiet show ?thesis
      by (auto simp: set_cell_def reg_ok_def split: if_splits)
  next
    case (RRelCas rb v c cur)
    with assms(3) ok table_inv_release [OF assms(1,2) RRelCas] table_inv_tombstone [OF assms(1,2) RRelCas] quiet
    show ?thesis by (auto simp: set_cell_def reg_ok_def split: if_splits)
  next
    case (RRemove rb v c)
    then have "removing (rs ! i) = Some (v, c)" by simp
    with assms(3) ok table_inv_drop_slot [OF assms(1,2) this] quiet RRemove show ?thesis
      by (auto simp: drop_slot_def reg_ok_def split: if_splits)
  next
    case (RUnlink v c)
    then have "removing (rs ! i) = Some (v, c)" by simp
    with assms(3) ok table_inv_drop_slot [OF assms(1,2) this] quiet RUnlink show ?thesis
      by (auto simp: drop_slot_def reg_ok_def split: if_splits)
  qed (use assms(3) ok quiet in \<open>auto simp: reg_ok_def Let_def split: if_splits\<close>)
qed


section \<open>The watermark invariant\<close>

text \<open>
  What a scan towards a bound owes to the registered pairs: those below the bound lie behind the
  cursor, or at the entry whose cell it is about to load.
\<close>

definition pairs :: "reg_pc list \<Rightarrow> (u64 \<times> nat) set" where
  "pairs rs = {(v, c). RHeld v c \<in> set rs}"

definition stable_pairs :: "reg_pc list \<Rightarrow> (u64 \<times> nat) set" where
  "stable_pairs rs = {(v, c). RHeld v c \<in> set rs \<or> RCheckFloor v c True \<in> set rs}"

definition behind :: "u64 \<Rightarrow> u64 option \<Rightarrow> (u64 \<times> nat) set \<Rightarrow> bool" where
  "behind b cursor R \<longleftrightarrow> (\<forall>(v, c)\<in>R. v < b \<longrightarrow> ahead cursor v)"

definition at_entry :: "u64 \<Rightarrow> u64 \<Rightarrow> nat \<Rightarrow> (u64 \<times> nat) set \<Rightarrow> bool" where
  "at_entry b k c' R \<longleftrightarrow> (\<forall>(v, c)\<in>R. v < b \<longrightarrow> k \<le> v \<and> (v = k \<longrightarrow> c = c'))"

definition below :: "u64 \<Rightarrow> u64 \<Rightarrow> (u64 \<times> nat) set \<Rightarrow> bool" where
  "below b ts R \<longleftrightarrow> (\<forall>(v, c)\<in>R. b \<le> v \<or> ts \<le> v)"

definition backed :: "shared \<Rightarrow> (u64 \<times> nat) set \<Rightarrow> bool" where
  "backed s R \<longleftrightarrow> (\<forall>(v, c)\<in>R. map_of (slots (tbl s)) v = Some c \<and> active s c)"

lemma next_slot_least:
  assumes "om_wf m" "map_of m v = Some c" "ahead cursor v"
  obtains k c' where "next_slot cursor m = Some (k, c')" "k \<le> v" "v = k \<Longrightarrow> c = c'"
proof -
  have m: "(v, c) \<in> set m" using assms(1,2) by (simp add: om_wf_map_of_iff)
  obtain e where e: "next_slot cursor m = Some e"
    using m assms(3) by (cases "next_slot cursor m") (fastforce simp: next_slot_def find_None_iff)+
  then obtain i where i: "i < length m" "e = m ! i" "\<And>j. j < i \<Longrightarrow> \<not> ahead cursor (fst (m ! j))"
    by (auto simp: next_slot_def find_Some_iff)
  from m obtain j where j: "j < length m" "m ! j = (v, c)" by (auto simp: in_set_conv_nth)
  have "\<not> j < i" using i(3) [of j] j assms(3) by auto
  then have "fst (m ! i) \<le> fst (m ! j)"
    using assms(1) j(1) by (cases "i = j") (auto simp: om_wf_def sorted_wrt_iff_nth_less less_imp_le)
  then have "fst e \<le> v" using i(2) j(2) by simp
  moreover have "map_of m (fst e) = Some (snd e)" using i(1,2) assms(1) by (simp add: om_wf_map_of_iff)
  then have "c = snd e" if "v = fst e" using assms(2) that by simp
  ultimately show ?thesis
    using that [of "fst e" "snd e"] e by simp
qed

lemma scan_next:
  assumes "backed s R" "om_wf (slots (tbl s))" "behind b cursor R"
  shows "next_slot cursor (slots (tbl s)) = Some (k, c) \<Longrightarrow> at_entry b k c R"
    and "next_slot cursor (slots (tbl s)) = None \<Longrightarrow> below b ts R"
proof -
  have ex: "\<exists>k c'. next_slot cursor (slots (tbl s)) = Some (k, c') \<and> k \<le> v \<and> (v = k \<longrightarrow> c = c')"
    if "(v, c) \<in> R" "v < b" for v c
  proof -
    have "map_of (slots (tbl s)) v = Some c" "ahead cursor v" using assms(1,3) that by (auto simp: backed_def behind_def)
    from next_slot_least [OF assms(2) this] show ?thesis by metis
  qed
  show "next_slot cursor (slots (tbl s)) = Some (k, c) \<Longrightarrow> at_entry b k c R"
    using ex by (fastforce simp: at_entry_def)
  show "next_slot cursor (slots (tbl s)) = None \<Longrightarrow> below b ts R"
    using ex by (fastforce simp: below_def not_le)
qed

lemma scan_cell:
  assumes "backed s R" "at_entry b k c R"
  shows "active s c \<Longrightarrow> below b k R" and "\<not> active s c \<Longrightarrow> behind b (Some k) R"
proof -
  show "active s c \<Longrightarrow> below b k R" using assms(2) by (force simp: at_entry_def below_def)
  assume a: "\<not> active s c"
  have "k < v" if v: "(v, c') \<in> R" "v < b" for v c'
  proof -
    from assms(2) v have "k \<le> v" "v = k \<longrightarrow> c' = c" by (auto simp: at_entry_def)
    moreover from assms(1) v(1) have "active s c'" by (auto simp: backed_def)
    ultimately show ?thesis using a by (cases "v = k") auto
  qed
  then show "behind b (Some k) R" by (auto simp: behind_def)
qed


lemma backed_pairs:
  assumes "table_inv (tbl s) rs"
  shows "backed s (pairs rs)" "backed s (stable_pairs rs)"
proof -
  have "map_of (slots (tbl s)) v = Some c \<and> active s c" if "r \<in> set rs" "held r = Some (v, c)" for r v c
    using table_invD(5) [OF assms that] count_word(2,4) [OF table_invD(4) [OF assms]] by (auto simp: active_def)
  then show "backed s (pairs rs)" "backed s (stable_pairs rs)"
    by (fastforce simp: backed_def pairs_def stable_pairs_def)+
qed

fun gc_ok :: "shared \<Rightarrow> (u64 \<times> nat) set \<Rightarrow> gc_pc \<Rightarrow> bool" where
  "gc_ok s R (VScan2 now p cursor) = (the (floor_cell s) \<ge> p \<and> behind p cursor R)"
| "gc_ok s R (VCell2 now p k c) = (the (floor_cell s) \<ge> p \<and> at_entry p k c R)"
| "gc_ok s R (VDone ts) = (the (floor_cell s) \<ge> ts \<and> below ts ts R)"
| "gc_ok s R _ = True"

fun cleanup_ok :: "shared \<Rightarrow> (u64 \<times> nat) set \<Rightarrow> cleanup_pc \<Rightarrow> bool" where
  "cleanup_ok s R (QScan fb cursor) = (fb \<le> atomic s \<and> behind fb cursor R)"
| "cleanup_ok s R (QCell fb k c) = (fb \<le> atomic s \<and> at_entry fb k c R)"
| "cleanup_ok s R (QDone fb oldest) = (fb \<le> atomic s \<and> below fb oldest R)"
| "cleanup_ok s R QIdle = True"

definition minv :: "machine \<Rightarrow> bool" where
  "minv m \<longleftrightarrow> table_inv (tbl (mem m)) (regs m)
     \<and> (gcs m \<noteq> [] \<longrightarrow> floor_cell (mem m) \<noteq> None)
     \<and> (\<forall>pc\<in>set (gcs m). gc_ok (mem m) (pairs (regs m)) pc)
     \<and> (\<forall>pc\<in>set (cleanups m). cleanup_ok (mem m) (stable_pairs (regs m)) pc)"

lemmas scan_defs = behind_def at_entry_def below_def

lemma below_min: "below b k R \<Longrightarrow> below (min b k) (min b k) R"
  by (fastforce simp: below_def min_le_iff_disj)

lemma gc_next_ok:
  assumes "table_inv (tbl s) rs" "floor_cell s \<noteq> None" "gc_ok s (pairs rs) pc" "gc_next now s pc = (pc', s')"
  shows "gc_ok s' (pairs rs) pc'" "tbl s' = tbl s" "atomic s' = atomic s" "floor_cell s' \<noteq> None"
    "the (floor_cell s) \<le> the (floor_cell s')"
proof -
  note b = backed_pairs(1) [OF assms(1)]
  have wf: "om_wf (slots (tbl s))" using table_invD(1) [OF assms(1)] by (simp add: slots_ok_def)
  show "gc_ok s' (pairs rs) pc'"
  proof (cases pc)
    case (VScan2 n p cursor)
    with assms(3,4) scan_next(1) [OF b wf, of p cursor] scan_next(2) [OF b wf, of p cursor n] below_min show ?thesis
      by (auto split: option.splits simp: min.coboundedI1)
  next
    case (VCell2 n p k c)
    with assms(3,4) scan_cell [OF b, of p k c] below_min show ?thesis by (auto split: if_splits simp: min.coboundedI1)
  qed (use assms(2,4) in \<open>auto simp: behind_def split: option.splits if_splits\<close>)
  show "tbl s' = tbl s" "atomic s' = atomic s" "floor_cell s' \<noteq> None" "the (floor_cell s) \<le> the (floor_cell s')"
    using assms(2,4) by (cases pc; auto split: option.splits if_splits)+
qed

lemma cleanup_next_ok:
  assumes "table_inv (tbl s) rs" "cleanup_ok s (stable_pairs rs) pc" "cleanup_next s pc = (pc', s')"
  shows "cleanup_ok s' (stable_pairs rs) pc'" "s' = s"
proof -
  note b = backed_pairs(2) [OF assms(1)]
  have wf: "om_wf (slots (tbl s))" using table_invD(1) [OF assms(1)] by (simp add: slots_ok_def)
  show "cleanup_ok s' (stable_pairs rs) pc'"
  proof (cases pc)
    case (QScan fb cursor)
    with assms(2,3) scan_next(1) [OF b wf, of fb cursor] scan_next(2) [OF b wf, of fb cursor fb] show ?thesis by (auto split: option.splits)
  next
    case (QCell fb k c)
    with assms(2,3) scan_cell [OF b, of fb k c] show ?thesis by (auto split: if_splits)
  qed (use assms(3) in \<open>auto simp: behind_def\<close>)
  show "s' = s" using assms(3) by (cases pc) (auto split: option.splits if_splits)
qed

text \<open>A registering thread adds a pair only at or above the floor, and a stable pair only at the
  current number.\<close>

lemma reg_next_pairs:
  assumes "i < length rs" "reg_next weak s (rs ! i) = (r, s')"
  shows "pairs (rs[i := r]) \<subseteq> pairs rs \<union> {(v, c). floor_cell s \<noteq> None \<longrightarrow> the (floor_cell s) \<le> v}"
    "stable_pairs (rs[i := r]) \<subseteq> stable_pairs rs \<union> {(v, c). atomic s \<le> v}"
    "atomic s' = atomic s" "floor_cell s' = floor_cell s"
proof -
  have sub: "x \<in> set rs \<or> x = r" if "x \<in> set (rs[i := r])" for x
    using that set_update_subset_insert [of rs i r] by auto
  have held: "(floor_cell s \<noteq> None \<longrightarrow> the (floor_cell s) \<le> v) \<and> rs ! i = RCheckFloor v c True"
    if "r = RHeld v c" for v c
    using assms(2) that by (cases "rs ! i"; auto simp: Let_def split: if_splits prod.splits)
  have stable: "atomic s \<le> v" if "r = RCheckFloor v c True" for v c
    using assms(2) that by (cases "rs ! i"; auto simp: Let_def split: if_splits prod.splits)
  show "pairs (rs[i := r]) \<subseteq> pairs rs \<union> {(v, c). floor_cell s \<noteq> None \<longrightarrow> the (floor_cell s) \<le> v}"
    unfolding pairs_def using sub held by blast
  have "RCheckFloor v c True \<in> set rs" if "r = RHeld v c" for v c
    using held [OF that] assms(1) by (metis nth_mem)
  then show "stable_pairs (rs[i := r]) \<subseteq> stable_pairs rs \<union> {(v, c). atomic s \<le> v}"
    unfolding stable_pairs_def using sub stable by blast
  show "atomic s' = atomic s" "floor_cell s' = floor_cell s"
    using assms(2) by (cases "rs ! i"; auto simp: Let_def set_cell_def drop_slot_def split: if_splits prod.splits)+
qed

lemma gc_ok_grow:
  assumes "gc_ok s R pc" "R' \<subseteq> R \<union> {(v, c). the (floor_cell s) \<le> v}" "the (floor_cell s) \<le> the (floor_cell s')"
  shows "gc_ok s' R' pc"
  using assms by (cases pc) (fastforce simp: scan_defs)+

lemma cleanup_ok_grow:
  assumes "cleanup_ok s R pc" "R' \<subseteq> R \<union> {(v, c). atomic s \<le> v}" "atomic s \<le> atomic s'"
  shows "cleanup_ok s' R' pc"
  using assms by (cases pc) (fastforce simp: scan_defs)+


lemma set_update_ok: "i < length xs \<Longrightarrow> \<forall>x\<in>set xs. P x \<Longrightarrow> P y \<Longrightarrow> \<forall>x\<in>set (xs[i := y]). P x"
  using set_update_subset_insert [of xs i y] by auto

lemma mstep_minv:
  assumes "mstep m m'" "minv m"
  shows "minv m'"
  using assms
proof (induction rule: mstep.induct)
  case (mstep_reg i m weak pc s')
  note inv = mstep_reg.prems [unfolded minv_def] and p = reg_next_pairs [OF mstep_reg.hyps]
  have "gc_ok s' (pairs ((regs m)[i := pc])) g" if g: "g \<in> set (gcs m)" for g
  proof (rule gc_ok_grow)
    show "gc_ok (mem m) (pairs (regs m)) g" using inv g by blast
    have "floor_cell (mem m) \<noteq> None" using inv g by auto
    then show "pairs ((regs m)[i := pc]) \<subseteq> pairs (regs m) \<union> {(v, c). the (floor_cell (mem m)) \<le> v}" using p(1) by blast
  qed (simp add: p)
  moreover have "cleanup_ok s' (stable_pairs ((regs m)[i := pc])) q" if "q \<in> set (cleanups m)" for q
    by (rule cleanup_ok_grow [OF _ p(2)]) (use inv that p in auto)
  ultimately show ?case
    using inv p reg_next_table_inv [OF _ mstep_reg.hyps] by (simp add: minv_def)
next
  case (mstep_gc i m now pc s')
  note inv = mstep_gc.prems [unfolded minv_def]
  have g: "gcs m ! i \<in> set (gcs m)" using mstep_gc.hyps(1) by simp
  then have "floor_cell (mem m) \<noteq> None" "gc_ok (mem m) (pairs (regs m)) (gcs m ! i)" using inv by auto
  from gc_next_ok [OF _ this mstep_gc.hyps(2)] inv
  have n: "gc_ok s' (pairs (regs m)) pc" "tbl s' = tbl (mem m)" "atomic s' = atomic (mem m)" "floor_cell s' \<noteq> None"
    "the (floor_cell (mem m)) \<le> the (floor_cell s')" by blast+
  have "gc_ok s' (pairs (regs m)) x" if "x \<in> set (gcs m)" for x
    by (rule gc_ok_grow [OF _ _ n(5)]) (use inv that in auto)
  moreover have "cleanup_ok s' (stable_pairs (regs m)) q" if "q \<in> set (cleanups m)" for q
    by (rule cleanup_ok_grow [of "mem m"]) (use inv that n in auto)
  ultimately show ?case
    using inv n set_update_ok [OF mstep_gc.hyps(1), of "gc_ok s' (pairs (regs m))" pc] by (simp add: minv_def)
next
  case (mstep_cleanup i m pc s')
  note inv = mstep_cleanup.prems [unfolded minv_def]
  have "cleanup_ok (mem m) (stable_pairs (regs m)) (cleanups m ! i)" using inv mstep_cleanup.hyps(1) by simp
  from cleanup_next_ok [OF _ this mstep_cleanup.hyps(2)] inv
  have n: "cleanup_ok s' (stable_pairs (regs m)) pc" "s' = mem m" by blast+
  then show ?case
    using inv set_update_ok [OF mstep_cleanup.hyps(1), of "cleanup_ok s' (stable_pairs (regs m))" pc] by (simp add: minv_def)
next
  case (mstep_advance m a)
  note inv = mstep_advance.prems [unfolded minv_def]
  have "gc_ok ((mem m)\<lparr>atomic := a\<rparr>) (pairs (regs m)) x" if "x \<in> set (gcs m)" for x
    by (rule gc_ok_grow [of "mem m" "pairs (regs m)"]) (use inv that in auto)
  moreover have "cleanup_ok ((mem m)\<lparr>atomic := a\<rparr>) (stable_pairs (regs m)) q" if "q \<in> set (cleanups m)" for q
    by (rule cleanup_ok_grow [of "mem m" "stable_pairs (regs m)"]) (use inv that mstep_advance.hyps in auto)
  ultimately show ?case using inv by (simp add: minv_def)
qed

lemma table_inv_initial: "n < 2 ^ 64 - 1 \<Longrightarrow> table_inv Counters_new (replicate n RIdle)"
  by (auto simp: table_inv_def slots_ok_def cells_ok_def Counters_new_def reg_ok_def)

lemma minv_initial:
  "n < 2 ^ 64 - 1 \<Longrightarrow> minv (version_machine n g a)" "n < 2 ^ 64 - 1 \<Longrightarrow> minv (queue_machine n q a)"
  by (simp_all add: minv_def version_machine_def queue_machine_def table_inv_initial)

lemma mstep_reachable_minv: "mstep\<^sup>*\<^sup>* m m' \<Longrightarrow> minv m \<Longrightarrow> minv m'"
  by (induction rule: rtranclp_induct) (auto intro: mstep_minv)


lemma registered_above_watermark:
  assumes "minv m" "RHeld v c \<in> set (regs m)"
  shows "VDone ts \<in> set (gcs m) \<Longrightarrow> ts \<le> v" "QDone fb oldest \<in> set (cleanups m) \<Longrightarrow> fb \<le> v \<or> oldest \<le> v"
  using assms by (fastforce simp: minv_def pairs_def stable_pairs_def below_def)+

section \<open>Schedules\<close>

text \<open>Concrete interleavings as lists of moves.\<close>

datatype move = MReg nat | MGc nat u64 | MCleanup nat | MAdvance u64

fun mmove :: "move \<Rightarrow> machine \<Rightarrow> machine option" where
  "mmove (MReg i) m =
     (if i < length (regs m)
      then case reg_next False (mem m) (regs m ! i) of (pc, s) \<Rightarrow> Some (m\<lparr>mem := s, regs := (regs m)[i := pc]\<rparr>)
      else None)"
| "mmove (MGc i clock_now) m =
     (if i < length (gcs m)
      then case gc_next clock_now (mem m) (gcs m ! i) of (pc, s) \<Rightarrow> Some (m\<lparr>mem := s, gcs := (gcs m)[i := pc]\<rparr>)
      else None)"
| "mmove (MCleanup i) m =
     (if i < length (cleanups m)
      then case cleanup_next (mem m) (cleanups m ! i) of (pc, s) \<Rightarrow> Some (m\<lparr>mem := s, cleanups := (cleanups m)[i := pc]\<rparr>)
      else None)"
| "mmove (MAdvance a) m = (if atomic (mem m) \<le> a then Some (m\<lparr>mem := (mem m)\<lparr>atomic := a\<rparr>\<rparr>) else None)"

fun mrun :: "move list \<Rightarrow> machine \<Rightarrow> machine option" where
  "mrun [] m = Some m"
| "mrun (x # xs) m = Option.bind (mmove x m) (mrun xs)"

lemma mmove_mstep: "mmove x m = Some m' \<Longrightarrow> mstep m m'"
  by (cases x) (auto intro: mstep.intros split: if_splits prod.splits)

lemma mrun_mstep: "mrun xs m = Some m' \<Longrightarrow> mstep\<^sup>*\<^sup>* m m'"
proof (induction xs arbitrary: m)
  case (Cons x xs)
  then obtain m1 where "mmove x m = Some m1" "mrun xs m1 = Some m'" by (auto simp: bind_eq_Some_conv)
  with Cons.IH mmove_mstep show ?case by (metis converse_rtranclp_into_rtranclp)
qed simp

section \<open>Undisturbed scans\<close>

lemma find_filter: "find P xs = (case filter P xs of [] \<Rightarrow> None | x # _ \<Rightarrow> Some x)"
  by (induction xs) auto

text \<open>The contract of a lazy scan over a table: look at the next entry, stop at the first active one.\<close>

locale lazy_scan =
  fixes step :: "'pc \<Rightarrow> 'pc" and scan :: "u64 option \<Rightarrow> 'pc" and cell :: "u64 \<Rightarrow> nat \<Rightarrow> 'pc" and found :: "u64 \<Rightarrow> 'pc"
    and m :: "(u64, nat) omap" and act :: "nat \<Rightarrow> bool" and fallback :: u64
  assumes step_scan: "step (scan cursor) = (case next_slot cursor m of Some (k, c) \<Rightarrow> cell k c | None \<Rightarrow> found fallback)"
    and step_cell: "step (cell k c) = (if act c then found k else scan (Some k))"
begin

lemma scan_from:
  "om_wf m \<Longrightarrow> filter (\<lambda>e. ahead cursor (fst e)) m = es \<Longrightarrow>
     \<exists>n. (step ^^ n) (scan cursor) = found (case find (\<lambda>e. act (snd e)) es of Some e \<Rightarrow> fst e | None \<Rightarrow> fallback)"
proof (induction es arbitrary: cursor)
  case Nil
  then have "next_slot cursor m = None" unfolding next_slot_def find_None_iff by (auto simp: filter_empty_conv)
  then have "(step ^^ 1) (scan cursor) = found fallback" by (simp add: step_scan)
  then show ?case by (metis find.simps(1) option.simps(4))
next
  case (Cons e es)
  obtain k c where e: "e = (k, c)" by fastforce
  have n: "next_slot cursor m = Some (k, c)"
    unfolding next_slot_def find_filter using Cons.prems(2) by (simp add: e)
  show ?case
  proof (cases "act c")
    case True
    then have "(step ^^ 2) (scan cursor) = found k" using n by (simp add: numeral_2_eq_2 step_scan step_cell)
    with True have "(step ^^ 2) (scan cursor)
        = found (case find (\<lambda>e. act (snd e)) (e # es) of Some e \<Rightarrow> fst e | None \<Rightarrow> fallback)" by (simp add: e)
    then show ?thesis by blast
  next
    case False
    have a: "ahead cursor k" using Cons.prems(2) by (metis e filter_eq_ConsD fst_conv)
    have "filter (\<lambda>x. k < fst x) m = filter (\<lambda>x. k < fst x) (filter (\<lambda>x. ahead cursor (fst x)) m)"
      using a by (cases cursor) (auto intro!: filter_cong)
    also have "\<dots> = es"
      using om_wf_filter [OF Cons.prems(1), of "\<lambda>x. ahead cursor (fst x)"] Cons.prems(2)
      by (auto simp: e om_wf_def filter_id_conv)
    finally have "filter (\<lambda>x. ahead (Some k) (fst x)) m = es" by simp
    from Cons.IH [OF Cons.prems(1) this] obtain n' where
      "(step ^^ n') (scan (Some k)) = found (case find (\<lambda>e. act (snd e)) es of Some e \<Rightarrow> fst e | None \<Rightarrow> fallback)" by blast
    with n False have "(step ^^ (n' + 2)) (scan cursor)
        = found (case find (\<lambda>e. act (snd e)) (e # es) of Some e \<Rightarrow> fst e | None \<Rightarrow> fallback)"
      by (simp add: funpow_swap1 step_scan step_cell e)
    then show ?thesis by blast
  qed
qed

lemma scan_alone:
  "om_wf m \<Longrightarrow> \<exists>n. (step ^^ n) (scan None) = found (case find (\<lambda>e. act (snd e)) m of Some e \<Rightarrow> fst e | None \<Rightarrow> fallback)"
  using scan_from [of None m] by simp

end

abbreviation gc_alone :: "gc_pc \<times> shared \<Rightarrow> gc_pc \<times> shared" where
  "gc_alone \<equiv> \<lambda>(pc, s). gc_next 0 s pc"

abbreviation cleanup_alone :: "cleanup_pc \<times> shared \<Rightarrow> cleanup_pc \<times> shared" where
  "cleanup_alone \<equiv> \<lambda>(pc, s). cleanup_next s pc"

interpretation queue_scan: lazy_scan cleanup_alone "\<lambda>cursor. (QScan fb cursor, s)" "\<lambda>k c. (QCell fb k c, s)"
    "\<lambda>x. (QDone fb x, s)" "slots (tbl s)" "active s" fb
  for s fb
  by unfold_locales (auto split: option.splits)

interpretation first_scan: lazy_scan gc_alone "\<lambda>cursor. (VScan1 now cursor, s)" "\<lambda>k c. (VCell1 now k c, s)"
    "\<lambda>x. (VOracle now x, s)" "slots (tbl s)" "active s" now
  for s now
  by unfold_locales (auto split: option.splits)

interpretation second_scan: lazy_scan gc_alone "\<lambda>cursor. (VScan2 now p cursor, s)" "\<lambda>k c. (VCell2 now p k c, s)"
    "\<lambda>x. (VDone (min p x), s)" "slots (tbl s)" "active s" now
  for s now p
  by unfold_locales (auto split: option.splits)

lemma earliest_active_scan:
  "earliest_active (tbl s) fb = (case find (\<lambda>e. active s (snd e)) (slots (tbl s)) of Some e \<Rightarrow> fst e | None \<Rightarrow> fb)"
  by (simp add: earliest_active_def active_def)

lemma funpow_trans: "(f ^^ i) x = y \<Longrightarrow> \<exists>j. (f ^^ j) y = z \<Longrightarrow> \<exists>n. (f ^^ n) x = z"
  by (metis funpow_add comp_apply)

lemma cleanup_alone_result:
  assumes "om_wf (slots (tbl s))"
  shows "\<exists>n. (cleanup_alone ^^ n) (QIdle, s) = (QDone (atomic s) (earliest_active (tbl s) (atomic s)), s)"
  by (rule funpow_trans [where i = 1]) (simp, use queue_scan.scan_alone [OF assms] in \<open>simp add: earliest_active_scan\<close>)

lemma gc_alone_result:
  assumes "om_wf (slots (tbl s))"
    and "p = min (min now (earliest_active (tbl s) now)) (atomic s)"
    and "s' = s\<lparr>floor_cell := map_option (\<lambda>fl. max fl p) (floor_cell s)\<rparr>"
  shows "\<exists>n. (gc_alone ^^ n) (VScan1 now None, s) = (VDone (min p (earliest_active (tbl s') now)), s')"
proof -
  obtain i where i: "(gc_alone ^^ i) (VScan1 now None, s) = (VOracle now (earliest_active (tbl s) now), s)"
    using first_scan.scan_alone [OF assms(1)] by (auto simp: earliest_active_scan)
  have "\<exists>n. (gc_alone ^^ n) (VScan2 now p None, s') = (VDone (min p (earliest_active (tbl s') now)), s')"
    unfolding earliest_active_scan by (rule second_scan.scan_alone) (simp add: assms(1,3))
  moreover have "(gc_alone ^^ 2) (VOracle now (earliest_active (tbl s) now), s) = (VScan2 now p None, s')"
    using assms(2,3) by (simp add: numeral_2_eq_2)
  ultimately show ?thesis using i by (metis funpow_trans)
qed

end
