(* ===== verification/Thread_Pool.thy ===== *)
theory Thread_Pool
  imports Prelude
begin

text \<open>
  Threads over shared memory.  A thread is its program counter with its local data; \<open>nxt\<close> gives its
  next atomic access, whose outcome may depend on a label (a reading of the clock, the key a client
  asks for).  A pool interleaves any number of threads.  An invariant of a pool is given by a condition
  on the memory, one on each thread and one on each pair of threads, and is kept when each access keeps
  it without disturbing the other threads.
\<close>

type_synonym ('s, 't) pool = "'s \<times> 't list"

abbreviation co_threads :: "'t list \<Rightarrow> nat \<Rightarrow> 't list" where
  "co_threads ts i \<equiv> take i ts @ drop (Suc i) ts"

inductive pool_step :: "('l \<Rightarrow> 's \<Rightarrow> 't \<Rightarrow> 't \<times> 's) \<Rightarrow> ('l \<Rightarrow> 's \<Rightarrow> 't \<Rightarrow> 't list \<Rightarrow> bool) \<Rightarrow>
    ('s, 't) pool \<Rightarrow> ('s, 't) pool \<Rightarrow> bool"
  for nxt :: "'l \<Rightarrow> 's \<Rightarrow> 't \<Rightarrow> 't \<times> 's" and ok :: "'l \<Rightarrow> 's \<Rightarrow> 't \<Rightarrow> 't list \<Rightarrow> bool" where
  move: "pool_step nxt ok (s, ts) (s', ts[i := t'])"
    if "i < length ts" "ok l s (ts ! i) (co_threads ts i)" "nxt l s (ts ! i) = (t', s')"

inductive_cases pool_stepE: "pool_step nxt ok p p'"

abbreviation pool_steps :: "('l \<Rightarrow> 's \<Rightarrow> 't \<Rightarrow> 't \<times> 's) \<Rightarrow> ('l \<Rightarrow> 's \<Rightarrow> 't \<Rightarrow> 't list \<Rightarrow> bool) \<Rightarrow>
    ('s, 't) pool \<Rightarrow> ('s, 't) pool \<Rightarrow> bool" where
  "pool_steps nxt ok \<equiv> (pool_step nxt ok)\<^sup>*\<^sup>*"

text \<open>A schedule names the thread that moves and the label of its access; a step that is not allowed, or
  of a thread that does not exist, gives \<open>None\<close>.\<close>

fun pool_run :: "('l \<Rightarrow> 's \<Rightarrow> 't \<Rightarrow> 't \<times> 's) \<Rightarrow> ('l \<Rightarrow> 's \<Rightarrow> 't \<Rightarrow> 't list \<Rightarrow> bool) \<Rightarrow>
    (nat \<times> 'l) list \<Rightarrow> ('s, 't) pool \<Rightarrow> ('s, 't) pool option" where
  "pool_run nxt ok [] p = Some p"
| "pool_run nxt ok ((i, l) # sched) (s, ts) =
     (if i < length ts \<and> ok l s (ts ! i) (co_threads ts i)
      then (case nxt l s (ts ! i) of (t', s') \<Rightarrow> pool_run nxt ok sched (s', ts[i := t']))
      else None)"

lemma pool_run_steps: "pool_run nxt ok sched p = Some p' \<Longrightarrow> pool_steps nxt ok p p'"
proof (induction nxt ok sched p rule: pool_run.induct)
  case (2 nxt ok i l sched s ts)
  obtain t' s' where n: "nxt l s (ts ! i) = (t', s')" by (cases "nxt l s (ts ! i)")
  with 2 have "pool_step nxt ok (s, ts) (s', ts[i := t'])" "pool_steps nxt ok (s', ts[i := t']) p'"
    by (auto split: if_splits intro: move)
  then show ?case by (rule converse_rtranclp_into_rtranclp)
qed simp

lemma pool_run_append:
  "pool_run nxt ok (xs @ ys) p = (case pool_run nxt ok xs p of None \<Rightarrow> None | Some q \<Rightarrow> pool_run nxt ok ys q)"
  by (induction nxt ok xs p rule: pool_run.induct) (auto split: prod.splits)

lemma pool_steps_length: "pool_steps nxt ok p p' \<Longrightarrow> length (snd p') = length (snd p)"
  by (induction rule: rtranclp_induct) (auto elim: pool_step.cases)

lemma pool_steps_weaken:
  assumes "pool_steps nxt ok p p'" and "\<And>l s t us. ok l s t us \<Longrightarrow> ok' l s t us"
  shows "pool_steps nxt ok' p p'"
  using assms(1)
  by (induction rule: rtranclp_induct)
    (auto elim!: pool_step.cases intro: pool_step.intros assms(2) rtranclp.rtrancl_into_rtrancl)

lemma others_nth:
  assumes "i < length ts" "j < length ts" "j \<noteq> i"
  shows "ts ! j \<in> set (co_threads ts i)"
proof (cases "j < i")
  case True
  then show ?thesis using assms by (auto simp: in_set_conv_nth intro!: exI [of _ j])
next
  case False
  then have "drop (Suc i) ts ! (j - Suc i) = ts ! j" "j - Suc i < length (drop (Suc i) ts)" using assms by auto
  then have "ts ! j \<in> set (drop (Suc i) ts)" by (metis nth_mem)
  then show ?thesis by simp
qed

locale pool_invariant =
  fixes nxt :: "'l \<Rightarrow> 's \<Rightarrow> 't \<Rightarrow> 't \<times> 's"
    and ok :: "'l \<Rightarrow> 's \<Rightarrow> 't \<Rightarrow> 't list \<Rightarrow> bool"
    and G :: "'s \<Rightarrow> bool"
    and T :: "'s \<Rightarrow> 't \<Rightarrow> bool"
    and P :: "'s \<Rightarrow> 't \<Rightarrow> 't \<Rightarrow> bool"
  assumes own: "G s \<Longrightarrow> T s t \<Longrightarrow> ok l s t us \<Longrightarrow> nxt l s t = (t', s') \<Longrightarrow> G s' \<and> T s' t'"
    and other: "G s \<Longrightarrow> T s t \<Longrightarrow> ok l s t us \<Longrightarrow> nxt l s t = (t', s') \<Longrightarrow> u \<in> set us \<Longrightarrow>
      T s u \<Longrightarrow> P s t u \<Longrightarrow> P s u t \<Longrightarrow> T s' u \<and> P s' t' u \<and> P s' u t'"
    and rest: "G s \<Longrightarrow> T s t \<Longrightarrow> ok l s t us \<Longrightarrow> nxt l s t = (t', s') \<Longrightarrow> u \<in> set us \<Longrightarrow> w \<in> set us \<Longrightarrow>
      T s u \<Longrightarrow> T s w \<Longrightarrow> P s t u \<Longrightarrow> P s t w \<Longrightarrow> P s u w \<Longrightarrow> P s' u w"
begin

definition pool_ok :: "('s, 't) pool \<Rightarrow> bool" where
  "pool_ok p \<longleftrightarrow> G (fst p) \<and> (\<forall>i<length (snd p). T (fst p) (snd p ! i))
     \<and> (\<forall>i<length (snd p). \<forall>j<length (snd p). i \<noteq> j \<longrightarrow> P (fst p) (snd p ! i) (snd p ! j))"

lemma pool_okD:
  assumes "pool_ok (s, ts)"
  shows "G s" "i < length ts \<Longrightarrow> T s (ts ! i)"
    "i < length ts \<Longrightarrow> j < length ts \<Longrightarrow> i \<noteq> j \<Longrightarrow> P s (ts ! i) (ts ! j)"
  using assms by (simp_all add: pool_ok_def)

lemma step_ok:
  assumes "pool_step nxt ok p p'" and "pool_ok p"
  shows "pool_ok p'"
  using assms(1)
proof (cases rule: pool_step.cases)
  case (move i ts l s t' s')
  have inv: "pool_ok (s, ts)" using assms(2) move by simp
  note D = pool_okD [OF inv]
  have own': "G s'" "T s' t'" using own [OF D(1) D(2) move(4,5)] move(3) by simp_all
  have oth: "T s' (ts ! j)" "P s' t' (ts ! j)" "P s' (ts ! j) t'" if "j < length ts" "j \<noteq> i" for j
    using other [OF D(1) D(2) move(4,5) others_nth [OF move(3) that] D(2) D(3) D(3)] move(3) that by simp_all
  have "P s' (ts ! j) (ts ! k)" if "j < length ts" "j \<noteq> i" "k < length ts" "k \<noteq> i" "j \<noteq> k" for j k
    using rest [OF D(1) D(2) move(4,5) others_nth [OF move(3) that(1,2)] others_nth [OF move(3) that(3,4)] D(2) D(2) D(3) D(3) D(3)]
      move(3) that by simp
  then show ?thesis
    unfolding pool_ok_def move(2) using own' oth move(3) by (simp add: nth_list_update)
qed

lemma steps_ok: "pool_steps nxt ok p p' \<Longrightarrow> pool_ok p \<Longrightarrow> pool_ok p'"
  by (induction rule: rtranclp_induct) (auto intro: step_ok)

end

end
