(* ===== verification/Publishing.thy ===== *)
theory Publishing
  imports Transaction Registration Thread_Pool
begin

text \<open>
  The first half of concurrent commits at the grain of single atomic accesses (\<open>TransactionInner::commit\<close>
  up to the end of the conflict scan, \<open>auto_commit\<close>): any number of committing threads and the
  clean-up of the commit queue, interleaved after every load, increment and map access.  Theory
  \<open>Transaction\<close> gives the same code when it runs undisturbed.
\<close>

section \<open>Shared memory and threads\<close>

record commit_shared =
  sh_queue_id :: u64
  sh_commit_id :: u64
  sh_commit_queue :: "(u64, Commit) omap"

text \<open>What a thread brings to its commit.\<close>

record job =
  jb_mode :: IsolationLevel
  jb_writeset :: writeset
  jb_readset :: "bytes set"
  jb_bloom :: BloomFilter

text \<open>Where a committing thread stands, named by the access it makes next.  The first number is the
  commit number its transaction started from; \<open>CBegin\<close> is the moment the registration settles on it.\<close>

datatype pub_pc =
    CBegin
  | CTakeId u64
  | CLoad u64 Commit
  | CInsert u64 Commit u64
  | CBump u64 Commit u64
  | CScan u64 Commit u64 "u64 option"
  | CRemove u64 Commit u64 Error
  | CFailed Error
  | CPublished u64 Commit u64

datatype pub_thread = Committer job pub_pc | QueueCleaner

definition range_next :: "u64 \<Rightarrow> u64 \<Rightarrow> u64 option \<Rightarrow> (u64, Commit) omap \<Rightarrow> (u64 \<times> Commit) option" where
  "range_next lo hi cursor queue = find (\<lambda>e. lo \<le> fst e \<and> fst e < hi \<and> ahead cursor (fst e)) queue"

fun commit_next :: "job \<Rightarrow> commit_shared \<Rightarrow> pub_pc \<Rightarrow> pub_pc \<times> commit_shared" where
  "commit_next j s CBegin = (CTakeId (sh_commit_id s), s)"
| "commit_next j s (CTakeId c) =
     (CLoad c (build_commit (sh_queue_id s + 1) (jb_writeset j)), s\<lparr>sh_queue_id := sh_queue_id s + 1\<rparr>)"
| "commit_next j s (CLoad c updates) = (CInsert c updates (sh_commit_id s + 1), s)"
| "commit_next j s (CInsert c updates ver) =
     (case om_get_or_insert ver updates (sh_commit_queue s) of
        (entry, queue) \<Rightarrow>
          (if cm_id updates = cm_id entry then CBump c updates ver else CLoad c updates,
           s\<lparr>sh_commit_queue := queue\<rparr>))"
| "commit_next j s (CBump c updates ver) =
     (if jb_mode j \<ge> SnapshotIsolation then CScan c updates ver None else CPublished c updates ver,
      s\<lparr>sh_commit_id := sh_commit_id s + 1\<rparr>)"
| "commit_next j s (CScan c entry ver cursor) =
     (case range_next (c + 1) ver cursor (sh_commit_queue s) of
        None \<Rightarrow> (CPublished c entry ver, s)
      | Some (k, tx) \<Rightarrow>
          (if \<not> is_disjoint_writeset_bloom tx entry then CRemove c entry ver KeyWriteConflict
           else if jb_mode j \<ge> SerializableSnapshotIsolation \<and> \<not> is_disjoint_readset_bloom tx (jb_readset j) (jb_bloom j)
           then CRemove c entry ver KeyReadConflict
           else CScan c entry ver (Some k), s))"
| "commit_next j s (CRemove c entry ver e) =
     (CFailed e, s\<lparr>sh_commit_queue := om_remove ver (sh_commit_queue s)\<rparr>)"
| "commit_next j s (CFailed e) = (CFailed e, s)"
| "commit_next j s (CPublished c entry ver) = (CPublished c entry ver, s)"

text \<open>The label is the key the clean-up removes next.\<close>

fun pub_next :: "u64 \<Rightarrow> commit_shared \<Rightarrow> pub_thread \<Rightarrow> pub_thread \<times> commit_shared" where
  "pub_next l s (Committer j pc) = (case commit_next j s pc of (pc', s') \<Rightarrow> (Committer j pc', s'))"
| "pub_next l s QueueCleaner = (QueueCleaner, s\<lparr>sh_commit_queue := om_remove l (sh_commit_queue s)\<rparr>)"

text \<open>The commit number a transaction is registered at, until its commit is decided.\<close>

fun registered_at :: "pub_thread \<Rightarrow> u64 option" where
  "registered_at (Committer j (CTakeId c)) = Some c"
| "registered_at (Committer j (CLoad c e)) = Some c"
| "registered_at (Committer j (CInsert c e v)) = Some c"
| "registered_at (Committer j (CBump c e v)) = Some c"
| "registered_at (Committer j (CScan c e v k)) = Some c"
| "registered_at (Committer j (CRemove c e v x)) = Some c"
| "registered_at _ = None"

text \<open>
  The runs considered.  Numbers are not exhausted, and the clean-up keeps its contract: it removes only
  below the current number and below what an open transaction is registered at.  A run is tidy when no
  thread puts its entry into a free slot that is no longer the next one.
\<close>

definition pub_ok :: "u64 \<Rightarrow> commit_shared \<Rightarrow> pub_thread \<Rightarrow> pub_thread list \<Rightarrow> bool" where
  "pub_ok l s t us \<longleftrightarrow> sh_commit_id s < u64_MAX \<and> sh_queue_id s < u64_MAX
     \<and> (t = QueueCleaner \<longrightarrow> l < sh_commit_id s
          \<and> list_all (\<lambda>u. case registered_at u of None \<Rightarrow> True | Some c \<Rightarrow> l < c) us)"

fun stale_insert :: "commit_shared \<Rightarrow> pub_thread \<Rightarrow> bool" where
  "stale_insert s (Committer j (CInsert c e ver)) \<longleftrightarrow>
     map_of (sh_commit_queue s) ver = None \<and> ver \<noteq> sh_commit_id s + 1"
| "stale_insert s _ \<longleftrightarrow> False"

definition pub_tidy :: "u64 \<Rightarrow> commit_shared \<Rightarrow> pub_thread \<Rightarrow> pub_thread list \<Rightarrow> bool" where
  "pub_tidy l s t us \<longleftrightarrow> pub_ok l s t us \<and> \<not> stale_insert s t"

section \<open>The invariant of tidy runs\<close>

text \<open>The slot a thread holds in the queue, and the entry it carries.\<close>

fun claim :: "pub_thread \<Rightarrow> (u64 \<times> Commit) option" where
  "claim (Committer j (CBump c e v)) = Some (v, e)"
| "claim (Committer j (CScan c e v k)) = Some (v, e)"
| "claim (Committer j (CRemove c e v x)) = Some (v, e)"
| "claim (Committer j (CPublished c e v)) = Some (v, e)"
| "claim _ = None"

fun carries :: "pub_thread \<Rightarrow> Commit option" where
  "carries (Committer j (CLoad c e)) = Some e"
| "carries (Committer j (CInsert c e v)) = Some e"
| "carries t = map_option snd (claim t)"

text \<open>What the scan of a thread has compared with: its snapshot, its slot, and the numbers passed.\<close>

fun passed :: "pub_thread \<Rightarrow> u64 \<Rightarrow> bool" where
  "passed (Committer j (CScan c e v k)) n \<longleftrightarrow> c < n \<and> n < v \<and> \<not> ahead k n"
| "passed (Committer j (CPublished c e v)) n \<longleftrightarrow> c < n \<and> n < v"
| "passed _ n \<longleftrightarrow> False"

definition job_wf :: "job \<Rightarrow> bool" where
  "job_wf j \<longleftrightarrow> om_wf (jb_writeset j) \<and> jb_writeset j \<noteq> [] \<and> readset_wf (jb_readset j) (jb_bloom j)"

text \<open>No common key: with the write set and, at the serializable level, with the read set.\<close>

definition compatible :: "job \<Rightarrow> Commit \<Rightarrow> bool" where
  "compatible j e \<longleftrightarrow> written e \<inter> fst ` set (jb_writeset j) = {}
     \<and> (jb_mode j = SerializableSnapshotIsolation \<longrightarrow> written e \<inter> jb_readset j = {})"

definition shared_ok :: "commit_shared \<Rightarrow> bool" where
  "shared_ok s \<longleftrightarrow> om_wf (sh_commit_queue s)
     \<and> (\<forall>(k, e)\<in>set (sh_commit_queue s). commit_wf e \<and> cm_id e \<le> sh_queue_id s)"

definition unlisted :: "commit_shared \<Rightarrow> Commit \<Rightarrow> bool" where
  "unlisted s e \<longleftrightarrow> cm_id e \<le> sh_queue_id s \<and> (\<forall>k x. map_of (sh_commit_queue s) k = Some x \<longrightarrow> cm_id x \<noteq> cm_id e)"

fun pc_ok :: "commit_shared \<Rightarrow> pub_pc \<Rightarrow> bool" where
  "pc_ok s (CTakeId c) \<longleftrightarrow> c \<le> sh_commit_id s"
| "pc_ok s (CLoad c e) \<longleftrightarrow> c \<le> sh_commit_id s \<and> unlisted s e"
| "pc_ok s (CInsert c e v) \<longleftrightarrow> c \<le> sh_commit_id s \<and> unlisted s e \<and> c < v"
| "pc_ok s (CBump c e v) \<longleftrightarrow> v = sh_commit_id s + 1 \<and> c < v \<and> map_of (sh_commit_queue s) v = Some e"
| "pc_ok s (CScan c e v k) \<longleftrightarrow> v \<le> sh_commit_id s \<and> c < v \<and> map_of (sh_commit_queue s) v = Some e"
| "pc_ok s (CRemove c e v x) \<longleftrightarrow> v \<le> sh_commit_id s \<and> c < v \<and> map_of (sh_commit_queue s) v = Some e"
| "pc_ok s (CPublished c e v) \<longleftrightarrow> v \<le> sh_commit_id s \<and> c < v"
| "pc_ok s _ \<longleftrightarrow> True"

fun thread_ok :: "commit_shared \<Rightarrow> pub_thread \<Rightarrow> bool" where
  "thread_ok s (Committer j pc) \<longleftrightarrow> job_wf j \<and> pc_ok s pc
     \<and> (\<forall>e. carries (Committer j pc) = Some e \<longrightarrow> cm_writeset e = jb_writeset j \<and> commit_wf e \<and> cm_id e \<le> sh_queue_id s)"
| "thread_ok s QueueCleaner \<longleftrightarrow> True"

fun job_of :: "pub_thread \<Rightarrow> job option" where
  "job_of (Committer j pc) = Some j"
| "job_of QueueCleaner = None"

definition pair_ok :: "commit_shared \<Rightarrow> pub_thread \<Rightarrow> pub_thread \<Rightarrow> bool" where
  "pair_ok s t u \<longleftrightarrow>
     (\<forall>e e'. carries t = Some e \<longrightarrow> carries u = Some e' \<longrightarrow> cm_id e \<noteq> cm_id e')
     \<and> (\<forall>v e v' e'. claim t = Some (v, e) \<longrightarrow> claim u = Some (v', e') \<longrightarrow> v \<noteq> v')
     \<and> (\<forall>c v e. registered_at t = Some c \<longrightarrow> claim u = Some (v, e) \<longrightarrow> c < v \<longrightarrow> map_of (sh_commit_queue s) v = Some e)
     \<and> (\<forall>j v e. job_of t = Some j \<longrightarrow> claim u = Some (v, e) \<longrightarrow> passed t v \<longrightarrow> compatible j e)"

lemma pair_okD:
  assumes "pair_ok s t u"
  shows "carries t = Some e \<Longrightarrow> carries u = Some e' \<Longrightarrow> cm_id e \<noteq> cm_id e'"
    "claim t = Some (v, e) \<Longrightarrow> claim u = Some (v', e') \<Longrightarrow> v \<noteq> v'"
    "registered_at t = Some c \<Longrightarrow> claim u = Some (v, e) \<Longrightarrow> c < v \<Longrightarrow> map_of (sh_commit_queue s) v = Some e"
    "job_of t = Some j \<Longrightarrow> claim u = Some (v, e) \<Longrightarrow> passed t v \<Longrightarrow> compatible j e"
  using assms unfolding pair_ok_def by blast+

lemma pair_okI:
  assumes "\<And>e e'. carries t = Some e \<Longrightarrow> carries u = Some e' \<Longrightarrow> cm_id e \<noteq> cm_id e'"
    and "\<And>v e v' e'. claim t = Some (v, e) \<Longrightarrow> claim u = Some (v', e') \<Longrightarrow> v \<noteq> v'"
    and "\<And>c v e. registered_at t = Some c \<Longrightarrow> claim u = Some (v, e) \<Longrightarrow> c < v \<Longrightarrow> map_of (sh_commit_queue s) v = Some e"
    and "\<And>j v e. job_of t = Some j \<Longrightarrow> claim u = Some (v, e) \<Longrightarrow> passed t v \<Longrightarrow> compatible j e"
  shows "pair_ok s t u"
  using assms unfolding pair_ok_def by blast

lemma range_next_None:
  "range_next lo hi cur q = None \<Longrightarrow> map_of q k = Some x \<Longrightarrow> lo \<le> k \<Longrightarrow> k < hi \<Longrightarrow> \<not> ahead cur k"
  by (auto simp: range_next_def find_None_iff dest: map_of_SomeD)

lemma range_next_Some:
  assumes "range_next lo hi cur q = Some (k, x)" "om_wf q"
  shows "map_of q k = Some x" "lo \<le> k" "k < hi" "ahead cur k"
    "map_of q k' = Some x' \<Longrightarrow> lo \<le> k' \<Longrightarrow> k' < hi \<Longrightarrow> ahead cur k' \<Longrightarrow> k \<le> k'"
proof -
  let ?P = "\<lambda>e. lo \<le> fst e \<and> fst e < hi \<and> ahead cur (fst e)"
  obtain i where i: "i < length q" "?P (q ! i)" "(k, x) = q ! i" "\<forall>j<i. \<not> ?P (q ! j)"
    using assms(1) by (auto simp: range_next_def find_Some_iff)
  then show "lo \<le> k" "k < hi" "ahead cur k" by (metis fst_conv)+
  show "map_of q k = Some x" using i assms(2) by (metis nth_mem om_wf_map_of_iff)
  assume "map_of q k' = Some x'" "lo \<le> k'" "k' < hi" "ahead cur k'"
  then obtain j where j: "j < length q" "q ! j = (k', x')" "?P (q ! j)"
    by (metis fst_conv in_set_conv_nth map_of_SomeD)
  then have "i \<le> j" using i(4) by (meson not_le)
  then have "i = j \<or> fst (q ! i) < fst (q ! j)"
    using j(1) assms(2) by (cases "i = j") (simp_all add: om_wf_def sorted_wrt_iff_nth_less)
  then show "k \<le> k'" using i(3) j(2) by (metis Pair_inject fst_conv less_imp_le order_refl)
qed

text \<open>The scan of one entry decides compatibility.\<close>

lemma scan_entry:
  assumes "job_wf j" "commit_wf tx" "commit_wf e" "cm_writeset e = jb_writeset j"
  shows "is_disjoint_writeset_bloom tx e \<and>
     (jb_mode j = SerializableSnapshotIsolation \<longrightarrow> is_disjoint_readset_bloom tx (jb_readset j) (jb_bloom j)) \<longleftrightarrow> compatible j tx"
  using assms by (simp add: compatible_def job_wf_def writeset_bloom_iff readset_bloom_iff)

lemma shared_okD: "shared_ok s \<Longrightarrow> om_wf (sh_commit_queue s)"
  "shared_ok s \<Longrightarrow> map_of (sh_commit_queue s) k = Some e \<Longrightarrow> commit_wf e \<and> cm_id e \<le> sh_queue_id s"
  by (auto simp: shared_ok_def dest!: map_of_SomeD)

lemma shared_ok_insert: "shared_ok s \<Longrightarrow> commit_wf e \<Longrightarrow> cm_id e \<le> sh_queue_id s \<Longrightarrow>
    shared_ok (s\<lparr>sh_commit_queue := om_insert k e (sh_commit_queue s)\<rparr>)"
  by (auto simp: shared_ok_def set_om_insert intro: wf_intros)

lemma shared_ok_remove: "shared_ok s \<Longrightarrow> shared_ok (s\<lparr>sh_commit_queue := om_remove k (sh_commit_queue s)\<rparr>)"
  by (auto simp: shared_ok_def set_om_remove intro: wf_intros)

lemma own_tidy:
  assumes "shared_ok s" "thread_ok s t" "pub_tidy l s t us" "pub_next l s t = (t', s')"
  shows "shared_ok s' \<and> thread_ok s' t'"
proof (cases t)
  case QueueCleaner
  then show ?thesis using assms shared_ok_remove by auto
next
  case (Committer j pc)
  have b: "sh_commit_id s < u64_MAX" "sh_queue_id s < u64_MAX" "\<not> stale_insert s t"
    using assms(3) by (auto simp: pub_tidy_def pub_ok_def)
  note lt = u64_less_Suc [OF b(1)] u64_less_Suc [OF b(2)] u64_less_Suc_iff [OF b(1)]
  show ?thesis
  proof (cases pc)
    case (CTakeId c)
    have "shared_ok (s\<lparr>sh_queue_id := sh_queue_id s + 1\<rparr>)"
      using assms(1) lt(2) by (fastforce simp: shared_ok_def)
    moreover have "unlisted (s\<lparr>sh_queue_id := sh_queue_id s + 1\<rparr>) (build_commit (sh_queue_id s + 1) (jb_writeset j))"
      using shared_okD(2) [OF assms(1)] lt(2) by (fastforce simp: unlisted_def build_commit_def)
    ultimately show ?thesis
      using assms Committer CTakeId by (auto simp: job_wf_def build_commit_wf) (simp_all add: build_commit_def)
  next
    case (CInsert c e v)
    have u: "unlisted s e" using assms(2) Committer CInsert by simp
    have v: "map_of (sh_commit_queue s) v = None \<Longrightarrow> v = sh_commit_id s + 1" using b(3) Committer CInsert by simp
    show ?thesis
    proof (cases "map_of (sh_commit_queue s) v")
      case None
      then show ?thesis
        using assms Committer CInsert v shared_ok_insert [OF assms(1)]
        by (auto simp: om_get_or_insert_def om_simps)
    next
      case (Some x)
      then have "cm_id e \<noteq> cm_id x" using u by (metis unlisted_def)
      with Some show ?thesis using assms Committer CInsert by (auto simp: om_get_or_insert_def)
    qed
  next
    case (CScan c e v k)
    then show ?thesis
      using assms Committer by (auto split: option.splits if_splits)
  next
    case (CRemove c e v x)
    then show ?thesis using assms Committer shared_ok_remove by auto
  qed (use assms Committer lt in \<open>auto simp: shared_ok_def less_imp_le\<close>)
qed

lemma thread_claims:
  assumes "thread_ok s u"
  shows "claim u = Some (v, e) \<Longrightarrow> carries u = Some e \<and> commit_wf e \<and> (v \<le> sh_commit_id s \<or> map_of (sh_commit_queue s) v = Some e)"
    "claim u = Some (v, e) \<Longrightarrow> registered_at u = Some c \<Longrightarrow> c < v \<and> map_of (sh_commit_queue s) v = Some e"
    "passed u n \<Longrightarrow> n < sh_commit_id s" "registered_at u = Some c \<Longrightarrow> claim u = None \<Longrightarrow> c \<le> sh_commit_id s"
    "carries u = Some e \<Longrightarrow> cm_id e \<le> sh_queue_id s"
  using assms by (cases u rule: registered_at.cases; fastforce)+

text \<open>An access of another thread leaves a thread as it was, when the numbers only grow, no other thread
  is between its insertion and its increment, and the entries this thread relies on stay.\<close>

lemma thread_ok_frame:
  assumes "thread_ok s u" "sh_queue_id s \<le> sh_queue_id s'" "sh_commit_id s \<le> sh_commit_id s'"
    and bump: "\<And>v e. claim u = Some (v, e) \<Longrightarrow> v = sh_commit_id s + 1 \<Longrightarrow> sh_commit_id s' = sh_commit_id s"
    and keep: "\<And>v e. claim u = Some (v, e) \<Longrightarrow> registered_at u \<noteq> None \<Longrightarrow> map_of (sh_commit_queue s') v = Some e"
    and new: "\<And>e k x. carries u = Some e \<Longrightarrow> unlisted s e \<Longrightarrow> map_of (sh_commit_queue s') k = Some x \<Longrightarrow> cm_id x \<noteq> cm_id e"
  shows "thread_ok s' u"
proof (cases u)
  case (Committer j pc)
  have o: "x \<le> sh_commit_id s \<Longrightarrow> x \<le> sh_commit_id s'" "x \<le> sh_queue_id s \<Longrightarrow> x \<le> sh_queue_id s'" for x
    using assms(2,3) by simp_all
  have un: "carries u = Some e \<Longrightarrow> unlisted s e \<Longrightarrow> unlisted s' e" for e
    using new o by (auto simp: unlisted_def)
  have "job_wf j" "pc_ok s pc" 
    and e: "\<And>e. carries u = Some e \<Longrightarrow> cm_writeset e = jb_writeset j \<and> commit_wf e \<and> cm_id e \<le> sh_queue_id s"
    using assms(1) Committer by simp_all
  moreover have "pc_ok s' pc"
    using \<open>pc_ok s pc\<close> o un bump keep Committer by (cases pc) simp_all
  ultimately show ?thesis using Committer o(2) by simp
qed simp


text \<open>What an access does to the memory, as the other threads see it.\<close>

lemma access_effect:
  assumes "shared_ok s" "thread_ok s t" "pub_tidy l s t us" "pub_next l s t = (t', s')"
  shows "sh_queue_id s \<le> sh_queue_id s'" "sh_commit_id s \<le> sh_commit_id s'"
    "sh_commit_id s' \<noteq> sh_commit_id s \<Longrightarrow> \<exists>e. claim t = Some (sh_commit_id s + 1, e)"
    "map_of (sh_commit_queue s) v = Some e \<Longrightarrow> map_of (sh_commit_queue s') v = None \<Longrightarrow>
       claim t = Some (v, e) \<and> claim t' = None \<or> t = QueueCleaner \<and> (\<forall>u\<in>set us. \<forall>c. registered_at u = Some c \<longrightarrow> v < c)"
    "map_of (sh_commit_queue s) v = Some e \<Longrightarrow> map_of (sh_commit_queue s') v = Some e' \<Longrightarrow> e' = e"
    "map_of (sh_commit_queue s) v = None \<Longrightarrow> map_of (sh_commit_queue s') v = Some e \<Longrightarrow> carries t = Some e"
proof -
  have b: "sh_commit_id s < u64_MAX" "sh_queue_id s < u64_MAX" "\<not> stale_insert s t"
    using assms(3) by (auto simp: pub_tidy_def pub_ok_def)
  note lt = u64_less_Suc [OF b(1)] u64_less_Suc [OF b(2)]
  have *: "sh_queue_id s \<le> sh_queue_id s' \<and> sh_commit_id s \<le> sh_commit_id s' 
    \<and> (sh_commit_id s' \<noteq> sh_commit_id s \<longrightarrow> (\<exists>e. claim t = Some (sh_commit_id s + 1, e)))
    \<and> (map_of (sh_commit_queue s) v = Some e \<longrightarrow> map_of (sh_commit_queue s') v = None \<longrightarrow>
       claim t = Some (v, e) \<and> claim t' = None \<or> t = QueueCleaner \<and> (\<forall>u\<in>set us. \<forall>c. registered_at u = Some c \<longrightarrow> v < c))
    \<and> (map_of (sh_commit_queue s) v = Some e \<longrightarrow> map_of (sh_commit_queue s') v = Some e' \<longrightarrow> e' = e)
    \<and> (map_of (sh_commit_queue s) v = None \<longrightarrow> map_of (sh_commit_queue s') v = Some e \<longrightarrow> carries t = Some e)" for v e e'
  proof (cases t)
    case QueueCleaner
    then show ?thesis using assms by (auto simp: om_simps pub_tidy_def pub_ok_def list_all_iff split: option.splits if_splits)
  next
    case (Committer j pc)
    then show ?thesis using assms(2,4) lt
      by (cases pc) (auto simp: om_simps om_get_or_insert_def less_imp_le split: option.splits if_splits)
  qed
  show "sh_queue_id s \<le> sh_queue_id s'" "sh_commit_id s \<le> sh_commit_id s'"
    "sh_commit_id s' \<noteq> sh_commit_id s \<Longrightarrow> \<exists>e. claim t = Some (sh_commit_id s + 1, e)"
    "map_of (sh_commit_queue s) v = Some e \<Longrightarrow> map_of (sh_commit_queue s') v = None \<Longrightarrow>
       claim t = Some (v, e) \<and> claim t' = None \<or> t = QueueCleaner \<and> (\<forall>u\<in>set us. \<forall>c. registered_at u = Some c \<longrightarrow> v < c)"
    "map_of (sh_commit_queue s) v = Some e \<Longrightarrow> map_of (sh_commit_queue s') v = Some e' \<Longrightarrow> e' = e"
    "map_of (sh_commit_queue s) v = None \<Longrightarrow> map_of (sh_commit_queue s') v = Some e \<Longrightarrow> carries t = Some e"
    using * by blast+
qed

text \<open>How a thread moves: the entry it carries stays or is new, a slot is claimed at the next number, a
  snapshot is the current number.\<close>

lemma access_own:
  assumes "shared_ok s" "thread_ok s t" "pub_tidy l s t us" "pub_next l s t = (t', s')"
  shows "job_of t' = job_of t"
    "carries t' = Some e \<Longrightarrow> carries t = Some e \<or> sh_queue_id s < cm_id e"
    "claim t' = Some (v, e) \<Longrightarrow> claim t = Some (v, e) \<or>
       v = sh_commit_id s + 1 \<and> map_of (sh_commit_queue s) v = None \<and> map_of (sh_commit_queue s') v = Some e"
    "registered_at t' = Some c \<Longrightarrow> registered_at t = Some c \<or> c = sh_commit_id s \<and> s' = s"
    "passed t' n \<Longrightarrow> passed t n \<or> (\<exists>c. registered_at t = Some c \<and> c < n)"
proof -
  have b: "sh_queue_id s < u64_MAX" "\<not> stale_insert s t" using assms(3) by (auto simp: pub_tidy_def pub_ok_def)
  note lt = u64_less_Suc [OF b(1)]
  have *: "job_of t' = job_of t \<and> (carries t' = Some e \<longrightarrow> carries t = Some e \<or> sh_queue_id s < cm_id e)
    \<and> (claim t' = Some (v, e) \<longrightarrow> claim t = Some (v, e) \<or>
       v = sh_commit_id s + 1 \<and> map_of (sh_commit_queue s) v = None \<and> map_of (sh_commit_queue s') v = Some e)
    \<and> (registered_at t' = Some c \<longrightarrow> registered_at t = Some c \<or> c = sh_commit_id s \<and> s' = s)
    \<and> (passed t' n \<longrightarrow> passed t n \<or> (\<exists>c. registered_at t = Some c \<and> c < n))" for e v c n
  proof (cases t)
    case QueueCleaner
    then show ?thesis using assms by auto
  next
    case (Committer j pc)
    show ?thesis
    proof (cases pc)
      case (CTakeId c)
      then show ?thesis using Committer assms(4) lt by (auto simp: build_commit_def)
    next
      case (CInsert c e v)
      then have "unlisted s e" using assms(2) Committer by simp
      then have u: "cm_id x \<noteq> cm_id e" if "map_of (sh_commit_queue s) v = Some x" for x
        using that by (auto simp: unlisted_def)
      show ?thesis using Committer assms(4) b(2) CInsert u
        by (cases "map_of (sh_commit_queue s) v") (auto simp: om_get_or_insert_def om_simps)
    qed (use Committer assms(4) in \<open>auto split: option.splits if_splits\<close>)
  qed
  show "job_of t' = job_of t"
    "carries t' = Some e \<Longrightarrow> carries t = Some e \<or> sh_queue_id s < cm_id e"
    "claim t' = Some (v, e) \<Longrightarrow> claim t = Some (v, e) \<or>
       v = sh_commit_id s + 1 \<and> map_of (sh_commit_queue s) v = None \<and> map_of (sh_commit_queue s') v = Some e"
    "registered_at t' = Some c \<Longrightarrow> registered_at t = Some c \<or> c = sh_commit_id s \<and> s' = s"
    "passed t' n \<Longrightarrow> passed t n \<or> (\<exists>c. registered_at t = Some c \<and> c < n)"
    using * by blast+
qed

text \<open>A scan has compared with every entry it passed.\<close>

lemma scan_compares:
  assumes "shared_ok s" "thread_ok s t" "pub_next l s t = (t', s')" "job_of t = Some j"
    and "passed t' n" "\<not> passed t n" "map_of (sh_commit_queue s) n = Some x"
  shows "compatible j x"
proof -
  have x: "commit_wf x" using shared_okD(2) [OF assms(1,7)] by simp
  obtain c e v k where t: "t = Committer j (CScan c e v k)"
    using assms(3-6) by (cases t rule: registered_at.cases) (auto simp: om_get_or_insert_def split: option.splits if_splits)
  have j: "job_wf j" "commit_wf e" "cm_writeset e = jb_writeset j" "c < v" using assms(2) t by simp_all
  have c: "c + 1 \<le> n \<longleftrightarrow> c < n" for n using j(4) by (intro u64_Suc_le_iff) (metis less_le_trans word_n1_ge)
  show ?thesis
  proof (cases "range_next (c + 1) v k (sh_commit_queue s)")
    case None
    then have "t' = Committer j (CPublished c e v)" using assms(3) t by simp
    then have "c < n" "n < v" "ahead k n" using assms(5,6) t by simp_all
    then show ?thesis using range_next_None [OF None assms(7)] c by simp
  next
    case (Some y)
    obtain k' tx where y: "y = (k', tx)" by (cases y)
    note r = range_next_Some [OF Some [unfolded y] shared_okD(1) [OF assms(1)]]
    have t': "t' = Committer j (CScan c e v (Some k'))" "is_disjoint_writeset_bloom tx e"
      "jb_mode j = SerializableSnapshotIsolation \<longrightarrow> is_disjoint_readset_bloom tx (jb_readset j) (jb_bloom j)"
      using assms(3,5) by (auto simp: Some y t split: if_splits)
    have n: "c < n" "n < v" "n \<le> k'" "ahead k n" using assms(5,6) unfolding t t'(1) by (simp_all add: not_less)
    then have "k' = n" using r(5) [OF assms(7)] c by simp
    then have "tx = x" using r(1) assms(7) by simp
    with t' scan_entry [OF j(1) x j(2,3)] show ?thesis by simp
  qed
qed


lemma other_tidy:
  assumes "shared_ok s" "thread_ok s t" "pub_tidy l s t us" "pub_next l s t = (t', s')" "u \<in> set us"
    and "thread_ok s u" "pair_ok s t u" "pair_ok s u t"
  shows "thread_ok s' u \<and> pair_ok s' t' u \<and> pair_ok s' u t'"
proof -
  note eff = access_effect [OF assms(1-4)] and own = access_own [OF assms(1-4)] and cl = thread_claims [OF assms(6)]
  have lt: "sh_commit_id s < sh_commit_id s + 1"
    using assms(3) by (intro u64_less_Suc) (simp add: pub_tidy_def pub_ok_def)
  have distinct: "claim t = Some (v, x) \<Longrightarrow> claim u = Some (v', x') \<Longrightarrow> v \<noteq> v'" for v x v' x'
    by (rule pair_okD(2) [OF assms(7)])
  have ids: "carries t = Some x \<Longrightarrow> carries u = Some x' \<Longrightarrow> cm_id x \<noteq> cm_id x'" for x x'
    by (rule pair_okD(1) [OF assms(7)])
  have keep: "map_of (sh_commit_queue s') v = Some e"
    if q: "map_of (sh_commit_queue s) v = Some e" and c: "claim u = Some (v, e)"
      and r: "t = QueueCleaner \<Longrightarrow> \<exists>c w. w \<in> set us \<and> registered_at w = Some c \<and> c < v" for v e
  proof -
    have "map_of (sh_commit_queue s') v \<noteq> None"
    proof
      assume "map_of (sh_commit_queue s') v = None"
      from eff(4) [OF q this] show False
      proof
        assume "claim t = Some (v, e) \<and> claim t' = None"
        then show False using distinct [OF _ c] by blast
      next
        assume *: "t = QueueCleaner \<and> (\<forall>u\<in>set us. \<forall>c. registered_at u = Some c \<longrightarrow> v < c)"
        with r obtain c w where "w \<in> set us" "registered_at w = Some c" "c < v" by blast
        with * show False by (meson order_less_asym)
      qed
    qed
    then show ?thesis using eff(5) [OF q] by blast
  qed
  have u: "thread_ok s' u"
  proof (rule thread_ok_frame [OF assms(6) eff(1,2)])
    show "sh_commit_id s' = sh_commit_id s" if "claim u = Some (v, e)" "v = sh_commit_id s + 1" for v e
      using eff(3) distinct that by blast
    show "map_of (sh_commit_queue s') v = Some e" if c: "claim u = Some (v, e)" and r: "registered_at u \<noteq> None" for v e
    proof -
      from r obtain n where n: "registered_at u = Some n" by blast
      with cl(2) [OF c] have "n < v" and q: "map_of (sh_commit_queue s) v = Some e" by simp_all
      then show ?thesis using keep [OF q c] n assms(5) by metis
    qed
    show "cm_id x \<noteq> cm_id e" if "carries u = Some e" "unlisted s e" "map_of (sh_commit_queue s') k = Some x" for e k x
    proof (cases "map_of (sh_commit_queue s) k")
      case None
      then show ?thesis using ids [OF eff(6) [OF None that(3)] that(1)] by simp
    next
      case (Some y)
      then show ?thesis using eff(5) [OF Some that(3)] that(2) by (metis unlisted_def)
    qed
  qed
  have in_queue: "map_of (sh_commit_queue s') v = Some e"
    if r: "registered_at t' = Some c" and c: "claim u = Some (v, e)" and "c < v" for c v e
    using own(4) [OF r]
  proof
    assume t: "registered_at t = Some c"
    then have "map_of (sh_commit_queue s) v = Some e" using pair_okD(3) [OF assms(7) _ c \<open>c < v\<close>] by simp
    then show ?thesis by (rule keep [OF _ c]) (use t in simp)
  next
    assume "c = sh_commit_id s \<and> s' = s"
    then show ?thesis using cl(1) [OF c] \<open>c < v\<close> by auto
  qed
  have new: "v \<noteq> v'" if "claim t' = Some (v, e)" "claim u = Some (v', e')" for v e v' e'
    using own(3) [OF that(1)] cl(1) [OF that(2)] distinct [OF _ that(2)] lt by fastforce
  have ids': "cm_id e \<noteq> cm_id e'" if "carries t' = Some e" "carries u = Some e'" for e e'
    using own(2) [OF that(1)] ids [OF _ that(2)] cl(5) [OF that(2)] by auto
  have scan: "compatible j e" if j: "job_of t' = Some j" and c: "claim u = Some (v, e)" and p: "passed t' v" for j v e
  proof (cases "passed t v")
    case True
    then show ?thesis using pair_okD(4) [OF assms(7) _ c] own(1) j by simp
  next
    case False
    then have "map_of (sh_commit_queue s) v = Some e" using own(5) [OF p] pair_okD(3) [OF assms(7) _ c] by blast
    then show ?thesis using scan_compares [OF assms(1,2,4) _ p False] j own(1) by simp
  qed
  have scanned: "compatible j e" if j: "job_of u = Some j" and c: "claim t' = Some (v, e)" and p: "passed u v" for j v e
    using own(3) [OF c]
  proof
    assume "claim t = Some (v, e)"
    then show ?thesis by (rule pair_okD(4) [OF assms(8) j _ p])
  next
    assume "v = sh_commit_id s + 1 \<and> map_of (sh_commit_queue s) v = None \<and> map_of (sh_commit_queue s') v = Some e"
    then show ?thesis using cl(3) [OF p] lt by auto
  qed
  have kept: "map_of (sh_commit_queue s') v = Some e"
    if r: "registered_at u = Some c" and c: "claim t' = Some (v, e)" and "c < v" for c v e
    using own(3) [OF c]
  proof
    assume "claim t = Some (v, e)"
    then have q: "map_of (sh_commit_queue s) v = Some e" using pair_okD(3) [OF assms(8) r _ \<open>c < v\<close>] by simp
    then show ?thesis using eff(4,5) [OF q] c \<open>claim t = Some (v, e)\<close>
      by (cases "map_of (sh_commit_queue s') v") auto
  qed blast
  have "pair_ok s' t' u" using ids' new in_queue scan by (rule pair_okI)
  moreover have "pair_ok s' u t'" using ids' new kept scanned by (intro pair_okI) (blast dest: sym)+
  ultimately show ?thesis using u by blast
qed

lemma rest_tidy:
  assumes "shared_ok s" "thread_ok s t" "pub_tidy l s t us" "pub_next l s t = (t', s')" "u \<in> set us" "w \<in> set us"
    and "thread_ok s u" "thread_ok s w" "pair_ok s t u" "pair_ok s t w" "pair_ok s u w"
  shows "pair_ok s' u w"
proof -
  note eff = access_effect [OF assms(1-4)]
  have "map_of (sh_commit_queue s') v = Some e"
    if r: "registered_at u = Some c" and c: "claim w = Some (v, e)" "c < v" for c v e
  proof -
    have q: "map_of (sh_commit_queue s) v = Some e" using pair_okD(3) [OF assms(11) that] .
    moreover have "claim t \<noteq> Some (v, e)" using pair_okD(2) [OF assms(10) _ c(1)] by blast
    ultimately have "map_of (sh_commit_queue s') v \<noteq> None"
      using eff(4) [OF q] r assms(5) c(2) by (meson order_less_asym)
    then show ?thesis using eff(5) [OF q] by blast
  qed
  with pair_okD [OF assms(11)] show ?thesis by (intro pair_okI) blast+
qed

interpretation tidy: pool_invariant pub_next pub_tidy shared_ok thread_ok pair_ok
  by unfold_locales (rule own_tidy other_tidy rest_tidy; assumption)+

text \<open>Any number of transactions, with what they read and wrote, and the clean-up.\<close>

definition pub_start :: "commit_shared \<Rightarrow> job list \<Rightarrow> (commit_shared, pub_thread) pool" where
  "pub_start s js = (s, QueueCleaner # map (\<lambda>j. Committer j CBegin) js)"

lemma pub_start_ok:
  assumes "shared_ok s" "\<forall>j\<in>set js. job_wf j"
  shows "tidy.pool_ok (pub_start s js)"
proof -
  have "thread_ok s t" if "t \<in> set (snd (pub_start s js))" for t
    using that assms by (auto simp: pub_start_def)
  moreover have "pair_ok s t u" if "t \<in> set (snd (pub_start s js))" "u \<in> set (snd (pub_start s js))" for t u
    using that by (auto simp: pub_start_def pair_ok_def)
  ultimately show ?thesis
    unfolding tidy.pool_ok_def using assms(1) nth_mem [of _ "snd (pub_start s js)"] by (auto simp: pub_start_def)
qed

lemma tidy_published:
  assumes "pool_steps pub_next pub_tidy (pub_start s js) (s', ts)" "shared_ok s" "\<forall>j\<in>set js. job_wf j"
    and "i < length ts" "k < length ts" "i \<noteq> k"
    and "ts ! i = Committer ji (CPublished ci ei vi)" "ts ! k = Committer jk (CPublished ck ek vk)"
  shows "vi \<noteq> vk" "ci < vk \<Longrightarrow> vk < vi \<Longrightarrow> compatible ji ek" "cm_writeset ek = jb_writeset jk"
proof -
  have inv: "tidy.pool_ok (s', ts)" using tidy.steps_ok [OF assms(1) pub_start_ok [OF assms(2,3)]] .
  have p: "pair_ok s' (ts ! i) (ts ! k)" using tidy.pool_okD(3) [OF inv assms(4-6)] .
  show "vi \<noteq> vk" "ci < vk \<Longrightarrow> vk < vi \<Longrightarrow> compatible ji ek"
    using p assms(7,8) by (auto simp: pair_ok_def)
  show "cm_writeset ek = jb_writeset jk" using tidy.pool_okD(2) [OF inv assms(5)] assms(8) by simp
qed

end
