(* ===== verification/Publishing_Progress.thy ===== *)
theory Publishing_Progress
  imports Publishing
begin

text \<open>
  Progress and failure of the first half of concurrent commits: from every reachable state every
  commit can still be decided, and a run that is not tidy lets two overlapping commits pass.
\<close>

section \<open>Progress\<close>

text \<open>
  In any run, tidy or not, the next slot is taken only by a thread that is about to advance the number.
\<close>

fun pending :: "pub_thread \<Rightarrow> bool" where
  "pending (Committer j (CBump c e v)) \<longleftrightarrow> True"
| "pending _ \<longleftrightarrow> False"

fun decided :: "pub_thread \<Rightarrow> bool" where
  "decided (Committer j (CFailed e)) \<longleftrightarrow> True"
| "decided (Committer j (CPublished c e v)) \<longleftrightarrow> True"
| "decided _ \<longleftrightarrow> False"

definition within :: "commit_shared \<Rightarrow> u64 \<Rightarrow> bool" where
  "within s v \<longleftrightarrow> v \<le> sh_commit_id s \<or> v = sh_commit_id s + 1"

fun aims_within :: "commit_shared \<Rightarrow> pub_thread \<Rightarrow> bool" where
  "aims_within s (Committer j (CInsert c e v)) \<longleftrightarrow> within s v"
| "aims_within s _ \<longleftrightarrow> True"

definition slots_within :: "(commit_shared, pub_thread) pool \<Rightarrow> bool" where
  "slots_within p \<longleftrightarrow> (case p of (s, ts) \<Rightarrow>
     (\<forall>v e. map_of (sh_commit_queue s) v = Some e \<longrightarrow> within s v)
     \<and> (\<forall>e. map_of (sh_commit_queue s) (sh_commit_id s + 1) = Some e \<longrightarrow> sh_commit_id s + 1 \<le> sh_commit_id s \<or> (\<exists>t\<in>set ts. pending t))
     \<and> (\<forall>t\<in>set ts. aims_within s t))"

lemma within_bump: "sh_commit_id s < u64_MAX \<Longrightarrow> within s v \<Longrightarrow> v \<le> sh_commit_id s + 1"
  using u64_less_Suc [of "sh_commit_id s"] by (auto simp: within_def)

lemma aims_bump: "sh_commit_id s < u64_MAX \<Longrightarrow> aims_within s t \<Longrightarrow> aims_within (s\<lparr>sh_commit_id := sh_commit_id s + 1\<rparr>) t"
  using within_bump [of s] by (cases t rule: pending.cases) (auto simp: within_def)

lemma slots_within_step:
  assumes "pool_step pub_next pub_ok p p'" "slots_within p"
  shows "slots_within p'"
  using assms(1)
proof (cases rule: pool_step.cases)
  case (move i ts l s t' s')
  have b: "sh_commit_id s < u64_MAX" using move(4) by (simp add: pub_ok_def)
  note lt = u64_less_Suc [OF b]
  have inv: "\<And>v e. map_of (sh_commit_queue s) v = Some e \<Longrightarrow> within s v"
    "\<And>e. map_of (sh_commit_queue s) (sh_commit_id s + 1) = Some e \<Longrightarrow> \<exists>t\<in>set ts. pending t"
    "\<And>t. t \<in> set ts \<Longrightarrow> aims_within s t"
    using assms(2) lt by (auto simp: slots_within_def move(1))
  have sub: "t \<in> set ts \<or> t = t'" if "t \<in> set (ts[i := t'])" for t
    using that set_update_subset_insert by fastforce
  have t': "t' \<in> set (ts[i := t'])" using move(3) by (simp add: set_update_memI)
  have keep: "\<exists>t\<in>set (ts[i := t']). pending t" if "\<exists>t\<in>set ts. pending t" "\<not> pending (ts ! i)"
    using that move(3) by (metis in_set_conv_nth length_list_update nth_list_update_neq)
  have own: "aims_within s (ts ! i)" using inv(3) move(3) by simp
  show ?thesis
  proof (cases "pending (ts ! i)")
    case True
    then obtain j c e v where "ts ! i = Committer j (CBump c e v)" by (cases "ts ! i" rule: pending.cases) auto
    then have s': "s' = s\<lparr>sh_commit_id := sh_commit_id s + 1\<rparr>" and t: "aims_within s' t'" using move(5) by auto
    have "aims_within s' t" if "t \<in> set (ts[i := t'])" for t
      using sub [OF that] t inv(3) aims_bump [OF b] s' by blast
    moreover have "within s' v \<and> v \<le> sh_commit_id s'" if "map_of (sh_commit_queue s') v = Some e" for v e
      using that inv(1) within_bump [OF b] by (simp add: s' within_def)
    ultimately show ?thesis unfolding move(2) slots_within_def by auto
  next
    case False
    have "sh_commit_id s' = sh_commit_id s \<and> aims_within s' t' \<and>
      (map_of (sh_commit_queue s') v = Some e \<longrightarrow> map_of (sh_commit_queue s) v = Some e \<or> pending t' \<and> within s v)" for v e
      using False move(5) own
      by (cases "ts ! i" rule: registered_at.cases)
        (auto simp: om_get_or_insert_def om_simps within_def split: option.splits if_splits)
    then have n: "sh_commit_id s' = sh_commit_id s" "aims_within s' t'"
      "map_of (sh_commit_queue s') v = Some e \<Longrightarrow> map_of (sh_commit_queue s) v = Some e \<or> pending t' \<and> within s v" for v e
      by blast+
    have w: "within s' v \<longleftrightarrow> within s v" "aims_within s' t \<longleftrightarrow> aims_within s t" for v t
      using n(1) by (simp_all add: within_def) (cases t rule: pending.cases; simp add: within_def)
    have "within s' v" if "map_of (sh_commit_queue s') v = Some e" for v e
      using n(3) [OF that] inv(1) w(1) by blast
    moreover have "\<exists>t\<in>set (ts[i := t']). pending t" if "map_of (sh_commit_queue s') (sh_commit_id s' + 1) = Some e" for e
      using n(1) n(3) [OF that] inv(2) keep False t' by auto
    moreover have "aims_within s' t" if "t \<in> set (ts[i := t'])" for t
      using sub [OF that] n(2) inv(3) w(2) by blast
    ultimately show ?thesis unfolding move(2) slots_within_def by blast
  qed
qed


lemma slots_within_steps: "pool_steps pub_next pub_ok p p' \<Longrightarrow> slots_within p \<Longrightarrow> slots_within p'"
  by (induction rule: rtranclp_induct) (auto intro: slots_within_step)

text \<open>A thread can be decided from here: some continuation decides it.\<close>

definition can_decide :: "nat \<Rightarrow> (commit_shared, pub_thread) pool \<Rightarrow> bool" where
  "can_decide i p \<longleftrightarrow> (\<exists>p'. pool_steps pub_next pub_ok p p' \<and> decided (snd p' ! i))"

lemma can_decide_step:
  assumes "k < length ts" "ts ! k = Committer j pc" "commit_next j s pc = (pc', s')"
    and "sh_commit_id s < u64_MAX" "sh_queue_id s < u64_MAX" "can_decide i (s', ts[k := Committer j pc'])"
  shows "can_decide i (s, ts)"
proof -
  have "pool_step pub_next pub_ok (s, ts) (s', ts[k := Committer j pc'])"
    using assms(1-5) by (intro move [of _ _ _ 0]) (simp_all add: pub_ok_def)
  then show ?thesis using assms(6) unfolding can_decide_def by (meson converse_rtranclp_into_rtranclp)
qed

text \<open>Numbers left: for \<open>n\<close> more commits and one more entry.\<close>

definition numbers_left :: "nat \<Rightarrow> commit_shared \<Rightarrow> bool" where
  "numbers_left n s \<longleftrightarrow> unat (sh_commit_id s) + n < 2 ^ 64 - 1 \<and> sh_queue_id s < u64_MAX"

lemma numbers_leftD:
  assumes "numbers_left n s"
  shows "sh_commit_id s < u64_MAX" "sh_queue_id s < u64_MAX" "m \<le> n \<Longrightarrow> numbers_left m s"
    "n = Suc m \<Longrightarrow> numbers_left m (s\<lparr>sh_commit_id := sh_commit_id s + 1\<rparr>)"
    "numbers_left n (s\<lparr>sh_commit_queue := q\<rparr>)"
proof -
  show 1: "sh_commit_id s < u64_MAX" using assms by (simp add: numbers_left_def word_less_nat_alt unat_u64_MAX)
  show "sh_queue_id s < u64_MAX" "m \<le> n \<Longrightarrow> numbers_left m s" "numbers_left n (s\<lparr>sh_commit_queue := q\<rparr>)"
    using assms by (simp_all add: numbers_left_def)
  show "n = Suc m \<Longrightarrow> numbers_left m (s\<lparr>sh_commit_id := sh_commit_id s + 1\<rparr>)"
    using assms unat_u64_Suc [OF 1] by (simp add: numbers_left_def)
qed

lemma decided_can: "decided (ts ! i) \<Longrightarrow> can_decide i (s, ts)"
  unfolding can_decide_def by (intro exI [of _ "(s, ts)"]) simp

lemma removal_decides:
  assumes "i < length ts" "ts ! i = Committer j (CRemove c e v x)" "numbers_left 0 s"
  shows "can_decide i (s, ts)"
  by (rule can_decide_step [OF assms(1,2) _ numbers_leftD(1,2) [OF assms(3)]])
    (use assms(1) in \<open>auto intro: decided_can\<close>)

text \<open>The scan ends: every entry moves the cursor.\<close>

lemma scan_decides:
  assumes "i < length ts" "ts ! i = Committer j (CScan c e v k)" "numbers_left 0 s"
  shows "can_decide i (s, ts)"
  using assms(1,2)
proof (induction "length (filter (\<lambda>x. ahead k (fst x)) (sh_commit_queue s))" arbitrary: k ts rule: less_induct)
  case less
  note go1 = can_decide_step [OF less.prems _ numbers_leftD(1,2) [OF assms(3)]]
  show ?case
  proof (cases "range_next (c + 1) v k (sh_commit_queue s)")
    case None
    then show ?thesis by (intro go1 [of "CPublished c e v" s]) (use less.prems(1) in \<open>auto intro: decided_can\<close>)
  next
    case (Some y)
    obtain k' tx where y: "y = (k', tx)" by (cases y)
    have m: "(k', tx) \<in> set (sh_commit_queue s)" "ahead k k'"
      using find_SomeD [OF Some [unfolded range_next_def]] y by auto
    have "filter (\<lambda>x. ahead (Some k') (fst x)) (sh_commit_queue s)
        = filter (\<lambda>x. k' < fst x) (filter (\<lambda>x. ahead k (fst x)) (sh_commit_queue s))"
      using m(2) by (cases k) (auto intro: filter_cong)
    also have "length \<dots> < length (filter (\<lambda>x. ahead k (fst x)) (sh_commit_queue s))"
      using m by (intro length_filter_less [of "(k', tx)"]) auto
    finally have shorter: "length (filter (\<lambda>x. ahead (Some k') (fst x)) (sh_commit_queue s)) < \<dots>" .
    have go: "can_decide i (s, ts[i := Committer j (CScan c e v (Some k'))])"
      by (rule less.hyps [OF shorter]) (use less.prems in auto)
    have stop: "can_decide i (s, ts[i := Committer j (CRemove c e v x)])" for x
      by (rule removal_decides [OF _ _ assms(3)]) (use less.prems in auto)
    obtain pc' where n: "commit_next j s (CScan c e v k) = (pc', s)"
      and pc': "pc' = CScan c e v (Some k') \<or> (\<exists>x. pc' = CRemove c e v x)"
      using Some y by (auto split: if_splits)
    show ?thesis by (rule go1 [OF n]) (use pc' go stop in blast)
  qed
qed

lemma bump_decides:
  assumes "i < length ts" "ts ! i = Committer j (CBump c e v)" "numbers_left (Suc 0) s"
  shows "can_decide i (s, ts)"
  by (rule can_decide_step [OF assms(1,2) _ numbers_leftD(1,2) [OF assms(3)]])
    (use assms(1) numbers_leftD(4) [OF assms(3)] in \<open>auto intro: scan_decides\<close>)

lemma free_insert_decides:
  assumes "i < length ts" "ts ! i = Committer j (CInsert c e v)" "numbers_left (Suc 0) s"
    and "map_of (sh_commit_queue s) v = None"
  shows "can_decide i (s, ts)"
  by (rule can_decide_step [OF assms(1,2) _ numbers_leftD(1,2) [OF assms(3)]])
    (use assms numbers_leftD(5) [OF assms(3)] in \<open>auto simp: om_get_or_insert_def intro: bump_decides\<close>)


abbreviation next_free :: "commit_shared \<Rightarrow> bool" where
  "next_free s \<equiv> map_of (sh_commit_queue s) (sh_commit_id s + 1) = None"

lemma load_decides:
  assumes "i < length ts" "ts ! i = Committer j (CLoad c e)" "numbers_left (Suc 0) s" "next_free s"
  shows "can_decide i (s, ts)"
  by (rule can_decide_step [OF assms(1,2) _ numbers_leftD(1,2) [OF assms(3)]])
    (use assms in \<open>auto intro: free_insert_decides\<close>)

lemma insert_decides:
  assumes "i < length ts" "ts ! i = Committer j (CInsert c e v)" "numbers_left (Suc 0) s" "next_free s"
  shows "can_decide i (s, ts)"
proof (cases "map_of (sh_commit_queue s) v")
  case None
  with assms(1-3) show ?thesis by (rule free_insert_decides)
next
  case (Some x)
  have "can_decide i (s, ts[i := Committer j (CBump c e v)])" "can_decide i (s, ts[i := Committer j (CLoad c e)])"
    by (rule bump_decides load_decides; use assms in simp)+
  with Some show ?thesis
    by (intro can_decide_step [where pc' = "if cm_id e = cm_id x then CBump c e v else CLoad c e" and s' = s,
        OF assms(1,2) _ numbers_leftD(1,2) [OF assms(3)]]) (simp_all add: om_get_or_insert_def)
qed

lemma take_id_decides:
  assumes "i < length ts" "ts ! i = Committer j (CTakeId c)" "numbers_left (Suc 0) s" "next_free s" "sh_queue_id s + 1 < u64_MAX"
  shows "can_decide i (s, ts)"
  by (rule can_decide_step [OF assms(1,2) _ numbers_leftD(1,2) [OF assms(3)]])
    (use assms in \<open>auto simp: numbers_left_def intro!: load_decides\<close>)

lemma begin_decides:
  assumes "i < length ts" "ts ! i = Committer j CBegin" "numbers_left (Suc 0) s" "next_free s" "sh_queue_id s + 1 < u64_MAX"
  shows "can_decide i (s, ts)"
  by (rule can_decide_step [OF assms(1,2) _ numbers_leftD(1,2) [OF assms(3)]])
    (use assms in \<open>auto intro!: take_id_decides\<close>)

lemma free_decides:
  assumes "i < length ts" "ts ! i \<noteq> QueueCleaner" "numbers_left (Suc 0) s" "next_free s" "sh_queue_id s + 1 < u64_MAX"
  shows "can_decide i (s, ts)"
proof -
  from assms(2) obtain j pc where t: "ts ! i = Committer j pc" by (cases "ts ! i") auto
  show ?thesis
    using t assms(1,3-5) numbers_leftD(3) [OF assms(3), of 0]
    by (cases pc) (auto intro: decided_can begin_decides take_id_decides load_decides insert_decides
        bump_decides scan_decides removal_decides)
qed

text \<open>A thread that holds the next slot moves first.\<close>

lemma any_decides:
  assumes "slots_within (s, ts)" "i < length ts" "ts ! i \<noteq> QueueCleaner" "numbers_left (Suc (Suc 0)) s" "sh_queue_id s + 1 < u64_MAX"
  shows "can_decide i (s, ts)"
proof (cases "next_free s")
  case True
  show ?thesis using free_decides [OF assms(2,3) _ True assms(5)] numbers_leftD(3) [OF assms(4), of "Suc 0"] by simp
next
  case False
  have lt: "sh_commit_id s < sh_commit_id s + 1" by (rule u64_less_Suc [OF numbers_leftD(1) [OF assms(4)]])
  obtain k where k: "k < length ts" "pending (ts ! k)"
    using assms(1) False lt by (fastforce simp: slots_within_def in_set_conv_nth)
  then obtain j c e v where t: "ts ! k = Committer j (CBump c e v)" by (cases "ts ! k" rule: pending.cases) auto
  let ?s = "s\<lparr>sh_commit_id := sh_commit_id s + 1\<rparr>"
  obtain pc' where n: "commit_next j s (CBump c e v) = (pc', ?s)" by simp
  have left: "numbers_left (Suc 0) ?s" using numbers_leftD(4) [OF assms(4)] by simp
  have "next_free ?s"
  proof (rule ccontr)
    assume "\<not> next_free ?s"
    then have "within s (sh_commit_id ?s + 1)" using assms(1) by (fastforce simp: slots_within_def)
    then have "sh_commit_id ?s + 1 \<le> sh_commit_id ?s" using within_bump [OF numbers_leftD(1) [OF assms(4)]] by simp
    then show False using u64_less_Suc [OF numbers_leftD(1) [OF left]] by simp
  qed
  then have "can_decide i (?s, ts[k := Committer j pc'])"
    using assms(2,3,5) k(1) left by (intro free_decides) (auto simp: nth_list_update)
  then show ?thesis by (rule can_decide_step [OF k(1) t n numbers_leftD(1,2) [OF assms(4)]])
qed

lemma pub_start_within:
  assumes "\<And>v e. map_of (sh_commit_queue s) v = Some e \<Longrightarrow> v \<le> sh_commit_id s"
  shows "slots_within (pub_start s js)"
  using assms by (auto simp: slots_within_def pub_start_def within_def)

section \<open>A number used twice\<close>

text \<open>
  Four transactions start from the same number.  The first commits; the second conflicts with it, and
  while it stands in the queue the third has already chosen the same slot.  The second withdraws its
  entry, the third takes the slot after the fourth has scanned past it, and scans only below it.
\<close>

definition single_write :: "bytes \<Rightarrow> bytes option \<Rightarrow> job" where
  "single_write k v = \<lparr>jb_mode = SnapshotIsolation, jb_writeset = [(k, v)], jb_readset = {}, jb_bloom = BloomFilter_new\<rparr>"

definition reuse_schedule :: "(nat \<times> u64) list" where
  "reuse_schedule = map (\<lambda>i. (i, 0)) ([1, 2, 3, 4] @ [1, 1, 1, 1, 1] @ [2, 2, 3, 3, 2, 2, 2] @ [4, 4, 4, 4, 4, 4, 4] @ [2, 3, 3, 3, 3])"

definition empty_shared :: commit_shared where
  "empty_shared = \<lparr>sh_queue_id = 0, sh_commit_id = 0, sh_commit_queue = []\<rparr>"

lemma single_disjoint:
  "is_disjoint_writeset_bloom (build_commit i [(a, x)]) (build_commit j [(b, y)]) \<longleftrightarrow> a \<noteq> b"
  by (auto simp: writeset_bloom_iff build_commit_wf om_wf_def)

lemma cm_id_build_commit: "cm_id (build_commit i ws) = i"
  by (simp add: build_commit_def)

lemma reuse_run:
  assumes "a \<noteq> b"
  shows "\<exists>s. pool_run pub_next pub_ok reuse_schedule
      (pub_start empty_shared [single_write a va, single_write a vb, single_write b vc, single_write b vd])
    = Some (s, [QueueCleaner, Committer (single_write a va) (CPublished 0 (build_commit 1 [(a, va)]) 1),
        Committer (single_write a vb) (CFailed KeyWriteConflict),
        Committer (single_write b vc) (CPublished 0 (build_commit 3 [(b, vc)]) 2),
        Committer (single_write b vd) (CPublished 0 (build_commit 4 [(b, vd)]) 3)])"
  using assms
  by (simp add: pub_start_def empty_shared_def reuse_schedule_def single_write_def pub_ok_def om_get_or_insert_def
      range_next_def om_remove_def single_disjoint cm_id_build_commit)

end
