(* ===== verification/Merging.thy ===== *)
theory Merging
  imports Transaction Registration Thread_Pool
begin

text \<open>
  The second half of concurrent commits and the reads that meet it, at the grain of single accesses
  (\<open>atomic_merge\<close>, the writes to the chains, the removal from the merge queue; \<open>fetch_in_datastore\<close>).
  A chain is read and written under its lock, so a push and a read of a chain are one access each.  The
  memory carries, besides the code's fields, the history of accepted merges, which no access reads.
\<close>

section \<open>Shared memory and threads\<close>

type_synonym merges = "(u64 \<times> Merge) list"

record merge_shared =
  ms_timestamp :: u64
  ms_merge_id :: u64
  ms_queue :: "(u64, Merge) omap"
  ms_store :: datastore
  ms_history :: merges

datatype write_pc =
    WTakeId
  | WClock Merge
  | WLoad Merge u64
  | WInsert Merge u64
  | WRaise Merge u64
  | WStore Merge u64 writeset
  | WPush Merge u64 bytes "bytes option" writeset
  | WDone u64

datatype read_pc =
    RdBegin
  | RdOpen u64
  | RdScan u64 bytes "u64 option"
  | RdEntry u64 bytes u64 Merge
  | RdStore u64 bytes
  | RdGot u64 bytes "bytes option"

datatype merge_thread = Writer writeset write_pc | Reader read_pc

text \<open>The loop of \<open>atomic_merge\<close>, then one chain after another, then the queue.\<close>

fun write_next :: "u64 \<Rightarrow> writeset \<Rightarrow> merge_shared \<Rightarrow> write_pc \<Rightarrow> write_pc \<times> merge_shared" where
  "write_next time ws s WTakeId =
     (WClock \<lparr>mg_id = ms_merge_id s + 1, mg_writeset = ws\<rparr>, s\<lparr>ms_merge_id := ms_merge_id s + 1\<rparr>)"
| "write_next time ws s (WClock updates) = (WLoad updates time, s)"
| "write_next time ws s (WLoad updates ver) =
     (let last_ts = ms_timestamp s in (WInsert updates (if ver \<le> last_ts then last_ts + 1 else ver), s))"
| "write_next time ws s (WInsert updates ver) =
     (case om_get_or_insert ver updates (ms_queue s) of
        (entry, queue) \<Rightarrow>
          if mg_id updates = mg_id entry
          then (WRaise updates ver, s\<lparr>ms_queue := queue, ms_history := ms_history s @ [(ver, updates)]\<rparr>)
          else (WClock updates, s))"
| "write_next time ws s (WRaise updates ver) =
     (WStore updates ver (mg_writeset updates), s\<lparr>ms_timestamp := max (ms_timestamp s) ver\<rparr>)"
| "write_next time ws s (WStore updates ver []) =
     (WDone ver, s\<lparr>ms_queue := om_remove ver (ms_queue s)\<rparr>)"
| "write_next time ws s (WStore updates ver ((k, x) # rest)) =
     (WPush updates ver k x rest,
      s\<lparr>ms_store := snd (om_get_or_insert k (Versions_from \<lparr>version = ver, value_of = x\<rparr>) (ms_store s))\<rparr>)"
| "write_next time ws s (WPush updates ver k x rest) =
     (case map_of (ms_store s) k of
        Some versions \<Rightarrow>
          (WStore updates ver rest, s\<lparr>ms_store := om_insert k (push versions \<lparr>version = ver, value_of = x\<rparr>) (ms_store s)\<rparr>)
      | None \<Rightarrow> (WStore updates ver ((k, x) # rest), s))"
| "write_next time ws s (WDone ver) = (WDone ver, s)"

text \<open>The iteration over \<open>transaction_merge_queue.range(..=version)\<close>, newest first.\<close>

fun behind :: "u64 option \<Rightarrow> u64 \<Rightarrow> bool" where
  "behind None u \<longleftrightarrow> True"
| "behind (Some c) u \<longleftrightarrow> u < c"

definition merge_prev :: "u64 \<Rightarrow> u64 option \<Rightarrow> (u64, Merge) omap \<Rightarrow> (u64 \<times> Merge) option" where
  "merge_prev ver cursor queue = find (\<lambda>e. fst e \<le> ver \<and> behind cursor (fst e)) (rev queue)"

fun read_next :: "bytes \<Rightarrow> merge_shared \<Rightarrow> read_pc \<Rightarrow> read_pc \<times> merge_shared" where
  "read_next key s RdBegin = (RdOpen (ms_timestamp s), s)"
| "read_next key s (RdOpen v) = (RdScan v key None, s)"
| "read_next key s (RdScan v k cursor) =
     (case merge_prev v cursor (ms_queue s) of
        Some (u, entry) \<Rightarrow> (RdEntry v k u entry, s) | None \<Rightarrow> (RdStore v k, s))"
| "read_next key s (RdEntry v k u entry) =
     (if map_of (ms_queue s) u \<noteq> Some entry then (RdScan v k (Some u), s)
      else (case map_of (mg_writeset entry) k of
              Some x \<Rightarrow> (RdGot v k x, s) | None \<Rightarrow> (RdScan v k (Some u), s)))"
| "read_next key s (RdStore v k) =
     (RdGot v k (case map_of (ms_store s) k of Some versions \<Rightarrow> fetch_version versions v | None \<Rightarrow> None), s)"
| "read_next key s (RdGot v k x) = (RdOpen v, s)"

fun merge_next :: "u64 \<times> bytes \<Rightarrow> merge_shared \<Rightarrow> merge_thread \<Rightarrow> merge_thread \<times> merge_shared" where
  "merge_next l s (Writer ws pc) = (case write_next (fst l) ws s pc of (pc', s') \<Rightarrow> (Writer ws pc', s'))"
| "merge_next l s (Reader pc) = (case read_next (snd l) s pc of (pc', s') \<Rightarrow> (Reader pc', s'))"

text \<open>
  All runs in which merge identifiers are not exhausted; and among them the tidy runs, where a merge
  enters above the timestamp and shares no key with a merge still in the queue.
\<close>

definition merge_any :: "u64 \<times> bytes \<Rightarrow> merge_shared \<Rightarrow> merge_thread \<Rightarrow> merge_thread list \<Rightarrow> bool" where
  "merge_any l s t us \<longleftrightarrow> ms_merge_id s < u64_MAX"

fun enters_tidily :: "merge_shared \<Rightarrow> merge_thread \<Rightarrow> bool" where
  "enters_tidily s (Writer ws (WInsert updates ver)) \<longleftrightarrow>
     map_of (ms_queue s) ver \<noteq> None
     \<or> ms_timestamp s < ver \<and> (\<forall>e\<in>set (ms_queue s). fst ` set (mg_writeset (snd e)) \<inter> fst ` set (mg_writeset updates) = {})"
| "enters_tidily s _ \<longleftrightarrow> True"

definition merge_tidy :: "u64 \<times> bytes \<Rightarrow> merge_shared \<Rightarrow> merge_thread \<Rightarrow> merge_thread list \<Rightarrow> bool" where
  "merge_tidy l s t us \<longleftrightarrow> merge_any l s t us \<and> enters_tidily s t"

text \<open>What a snapshot should show of a key: the accepted merges in order, as far as the snapshot reaches.\<close>

definition last_value :: "bytes option \<Rightarrow> merges \<Rightarrow> bytes \<Rightarrow> u64 \<Rightarrow> bytes option" where
  "last_value base h k v =
     fold (\<lambda>(u, entry) acc. if u \<le> v then (case map_of (mg_writeset entry) k of Some x \<Rightarrow> x | None \<Rightarrow> acc) else acc) h base"

definition merge_start :: "u64 \<Rightarrow> datastore \<Rightarrow> writeset list \<Rightarrow> nat \<Rightarrow> (merge_shared, merge_thread) pool" where
  "merge_start ts ds wss n =
     (\<lparr>ms_timestamp = ts, ms_merge_id = 0, ms_queue = [], ms_store = ds, ms_history = []\<rparr>,
      map (\<lambda>ws. Writer ws WTakeId) wss @ replicate n (Reader RdBegin))"

section \<open>Histories\<close>

abbreviation keys_of :: "Merge \<Rightarrow> bytes set" where
  "keys_of entry \<equiv> fst ` set (mg_writeset entry)"

lemma map_of_keys: "map_of (mg_writeset e) k = None \<longleftrightarrow> k \<notin> keys_of e"
  by (simp add: map_of_eq_None_iff)

lemma last_value_simps [simp]:
  "last_value base [] k v = base"
  "last_value base (h @ [(u, e)]) k v =
     (if u \<le> v then (case map_of (mg_writeset e) k of Some x \<Rightarrow> x | None \<Rightarrow> last_value base h k v)
      else last_value base h k v)"
  by (simp_all add: last_value_def split: option.splits)

lemma last_value_append_above:
  "(\<And>u e. (u, e) \<in> set h' \<Longrightarrow> v < u) \<Longrightarrow> last_value base (h @ h') k v = last_value base h k v"
proof (induction h' rule: rev_induct)
  case (snoc x h')
  obtain u e where x: "x = (u, e)" by (cases x)
  then have "\<not> u \<le> v" using snoc.prems [of u e] by (simp add: not_le)
  moreover have "last_value base (h @ h') k v = last_value base h k v" using snoc by auto
  ultimately show ?case using last_value_simps(2) [of base "h @ h'" u e k v] x by simp
qed simp

text \<open>The merges of one key.\<close>

definition on_key :: "bytes \<Rightarrow> merges \<Rightarrow> merges" where
  "on_key k h = filter (\<lambda>e. k \<in> keys_of (snd e)) h"

lemma last_value_on_key: "last_value base (on_key k h) k v = last_value base h k v"
proof (induction h rule: rev_induct)
  case (snoc x h)
  then show ?case
    by (cases x; cases "k \<in> keys_of (snd x)") (auto simp: on_key_def map_of_keys [symmetric] split: option.splits)
qed (simp add: on_key_def)

section \<open>The invariant of tidy runs\<close>

text \<open>A merge is settled when it has left the queue.  On each key only the newest merge is in flight.\<close>

definition in_flight :: "merge_shared \<Rightarrow> u64 \<times> Merge \<Rightarrow> bool" where
  "in_flight s e \<longleftrightarrow> map_of (ms_queue s) (fst e) = Some (snd e)"

definition settled :: "merge_shared \<Rightarrow> merges \<Rightarrow> merges" where
  "settled s h = filter (\<lambda>e. \<not> in_flight s e) h"

definition tip :: "u64 \<Rightarrow> merges \<Rightarrow> u64" where
  "tip ts h = (if h = [] then ts else fst (last h))"

definition key_ok :: "u64 \<Rightarrow> datastore \<Rightarrow> merge_shared \<Rightarrow> bytes \<Rightarrow> bool" where
  "key_ok ts ds s k \<longleftrightarrow>
     (let es = on_key k (ms_history s) in
      (es = settled s es \<or> (\<exists>e. es = settled s es @ [e]))
      \<and> (\<forall>v. store_fetch (ms_store s) k v = last_value (store_fetch ds k v) es k v
            \<or> store_fetch (ms_store s) k v = last_value (store_fetch ds k v) (settled s es) k v)
      \<and> (\<forall>versions. map_of (ms_store s) k = Some versions \<longrightarrow> versions_newest_le versions (tip ts es)))"

definition mem_ok :: "u64 \<Rightarrow> datastore \<Rightarrow> merge_shared \<Rightarrow> bool" where
  "mem_ok ts ds s \<longleftrightarrow> om_wf (ms_queue s) \<and> store_wf (ms_store s) \<and> ts \<le> ms_timestamp s
     \<and> distinct (map fst (ms_history s))
     \<and> (\<forall>u e. map_of (ms_queue s) u = Some e \<longrightarrow> (u, e) \<in> set (ms_history s))
     \<and> (\<forall>e\<in>set (ms_history s). \<not> in_flight s e \<longrightarrow> fst e \<le> ms_timestamp s)
     \<and> (\<forall>e\<in>set (ms_history s). mg_id (snd e) \<le> ms_merge_id s \<and> om_wf (mg_writeset (snd e)))
     \<and> (\<forall>k. key_ok ts ds s k)"

text \<open>The key shows its newest merge, in flight or not.\<close>

definition installed :: "datastore \<Rightarrow> merge_shared \<Rightarrow> bytes \<Rightarrow> bool" where
  "installed ds s k \<longleftrightarrow>
     (\<forall>v. store_fetch (ms_store s) k v = last_value (store_fetch ds k v) (ms_history s) k v)"

definition fresh_merge :: "merge_shared \<Rightarrow> Merge \<Rightarrow> bool" where
  "fresh_merge s e \<longleftrightarrow> mg_id e \<le> ms_merge_id s \<and> (\<forall>x\<in>set (ms_history s). mg_id (snd x) \<noteq> mg_id e)"

fun write_ok :: "datastore \<Rightarrow> merge_shared \<Rightarrow> write_pc \<Rightarrow> bool" where
  "write_ok ds s (WClock e) \<longleftrightarrow> fresh_merge s e"
| "write_ok ds s (WLoad e n) \<longleftrightarrow> fresh_merge s e"
| "write_ok ds s (WInsert e u) \<longleftrightarrow> fresh_merge s e"
| "write_ok ds s (WRaise e u) \<longleftrightarrow> in_flight s (u, e)"
| "write_ok ds s (WStore e u rest) \<longleftrightarrow> in_flight s (u, e) \<and> u \<le> ms_timestamp s \<and> set rest \<subseteq> set (mg_writeset e)
     \<and> (\<forall>k\<in>keys_of e - fst ` set rest. installed ds s k)"
| "write_ok ds s (WPush e u k x rest) \<longleftrightarrow> in_flight s (u, e) \<and> u \<le> ms_timestamp s \<and> set ((k, x) # rest) \<subseteq> set (mg_writeset e)
     \<and> map_of (ms_store s) k \<noteq> None \<and> (\<forall>k'\<in>keys_of e - fst ` set ((k, x) # rest). installed ds s k')"
| "write_ok ds s _ \<longleftrightarrow> True"

text \<open>Every merge of the key that the snapshot reaches and the scan has passed is settled.\<close>

definition passed_settled :: "merge_shared \<Rightarrow> u64 \<Rightarrow> bytes \<Rightarrow> (u64 \<Rightarrow> bool) \<Rightarrow> bool" where
  "passed_settled s v k past \<longleftrightarrow> v \<le> ms_timestamp s
     \<and> (\<forall>e\<in>set (ms_history s). k \<in> keys_of (snd e) \<longrightarrow> fst e \<le> v \<longrightarrow> past (fst e) \<longrightarrow> \<not> in_flight s e)"

fun read_ok :: "datastore \<Rightarrow> merge_shared \<Rightarrow> read_pc \<Rightarrow> bool" where
  "read_ok ds s RdBegin \<longleftrightarrow> True"
| "read_ok ds s (RdOpen v) \<longleftrightarrow> v \<le> ms_timestamp s"
| "read_ok ds s (RdScan v k c) \<longleftrightarrow> passed_settled s v k (\<lambda>u. \<not> behind c u)"
| "read_ok ds s (RdEntry v k u e) \<longleftrightarrow> passed_settled s v k (\<lambda>n. u < n) \<and> u \<le> v \<and> (u, e) \<in> set (ms_history s)"
| "read_ok ds s (RdStore v k) \<longleftrightarrow> passed_settled s v k (\<lambda>_. True)"
| "read_ok ds s (RdGot v k x) \<longleftrightarrow> v \<le> ms_timestamp s \<and> x = last_value (store_fetch ds k v) (ms_history s) k v"

fun merge_carries :: "merge_thread \<Rightarrow> Merge option" where
  "merge_carries (Writer ws (WClock e)) = Some e"
| "merge_carries (Writer ws (WLoad e n)) = Some e"
| "merge_carries (Writer ws (WInsert e u)) = Some e"
| "merge_carries (Writer ws (WRaise e u)) = Some e"
| "merge_carries (Writer ws (WStore e u r)) = Some e"
| "merge_carries (Writer ws (WPush e u k x r)) = Some e"
| "merge_carries _ = None"

fun merge_thread_ok :: "datastore \<Rightarrow> merge_shared \<Rightarrow> merge_thread \<Rightarrow> bool" where
  "merge_thread_ok ds s (Writer ws pc) \<longleftrightarrow> om_wf ws \<and> write_ok ds s pc
     \<and> (\<forall>e. merge_carries (Writer ws pc) = Some e \<longrightarrow> mg_writeset e = ws \<and> mg_id e \<le> ms_merge_id s)"
| "merge_thread_ok ds s (Reader pc) \<longleftrightarrow> read_ok ds s pc"

definition distinct_merges :: "merge_shared \<Rightarrow> merge_thread \<Rightarrow> merge_thread \<Rightarrow> bool" where
  "distinct_merges s t u \<longleftrightarrow> (\<forall>e e'. merge_carries t = Some e \<longrightarrow> merge_carries u = Some e' \<longrightarrow> mg_id e \<noteq> mg_id e')"


lemma mem_okD:
  assumes "mem_ok ts ds s"
  shows "om_wf (ms_queue s)" "store_wf (ms_store s)" "ts \<le> ms_timestamp s" "distinct (map fst (ms_history s))"
    "map_of (ms_queue s) u = Some e \<Longrightarrow> (u, e) \<in> set (ms_history s)" "in_flight s x \<Longrightarrow> x \<in> set (ms_history s)"
    "x \<in> set (ms_history s) \<Longrightarrow> \<not> in_flight s x \<Longrightarrow> fst x \<le> ms_timestamp s"
    "x \<in> set (ms_history s) \<Longrightarrow> mg_id (snd x) \<le> ms_merge_id s"
    "x \<in> set (ms_history s) \<Longrightarrow> om_wf (mg_writeset (snd x))" "key_ok ts ds s k"
  using assms unfolding mem_ok_def in_flight_def by (auto simp del: prod.collapse, metis prod.collapse)

text \<open>Versions in the history are not reused.\<close>

lemma history_unique:
  assumes "mem_ok ts ds s" "(u, e) \<in> set (ms_history s)" "(u, e') \<in> set (ms_history s)"
  shows "e' = e"
  using mem_okD(4) [OF assms(1)] assms(2,3) by (metis eq_key_imp_eq_value)

lemma queued_in_flight:
  assumes "mem_ok ts ds s" "x \<in> set (ms_history s)"
  shows "in_flight s x \<longleftrightarrow> map_of (ms_queue s) (fst x) \<noteq> None"
  using mem_okD(5) [OF assms(1)] history_unique [OF assms(1), of "fst x" "snd x"] assms(2)
  by (auto simp: in_flight_def)

lemma key_okD:
  assumes "key_ok ts ds s k" and "es = on_key k (ms_history s)"
  shows "es = settled s es \<or> (\<exists>e. es = settled s es @ [e])"
    "store_fetch (ms_store s) k v = last_value (store_fetch ds k v) es k v
       \<or> store_fetch (ms_store s) k v = last_value (store_fetch ds k v) (settled s es) k v"
    "map_of (ms_store s) k = Some versions \<Longrightarrow> versions_newest_le versions (tip ts es)"
  using assms unfolding key_ok_def Let_def by blast+

lemma flight_last:
  assumes "mem_ok ts ds s" "in_flight s (u, e)" "k \<in> keys_of e"
  shows "on_key k (ms_history s) = settled s (on_key k (ms_history s)) @ [(u, e)]"
proof -
  let ?es = "on_key k (ms_history s)"
  have m: "(u, e) \<in> set ?es" using mem_okD(6) [OF assms(1,2)] assms(3) by (simp add: on_key_def)
  have "(u, e) \<notin> set (settled s ?es)" using assms(2) by (simp add: settled_def)
  then show ?thesis using key_okD(1) [OF mem_okD(10) [OF assms(1)] refl, of k] m by (metis Un_iff empty_iff empty_set set_ConsD set_append)
qed

lemma flight_unique:
  assumes "mem_ok ts ds s" "in_flight s (u, e)" "in_flight s (u', e')" "k \<in> keys_of e" "k \<in> keys_of e'"
  shows "(u', e') = (u, e)"
  using flight_last [OF assms(1,2,4)] flight_last [OF assms(1,3,5)] by (metis last_snoc)

text \<open>What the newest merge in flight makes of the key.\<close>

lemma flight_value:
  assumes "mem_ok ts ds s" "in_flight s (u, e)" "map_of (mg_writeset e) k = Some x"
  shows "last_value base (ms_history s) k v
    = (if u \<le> v then x else last_value base (settled s (on_key k (ms_history s))) k v)"
    and "tip ts (on_key k (ms_history s)) = u"
proof -
  have k: "k \<in> keys_of e" using assms(3) map_of_keys [of e k] by auto
  note last = flight_last [OF assms(1,2) k]
  have "last_value base (on_key k (ms_history s)) k v = last_value base (settled s (on_key k (ms_history s)) @ [(u, e)]) k v"
    using last by simp
  then show "last_value base (ms_history s) k v
      = (if u \<le> v then x else last_value base (settled s (on_key k (ms_history s))) k v)"
    using assms(3) by (simp add: last_value_on_key)
  show "tip ts (on_key k (ms_history s)) = u" using last by (metis append_is_Nil_conv fst_conv last_snoc list.discI tip_def)
qed


section \<open>Accesses keep the memory well formed\<close>

lemma settled_cong:
  "(\<And>x. x \<in> set h \<Longrightarrow> in_flight s' x = in_flight s x) \<Longrightarrow> settled s' h = settled s h"
  unfolding settled_def by (rule filter_cong) auto

lemma key_ok_cong:
  assumes "key_ok ts ds s k" "on_key k (ms_history s') = on_key k (ms_history s)"
    and "\<And>x. x \<in> set (on_key k (ms_history s)) \<Longrightarrow> in_flight s' x = in_flight s x"
    and "map_of (ms_store s') k = map_of (ms_store s) k"
  shows "key_ok ts ds s' k"
  using assms(1,2,4) settled_cong [of "on_key k (ms_history s)" s' s] assms(3)
  by (simp add: key_ok_def store_fetch_def)

text \<open>A write to the chain of a key in flight.\<close>

lemma chain_write:
  assumes "mem_ok ts ds s" "in_flight s (u, e)" "(k, x) \<in> set (mg_writeset e)"
    and "versions_wf vs" "versions_newest_le vs u"
    and "\<And>v. fetch_version vs v = (if u \<le> v then x else store_fetch (ms_store s) k v)"
  defines "s' \<equiv> s\<lparr>ms_store := om_insert k vs (ms_store s)\<rparr>"
  shows "mem_ok ts ds s'" "installed ds s' k" "\<And>k' v. k' \<noteq> k \<Longrightarrow> store_fetch (ms_store s') k' v = store_fetch (ms_store s) k' v"
proof -
  let ?es = "on_key k (ms_history s)"
  note D = mem_okD [OF assms(1)]
  have x: "map_of (mg_writeset e) k = Some x"
    using D(9) [OF D(6) [OF assms(2)]] assms(3) by (simp add: om_wf_map_of_iff)
  note fl = flight_value [OF assms(1,2) x]
  show other: "store_fetch (ms_store s') k' v = store_fetch (ms_store s) k' v" if "k' \<noteq> k" for k' v
    using that by (simp add: s'_def store_fetch_insert)
  have new: "store_fetch (ms_store s') k v = last_value (store_fetch ds k v) (ms_history s) k v" for v
    using key_okD(2) [OF D(10) refl, of k v] fl(1) [of "store_fetch ds k v" v] assms(6) [of v]
    by (auto simp: s'_def store_fetch_insert last_value_on_key)
  then show "installed ds s' k" by (simp add: installed_def s'_def)
  have st: "settled s' h = settled s h" for h by (rule settled_cong) (simp add: in_flight_def s'_def)
  have "key_ok ts ds s' k'" for k'
  proof (cases "k' = k")
    case True
    have "store_fetch (ms_store s') k v = last_value (store_fetch ds k v) ?es k v" for v
      using new by (simp add: last_value_on_key)
    then show ?thesis
      using key_okD(1) [OF D(10) refl, of k] fl(2) assms(5) True
      by (simp add: key_ok_def st) (simp add: s'_def om_simps)
  next
    case False
    then show ?thesis by (intro key_ok_cong [OF D(10)]) (simp_all add: s'_def in_flight_def om_simps)
  qed
  then show "mem_ok ts ds s'"
    using assms(1) store_wf_insert [OF D(2) assms(4)] by (simp add: mem_ok_def s'_def in_flight_def)
qed


lemma slot_write:
  assumes "mem_ok ts ds s" "in_flight s (u, e)" "(k, x) \<in> set (mg_writeset e)"
    and "s' = s\<lparr>ms_store := snd (om_get_or_insert k (Versions_from \<lparr>version = u, value_of = x\<rparr>) (ms_store s))\<rparr>"
  shows "mem_ok ts ds s' \<and> map_of (ms_store s') k \<noteq> None \<and>
    (\<forall>k' v. k' \<noteq> k \<longrightarrow> store_fetch (ms_store s') k' v = store_fetch (ms_store s) k' v)"
proof (cases "map_of (ms_store s) k")
  case (Some vs)
  then have "s' = s" using assms(4) by (simp add: om_get_or_insert_def)
  then show ?thesis using assms(1) Some by simp
next
  case None
  let ?vs = "Versions_from \<lparr>version = u, value_of = x\<rparr>"
  have s': "s' = s\<lparr>ms_store := om_insert k ?vs (ms_store s)\<rparr>" using None assms(4) by (simp add: om_get_or_insert_def)
  have "versions_wf ?vs" "versions_newest_le ?vs u"
    by (simp_all add: versions_wf_def versions_newest_le_def Versions_from_def)
  moreover have "fetch_version ?vs v = (if u \<le> v then x else store_fetch (ms_store s) k v)" for v
    using None by (simp add: fetch_version_from store_fetch_def)
  ultimately show ?thesis using chain_write [OF assms(1-3)] by (simp add: s' om_simps)
qed

lemma push_write:
  assumes "mem_ok ts ds s" "in_flight s (u, e)" "(k, x) \<in> set (mg_writeset e)" "map_of (ms_store s) k = Some vs"
    and "s' = s\<lparr>ms_store := om_insert k (push vs \<lparr>version = u, value_of = x\<rparr>) (ms_store s)\<rparr>"
  shows "mem_ok ts ds s' \<and> installed ds s' k \<and>
    (\<forall>k' v. k' \<noteq> k \<longrightarrow> store_fetch (ms_store s') k' v = store_fetch (ms_store s) k' v)"
proof -
  note D = mem_okD [OF assms(1)]
  let ?x = "\<lparr>version = u, value_of = x\<rparr>"
  have wf: "versions_wf vs" by (rule store_wf_get [OF D(2) assms(4)])
  have m: "map_of (mg_writeset e) k = Some x"
    using D(9) [OF D(6) [OF assms(2)]] assms(3) by (simp add: om_wf_map_of_iff)
  have le: "versions_newest_le vs u"
    using key_okD(3) [OF D(10) refl assms(4)] flight_value(2) [OF assms(1,2) m] by simp
  have "versions_wf (push vs ?x)" "versions_newest_le (push vs ?x) u"
    using vc.wf_add [OF wf] vc.newest_le_add [OF le _ wf] by simp_all
  moreover have "fetch_version (push vs ?x) v = (if u \<le> v then x else store_fetch (ms_store s) k v)" for v
    using vc.fetch_add_below [OF wf, of v ?x] vc.fetch_add_newest [OF wf, of ?x v] le assms(4)
    by (auto simp: store_fetch_def not_le)
  ultimately show ?thesis using chain_write [OF assms(1-3)] assms(5) by simp
qed

text \<open>A tidy entry.\<close>

lemma enter_write:
  assumes "mem_ok ts ds s" "map_of (ms_queue s) u = None" "ms_timestamp s < u"
    and disj: "\<And>x. in_flight s x \<Longrightarrow> keys_of (snd x) \<inter> keys_of e = {}"
    and "om_wf (mg_writeset e)" "mg_id e \<le> ms_merge_id s"
    and s': "s' = s\<lparr>ms_queue := om_insert u e (ms_queue s), ms_history := ms_history s @ [(u, e)]\<rparr>"
  shows "mem_ok ts ds s' \<and> in_flight s' (u, e) \<and> (\<forall>x\<in>set (ms_history s). in_flight s' x = in_flight s x)"
proof -
  note D = mem_okD [OF assms(1)]
  have u: "fst x \<noteq> u" if "x \<in> set (ms_history s)" for x
    using D(7) [OF that] assms(2,3) by (auto simp: in_flight_def)
  have same: "in_flight s' x = in_flight s x" if "x \<in> set (ms_history s)" for x
    using u [OF that] by (simp add: in_flight_def s' om_simps)
  have new: "in_flight s' (u, e)" by (simp add: in_flight_def s' om_simps)
  have k: "key_ok ts ds s' k" for k
  proof (cases "k \<in> keys_of e")
    case True
    let ?es = "on_key k (ms_history s)"
    have nf: "\<not> in_flight s x" if "x \<in> set ?es" for x
      using that disj [of x] True by (auto simp: on_key_def)
    then have st: "settled s ?es = ?es" by (simp add: settled_def filter_id_conv)
    have es': "on_key k (ms_history s') = ?es @ [(u, e)]" using True by (simp add: on_key_def s')
    have "settled s' ?es = settled s ?es" by (rule settled_cong) (simp add: on_key_def same)
    then have st': "settled s' (?es @ [(u, e)]) = ?es" using st new by (simp add: settled_def)
    have "tip ts ?es \<le> u"
    proof (cases "?es = []")
      case False
      then have "last ?es \<in> set ?es" by simp
      then have "\<not> in_flight s (last ?es)" "last ?es \<in> set (ms_history s)"
        using nf by (simp, simp add: on_key_def)
      then show ?thesis using D(7) False assms(3) by (fastforce simp: tip_def)
    qed (use D(3) assms(3) in \<open>simp add: tip_def\<close>)
    then show ?thesis
      using key_okD(2,3) [OF D(10) refl, of k] vc.newest_le_mono
      unfolding key_ok_def es' Let_def st' by (auto simp: st s' tip_def)
  next
    case False
    then have "on_key k (ms_history s') = on_key k (ms_history s)" by (simp add: on_key_def s')
    then show ?thesis by (rule key_ok_cong [OF D(10)]) (simp add: on_key_def same, simp add: s')
  qed
  have "map_of (ms_queue s') n = Some x \<Longrightarrow> (n, x) \<in> set (ms_history s')" for n x
    using D(5) by (auto simp: s' om_simps split: if_splits)
  moreover have "distinct (map fst (ms_history s'))" using D(4) u by (auto simp: s')
  moreover have "fst x \<le> ms_timestamp s'" if "x \<in> set (ms_history s')" "\<not> in_flight s' x" for x
  proof -
    have x: "x \<in> set (ms_history s)" using that new by (auto simp: s')
    then show ?thesis using D(7) [OF x] same [OF x] that(2) by (simp add: s')
  qed
  moreover have "mg_id (snd x) \<le> ms_merge_id s' \<and> om_wf (mg_writeset (snd x))" if "x \<in> set (ms_history s')" for x
    using that D(8,9) [of x] assms(5,6) by (cases "x = (u, e)") (simp_all add: s')
  moreover have "om_wf (ms_queue s')" "store_wf (ms_store s')" "ts \<le> ms_timestamp s'"
    using D(1-3) by (simp_all add: s' om_wf_insert)
  ultimately show ?thesis using same new k unfolding mem_ok_def by blast
qed

text \<open>A merge leaves once it is installed.\<close>

lemma leave_write:
  assumes "mem_ok ts ds s" "in_flight s (u, e)" "u \<le> ms_timestamp s" "\<And>k. k \<in> keys_of e \<Longrightarrow> installed ds s k"
    and s': "s' = s\<lparr>ms_queue := om_remove u (ms_queue s)\<rparr>"
  shows "mem_ok ts ds s' \<and> (\<forall>x\<in>set (ms_history s). in_flight s' x \<longleftrightarrow> in_flight s x \<and> x \<noteq> (u, e))"
proof -
  note D = mem_okD [OF assms(1)]
  have fl: "in_flight s' x \<longleftrightarrow> in_flight s x \<and> x \<noteq> (u, e)" if "x \<in> set (ms_history s)" for x
    using that assms(2) by (cases x) (auto simp: in_flight_def s' om_simps)
  have k: "key_ok ts ds s' k" for k
  proof (cases "k \<in> keys_of e")
    case True
    let ?es = "on_key k (ms_history s)"
    note last = flight_last [OF assms(1,2) True]
    have "settled s' ?es = settled s' (settled s ?es) @ settled s' [(u, e)]" using last by (metis filter_append settled_def)
    moreover have "\<not> in_flight s' x" if "x \<in> set (settled s ?es)" for x
      using that fl by (auto simp: settled_def on_key_def)
    then have "settled s' (settled s ?es) = settled s ?es" by (simp add: settled_def [of s'] filter_id_conv)
    moreover have "settled s' [(u, e)] = [(u, e)]" using fl [OF D(6) [OF assms(2)]] by (simp add: settled_def)
    ultimately have "settled s' ?es = ?es" using last by simp
    moreover have "store_fetch (ms_store s') k v = last_value (store_fetch ds k v) ?es k v" for v
      using assms(4) [OF True] by (simp add: installed_def s' last_value_on_key)
    ultimately show ?thesis using key_okD(3) [OF D(10) refl, of k] by (simp add: key_ok_def s')
  next
    case False
    then show ?thesis by (intro key_ok_cong [OF D(10)]) (auto simp: on_key_def fl, auto simp: s')
  qed
  have "fst x \<le> ms_timestamp s'" if "x \<in> set (ms_history s')" "\<not> in_flight s' x" for x
  proof -
    have x: "x \<in> set (ms_history s)" using that(1) by (simp add: s')
    then show ?thesis using D(7) [OF x] fl [OF x] that(2) assms(3) by (auto simp: s')
  qed
  moreover have "map_of (ms_queue s') n = Some x \<Longrightarrow> (n, x) \<in> set (ms_history s')" for n x
    using D(5) by (auto simp: s' om_simps split: if_splits)
  ultimately show ?thesis using D fl k om_wf_remove unfolding mem_ok_def by (auto simp: s')
qed

end
