(* ===== verification/Merging_Reads.thy ===== *)
theory Merging_Reads
  imports Merging
begin

text \<open>
  Reads against concurrent merges: how an access looks to the other threads, the invariant of tidy runs,
  what a read then returns, and two runs that are not tidy.
\<close>

section \<open>Accesses and other threads\<close>

text \<open>What an access does to the memory, as the other threads see it.\<close>

definition mem_step :: "datastore \<Rightarrow> merge_thread \<Rightarrow> merge_shared \<Rightarrow> merge_shared \<Rightarrow> bool" where
  "mem_step ds t s s' \<longleftrightarrow> ms_timestamp s \<le> ms_timestamp s' \<and> ms_merge_id s \<le> ms_merge_id s'
     \<and> (\<exists>h. ms_history s' = ms_history s @ h \<and> (\<forall>x\<in>set h. ms_timestamp s < fst x \<and> merge_carries t = Some (snd x)))
     \<and> (\<forall>x\<in>set (ms_history s). in_flight s' x \<longrightarrow> in_flight s x)
     \<and> (\<forall>x. in_flight s x \<longrightarrow> merge_carries t \<noteq> Some (snd x) \<longrightarrow> in_flight s' x)
     \<and> (\<forall>k. map_of (ms_store s) k \<noteq> None \<longrightarrow> map_of (ms_store s') k \<noteq> None)
     \<and> (\<forall>k x. in_flight s x \<longrightarrow> k \<in> keys_of (snd x) \<longrightarrow> merge_carries t \<noteq> Some (snd x) \<longrightarrow>
            installed ds s k \<longrightarrow> installed ds s' k)"

lemma mem_step_refl: "mem_step ds t s s"
  by (simp add: mem_step_def)

lemma mem_step_cong:
  assumes "ms_timestamp s \<le> ms_timestamp s'" "ms_merge_id s \<le> ms_merge_id s'"
    "ms_queue s' = ms_queue s" "ms_store s' = ms_store s" "ms_history s' = ms_history s"
  shows "mem_step ds t s s'"
  using assms by (simp add: mem_step_def in_flight_def installed_def)

text \<open>A write to the chain of a key of its own.\<close>

lemma mem_step_chain:
  assumes "mem_ok ts ds s" "in_flight s (u, e)" "k \<in> keys_of e" "merge_carries t = Some e"
    and "s' = s\<lparr>ms_store := st\<rparr>" "\<And>k' v. k' \<noteq> k \<Longrightarrow> store_fetch st k' v = store_fetch (ms_store s) k' v"
    and "\<And>k'. map_of (ms_store s) k' \<noteq> None \<Longrightarrow> map_of st k' \<noteq> None"
  shows "mem_step ds t s s'"
proof -
  have "installed ds s' k'" if "in_flight s x" "k' \<in> keys_of (snd x)" "merge_carries t \<noteq> Some (snd x)" "installed ds s k'" for k' x
  proof -
    have "k' \<noteq> k"
    proof
      assume "k' = k"
      then have "x = (u, e)" using flight_unique [OF assms(1,2), of "fst x" "snd x" k] that(1,2) assms(3) by simp
      with that(3) assms(4) show False by simp
    qed
    with that(4) assms(5,6) show ?thesis by (simp add: installed_def)
  qed
  then show ?thesis using assms(5,7) by (auto simp: mem_step_def in_flight_def)
qed

lemma fresh_merge_step:
  assumes "mem_step ds t s s'" "fresh_merge s e" "\<And>e'. merge_carries t = Some e' \<Longrightarrow> mg_id e' \<noteq> mg_id e"
  shows "fresh_merge s' e"
proof -
  obtain h where h: "ms_history s' = ms_history s @ h" "\<forall>x\<in>set h. merge_carries t = Some (snd x)"
    and m: "ms_merge_id s \<le> ms_merge_id s'"
    using assms(1) by (auto simp: mem_step_def)
  have "mg_id (snd x) \<noteq> mg_id e" if "x \<in> set (ms_history s')" for x
    using that h assms(2,3) by (auto simp: fresh_merge_def)
  then show ?thesis using assms(2) order_trans [OF _ m] by (simp add: fresh_merge_def)
qed

lemma passed_settled_step:
  assumes "mem_step ds t s s'" "passed_settled s v k past"
  shows "passed_settled s' v k past"
proof -
  obtain h where h: "ms_history s' = ms_history s @ h" "\<forall>x\<in>set h. ms_timestamp s < fst x" "ms_timestamp s \<le> ms_timestamp s'"
    and f: "\<forall>x\<in>set (ms_history s). in_flight s' x \<longrightarrow> in_flight s x"
    using assms(1) by (auto simp: mem_step_def)
  have v: "v \<le> ms_timestamp s" using assms(2) by (simp add: passed_settled_def)
  have "\<not> in_flight s' x" if "x \<in> set (ms_history s')" "k \<in> keys_of (snd x)" "fst x \<le> v" "past (fst x)" for x
  proof -
    have "x \<notin> set h" using h(2) that(3) v by (meson leD le_less_trans)
    then have "x \<in> set (ms_history s)" using that(1) h(1) by simp
    then show ?thesis using f assms(2) that(2-4) by (auto simp: passed_settled_def)
  qed
  then show ?thesis using v h(3) by (simp add: passed_settled_def order_trans [OF v h(3)])
qed

lemma last_value_step:
  assumes "mem_step ds t s s'" "v \<le> ms_timestamp s"
  shows "last_value base (ms_history s') k v = last_value base (ms_history s) k v"
proof -
  obtain h where h: "ms_history s' = ms_history s @ h" "\<forall>x\<in>set h. ms_timestamp s < fst x"
    using assms(1) by (auto simp: mem_step_def)
  show ?thesis unfolding h(1) by (rule last_value_append_above) (use h(2) assms(2) in fastforce)
qed

lemma write_ok_step:
  assumes "mem_step ds t s s'" "write_ok ds s pc"
    and "\<And>e e'. merge_carries t = Some e' \<Longrightarrow> merge_carries (Writer ws pc) = Some e \<Longrightarrow> mg_id e' \<noteq> mg_id e"
  shows "write_ok ds s' pc"
proof -
  have ts: "x \<le> ms_timestamp s \<Longrightarrow> x \<le> ms_timestamp s'" for x using assms(1) by (auto simp: mem_step_def intro: order_trans)
  have fl: "in_flight s' (u, e)" "k \<in> keys_of e \<Longrightarrow> installed ds s k \<Longrightarrow> installed ds s' k"
    if "in_flight s (u, e)" "merge_carries (Writer ws pc) = Some e" for u e k
  proof -
    have ne: "merge_carries t \<noteq> Some e" using assms(3) that(2) by blast
    show "in_flight s' (u, e)" "k \<in> keys_of e \<Longrightarrow> installed ds s k \<Longrightarrow> installed ds s' k"
      using assms(1) that(1) ne unfolding mem_step_def by (metis snd_conv)+
  qed
  have st: "map_of (ms_store s) k \<noteq> None \<Longrightarrow> map_of (ms_store s') k \<noteq> None" for k
    using assms(1) unfolding mem_step_def by blast
  have fr: "fresh_merge s' e" if "fresh_merge s e" "merge_carries (Writer ws pc) = Some e" for e
    using fresh_merge_step [OF assms(1) that(1)] assms(3) that(2) by blast
  show ?thesis
  proof (cases pc)
    case (WStore e u rest)
    then show ?thesis using assms(2) ts fl(1) [of u e] fl(2) [of u e] by (simp add: Ball_def)
  next
    case (WPush e u k x rest)
    then show ?thesis using assms(2) ts fl(1) [of u e] fl(2) [of u e] st [of k] by (simp add: Ball_def)
  qed (use assms(2) ts fl fr in simp_all)
qed

lemma read_ok_step:
  assumes "mem_step ds t s s'" "read_ok ds s pc"
  shows "read_ok ds s' pc"
proof -
  have "ms_timestamp s \<le> ms_timestamp s'" "set (ms_history s) \<subseteq> set (ms_history s')" using assms(1) by (auto simp: mem_step_def)
  then show ?thesis
    using assms passed_settled_step [OF assms(1)] last_value_step [OF assms(1)]
    by (cases pc) (auto intro: order_trans)
qed

lemma other_merge:
  assumes "mem_step ds t s s'" "merge_thread_ok ds s u" "distinct_merges s t u"
  shows "merge_thread_ok ds s' u"
proof (cases u)
  case (Writer ws pc)
  have "ms_merge_id s \<le> ms_merge_id s'" using assms(1) by (simp add: mem_step_def)
  moreover have "write_ok ds s' pc"
    by (rule write_ok_step [OF assms(1)]) (use assms(2,3) Writer in \<open>auto simp: distinct_merges_def\<close>)
  ultimately show ?thesis using assms(2) Writer by (auto intro: order_trans)
next
  case (Reader pc)
  then show ?thesis using assms(2) read_ok_step [OF assms(1)] by simp
qed


lemma merge_prev_None: "merge_prev v c q = None \<Longrightarrow> map_of q u = Some e \<Longrightarrow> u \<le> v \<Longrightarrow> \<not> behind c u"
  by (auto simp: merge_prev_def find_None_iff dest: map_of_SomeD)

lemma merge_prev_Some:
  assumes "merge_prev v c q = Some (u, e)" "om_wf q"
  shows "map_of q u = Some e" "u \<le> v" "behind c u" "map_of q n = Some x \<Longrightarrow> n \<le> v \<Longrightarrow> behind c n \<Longrightarrow> n \<le> u"
proof -
  let ?P = "\<lambda>e. fst e \<le> v \<and> behind c (fst e)"
  obtain i where i: "i < length q" "?P (rev q ! i)" "(u, e) = rev q ! i" "\<forall>j<i. \<not> ?P (rev q ! j)"
    using assms(1) by (auto simp: merge_prev_def find_Some_iff)
  then show "u \<le> v" "behind c u" by (metis fst_conv)+
  have "(u, e) \<in> set q" using i(1,3) by (metis length_rev nth_mem set_rev)
  then show "map_of q u = Some e" using assms(2) by (simp add: om_wf_map_of_iff)
  assume "map_of q n = Some x" "n \<le> v" "behind c n"
  then obtain j where j: "j < length q" "rev q ! j = (n, x)" "?P (rev q ! j)"
    by (metis fst_conv in_set_conv_nth length_rev map_of_SomeD set_rev)
  then have "i \<le> j" using i(4) by (meson not_le)
  moreover have "sorted_wrt (\<lambda>a b. fst b < fst a) (rev q)" using assms(2) by (simp add: om_wf_def sorted_wrt_map sorted_wrt_rev)
  ultimately have "i = j \<or> fst (rev q ! j) < fst (rev q ! i)"
    using j(1) by (cases "i = j") (simp_all add: sorted_wrt_iff_nth_less)
  then show "n \<le> u" using i(3) j(2) by (metis Pair_inject fst_conv less_imp_le order_refl)
qed

lemma own_read:
  assumes "mem_ok ts ds s" "read_ok ds s pc" "read_next key s pc = (pc', s')"
  shows "s' = s \<and> read_ok ds s pc'"
proof -
  note D = mem_okD [OF assms(1)]
  note qf = queued_in_flight [OF assms(1)]
  show ?thesis
  proof (cases pc)
    case (RdScan v k c)
    show ?thesis
    proof (cases "merge_prev v c (ms_queue s)")
      case None
      have "\<not> in_flight s x" if "x \<in> set (ms_history s)" "k \<in> keys_of (snd x)" "fst x \<le> v" for x
      proof
        assume f: "in_flight s x"
        then have "\<not> behind c (fst x)" using merge_prev_None [OF None _ that(3)] by (simp add: in_flight_def)
        with f that assms(2) RdScan show False by (simp add: passed_settled_def)
      qed
      moreover have "pc' = RdStore v k" "s' = s" "v \<le> ms_timestamp s"
        using None RdScan assms(2,3) by (auto simp: passed_settled_def)
      ultimately show ?thesis by (simp add: passed_settled_def)
    next
      case (Some y)
      obtain u e where y: "y = (u, e)" by (cases y)
      note p = merge_prev_Some [OF Some [unfolded y] D(1)]
      have "\<not> in_flight s x" if "x \<in> set (ms_history s)" "k \<in> keys_of (snd x)" "fst x \<le> v" "u < fst x" for x
      proof
        assume f: "in_flight s x"
        then have "\<not> behind c (fst x)" using p(4) [of "fst x" "snd x"] that(3,4) by (auto simp: in_flight_def)
        with f that assms(2) RdScan show False by (simp add: passed_settled_def)
      qed
      moreover have "pc' = RdEntry v k u e" "s' = s" "v \<le> ms_timestamp s"
        using Some y RdScan assms(2,3) by (auto simp: passed_settled_def)
      ultimately show ?thesis using D(5) [OF p(1)] p(2) by (simp add: passed_settled_def)
    qed
  next
    case (RdEntry v k u e)
    have m: "(u, e) \<in> set (ms_history s)" "u \<le> v" "passed_settled s v k (\<lambda>n. u < n)" using assms(2) RdEntry by simp_all
    have scan: "passed_settled s v k (\<lambda>n. \<not> n < u)" if "\<not> in_flight s (u, e) \<or> k \<notin> keys_of e"
      using m(3) that history_unique [OF assms(1) m(1)] unfolding passed_settled_def
      by (metis linorder_neqE prod.collapse)
    show ?thesis
    proof (cases "map_of (ms_queue s) u = Some e")
      case False
      then show ?thesis using RdEntry assms(3) scan by (auto simp: in_flight_def)
    next
      case True
      then have f: "in_flight s (u, e)" by (simp add: in_flight_def)
      show ?thesis
      proof (cases "map_of (mg_writeset e) k")
        case None
        then show ?thesis using RdEntry assms(3) scan True map_of_keys [of e k] by auto
      next
        case (Some x)
        then show ?thesis
          using RdEntry assms(3) True flight_value(1) [OF assms(1) f Some, of _ v] m by (auto simp: passed_settled_def)
      qed
    qed
  next
    case (RdStore v k)
    let ?es = "on_key k (ms_history s)"
    have ps: "passed_settled s v k (\<lambda>_. True)" using assms(2) RdStore by simp
    have "last_value base (settled s ?es) k v = last_value base ?es k v" for base
      using key_okD(1) [OF D(10) refl, of k]
    proof
      assume "\<exists>x. ?es = settled s ?es @ [x]"
      then obtain u e where es: "?es = settled s ?es @ [(u, e)]" by auto
      have m: "(u, e) \<in> set ?es" by (subst es) simp
      show ?thesis
      proof (cases "in_flight s (u, e)")
        case True
        have "k \<in> keys_of e" "(u, e) \<in> set (ms_history s)" using m by (simp_all add: on_key_def)
        with True ps have "\<not> u \<le> v" unfolding passed_settled_def by (metis fst_conv snd_conv)
        then have "last_value base (settled s ?es @ [(u, e)]) k v = last_value base (settled s ?es) k v" by simp
        then show ?thesis using es by simp
      next
        case False
        moreover have "set ?es = insert (u, e) (set (settled s ?es))" by (subst (1) es) simp
        moreover have "\<forall>x\<in>set (settled s ?es). \<not> in_flight s x" by (simp add: settled_def)
        ultimately have "\<forall>x\<in>set ?es. \<not> in_flight s x" by (metis insert_iff)
        then have "settled s ?es = ?es" by (simp add: settled_def filter_id_conv)
        then show ?thesis by simp
      qed
    qed simp
    then have "store_fetch (ms_store s) k v = last_value (store_fetch ds k v) (ms_history s) k v"
      using key_okD(2) [OF D(10) refl, of k v] by (auto simp: last_value_on_key)
    then show ?thesis using RdStore assms(3) ps by (auto simp: passed_settled_def store_fetch_def)
  qed (use assms in \<open>auto simp: passed_settled_def\<close>)
qed


lemma own_write:
  assumes "mem_ok ts ds s" "merge_thread_ok ds s (Writer ws pc)" "merge_tidy l s (Writer ws pc) us"
    and "write_next time ws s pc = (pc', s')"
  shows "mem_ok ts ds s' \<and> merge_thread_ok ds s' (Writer ws pc') \<and> mem_step ds (Writer ws pc) s s'"
proof -
  note D = mem_okD [OF assms(1)]
  have ws: "om_wf ws" "write_ok ds s pc"
    "\<And>e. merge_carries (Writer ws pc) = Some e \<Longrightarrow> mg_writeset e = ws \<and> mg_id e \<le> ms_merge_id s"
    using assms(2) by auto
  have b: "ms_merge_id s < u64_MAX" using assms(3) by (simp add: merge_tidy_def merge_any_def)
  show ?thesis
  proof (cases pc)
    case WTakeId
    have lt: "ms_merge_id s < ms_merge_id s + 1" by (rule u64_less_Suc [OF b])
    then have s': "s' = s\<lparr>ms_merge_id := ms_merge_id s + 1\<rparr>" "pc' = WClock \<lparr>mg_id = ms_merge_id s + 1, mg_writeset = ws\<rparr>"
      using WTakeId assms(4) by auto
    have "mem_ok ts ds s'"
      using assms(1) lt by (fastforce simp: mem_ok_def s'(1) key_ok_def settled_def in_flight_def)
    moreover have "fresh_merge s' \<lparr>mg_id = ms_merge_id s + 1, mg_writeset = ws\<rparr>"
      using D(8) lt by (fastforce simp: fresh_merge_def s'(1))
    moreover have "mem_step ds (Writer ws pc) s s'" using lt by (intro mem_step_cong) (simp_all add: s'(1))
    ultimately show ?thesis using ws(1) by (simp add: s')
  next
    case (WInsert e u)
    have e: "mg_writeset e = ws" "mg_id e \<le> ms_merge_id s" "fresh_merge s e" using ws(2) ws(3) [of e] WInsert by simp_all
    show ?thesis
    proof (cases "map_of (ms_queue s) u")
      case None
      then have s': "s' = s\<lparr>ms_queue := om_insert u e (ms_queue s), ms_history := ms_history s @ [(u, e)]\<rparr>" "pc' = WRaise e u"
        using WInsert assms(4) by (auto simp: om_get_or_insert_def)
      have q: "ms_timestamp s < u" "\<forall>x\<in>set (ms_queue s). keys_of (snd x) \<inter> keys_of e = {}"
        using assms(3) WInsert None by (simp_all add: merge_tidy_def)
      have t: "ms_timestamp s < u" "\<And>x. in_flight s x \<Longrightarrow> keys_of (snd x) \<inter> keys_of e = {}"
        using q(1) q(2) [rule_format, OF map_of_SomeD] by (simp_all add: in_flight_def)
      have m: "mem_ok ts ds s'" "in_flight s' (u, e)" "\<And>x. x \<in> set (ms_history s) \<Longrightarrow> in_flight s' x = in_flight s x"
        using enter_write [OF assms(1) None t(1) t(2) _ e(2) s'(1)] ws(1) e(1) by auto
      have "installed ds s' k" if "in_flight s x" "k \<in> keys_of (snd x)" "installed ds s k" for k x
      proof -
        have "k \<notin> keys_of e" using t(2) [OF that(1)] that(2) by (meson disjoint_iff)
        then have "map_of (mg_writeset e) k = None" by (simp only: map_of_keys not_False_eq_True)
        then show ?thesis using that(3) by (simp add: installed_def s'(1))
      qed
      then have "mem_step ds (Writer ws pc) s s'"
        using m(3) D(6) t(1) WInsert unfolding mem_step_def by (auto simp: s'(1))
      then show ?thesis using m ws(1) e by (simp add: s'(2)) (simp add: s'(1))
    next
      case (Some x)
      then have "mg_id e \<noteq> mg_id x" using e(3) D(5) by (fastforce simp: fresh_merge_def)
      then have "s' = s" "pc' = WClock e" using Some WInsert assms(4) by (auto simp: om_get_or_insert_def)
      then show ?thesis using assms(1) ws(1) e mem_step_refl by simp
    qed
  next
    case (WRaise e u)
    then have s': "s' = s\<lparr>ms_timestamp := max (ms_timestamp s) u\<rparr>" "pc' = WStore e u ws"
      using assms(4) ws(3) [of e] by auto
    have "mem_ok ts ds s'"
      using assms(1) by (fastforce simp: mem_ok_def s'(1) key_ok_def settled_def in_flight_def max_def)
    moreover have "mem_step ds (Writer ws pc) s s'" by (intro mem_step_cong) (simp_all add: s'(1))
    ultimately show ?thesis using WRaise ws by (simp add: s'(2)) (simp add: s'(1) in_flight_def)
  next
    case (WStore e u rest)
    have e: "mg_writeset e = ws" "mg_id e \<le> ms_merge_id s" using ws(3) [of e] WStore by simp_all
    have f: "in_flight s (u, e)" "u \<le> ms_timestamp s" "set rest \<subseteq> set ws" "\<forall>k\<in>keys_of e - fst ` set rest. installed ds s k"
      using ws(2) WStore e by auto
    show ?thesis
    proof (cases rest)
      case Nil
      then have s': "s' = s\<lparr>ms_queue := om_remove u (ms_queue s)\<rparr>" "pc' = WDone u" using WStore assms(4) by auto
      have m: "mem_ok ts ds s'" "\<And>x. x \<in> set (ms_history s) \<Longrightarrow> in_flight s' x \<longleftrightarrow> in_flight s x \<and> x \<noteq> (u, e)"
        using leave_write [OF assms(1) f(1,2) _ s'(1)] f(4) Nil by auto
      have "mem_step ds (Writer ws pc) s s'"
        using m(2) D(6) WStore unfolding mem_step_def by (auto simp: s'(1) installed_def)
      then show ?thesis using m(1) ws(1) by (simp add: s'(2))
    next
      case (Cons kx rest')
      obtain k x where kx: "kx = (k, x)" by (cases kx)
      have s': "pc' = WPush e u k x rest'"
        "s' = s\<lparr>ms_store := snd (om_get_or_insert k (Versions_from \<lparr>version = u, value_of = x\<rparr>) (ms_store s))\<rparr>"
        using WStore Cons kx assms(4) by auto
      have k: "(k, x) \<in> set (mg_writeset e)" using f(3) Cons kx e by auto
      have w: "mem_ok ts ds s'" "map_of (ms_store s') k \<noteq> None"
        "\<And>k' v. k' \<noteq> k \<Longrightarrow> store_fetch (ms_store s') k' v = store_fetch (ms_store s) k' v"
        using slot_write [OF assms(1) f(1) k s'(2)] by auto
      have st: "mem_step ds (Writer ws pc) s s'"
        by (rule mem_step_chain [OF assms(1) f(1) _ _ s'(2)])
          (use k w(3) WStore in \<open>auto simp: s'(2) om_get_or_insert_def om_simps rev_image_eqI split: option.splits\<close>)
      have "installed ds s' k'" if "k' \<in> keys_of e - fst ` set ((k, x) # rest')" for k'
        using that f(4) w(3) [of k'] Cons kx by (auto simp: installed_def s'(2))
      then show ?thesis using w(1,2) st ws(1) e f Cons kx by (auto simp: s'(1) in_flight_def) (auto simp: s'(2))
    qed
  next
    case (WPush e u k x rest)
    have e: "mg_writeset e = ws" "mg_id e \<le> ms_merge_id s" using ws(3) [of e] WPush by simp_all
    have f: "in_flight s (u, e)" "u \<le> ms_timestamp s" "set ((k, x) # rest) \<subseteq> set (mg_writeset e)"
      "map_of (ms_store s) k \<noteq> None" "\<forall>k'\<in>keys_of e - fst ` set ((k, x) # rest). installed ds s k'"
      using ws(2) WPush by simp_all
    then obtain vs where vs: "map_of (ms_store s) k = Some vs" by blast
    have s': "pc' = WStore e u rest" "s' = s\<lparr>ms_store := om_insert k (push vs \<lparr>version = u, value_of = x\<rparr>) (ms_store s)\<rparr>"
      using WPush vs assms(4) by auto
    have k: "(k, x) \<in> set (mg_writeset e)" using f(3) by auto
    have w: "mem_ok ts ds s'" "installed ds s' k"
      "\<And>k' v. k' \<noteq> k \<Longrightarrow> store_fetch (ms_store s') k' v = store_fetch (ms_store s) k' v"
      using push_write [OF assms(1) f(1) k vs s'(2)] by auto
    have st: "mem_step ds (Writer ws pc) s s'"
      by (rule mem_step_chain [OF assms(1) f(1) _ _ s'(2)])
        (use k w(3) WPush in \<open>auto simp: s'(2) om_simps rev_image_eqI\<close>)
    have "installed ds s' k'" if "k' \<in> keys_of e - fst ` set rest" for k'
    proof (cases "k' = k")
      case False
      then show ?thesis using that f(5) w(3) [of k'] by (auto simp: installed_def s'(2))
    qed (use w(2) in simp)
    then show ?thesis using w(1) st ws(1) e f by (auto simp: s'(1) in_flight_def) (auto simp: s'(2))
  qed (use assms ws mem_step_refl in \<open>auto simp: Let_def\<close>)
qed


lemma carries_step:
  assumes "merge_tidy l s t us" "merge_next l s t = (t', s')" "merge_carries t' = Some e"
  shows "merge_carries t = Some e \<or> ms_merge_id s < mg_id e"
proof (cases t)
  case (Writer ws pc)
  have "ms_merge_id s < ms_merge_id s + 1" using assms(1) by (intro u64_less_Suc) (simp add: merge_tidy_def merge_any_def)
  then show ?thesis
    using assms(2,3) Writer
    by (cases "(fst l, ws, s, pc)" rule: write_next.cases) (auto simp: Let_def split: prod.splits option.splits if_splits)
next
  case (Reader pc)
  then show ?thesis using assms(2,3) by (auto split: prod.splits)
qed

lemma merge_access:
  assumes "mem_ok ts ds s" "merge_thread_ok ds s t" "merge_tidy l s t us" "merge_next l s t = (t', s')"
  shows "mem_ok ts ds s' \<and> merge_thread_ok ds s' t' \<and> mem_step ds t s s'"
proof (cases t)
  case (Writer ws pc)
  obtain pc' where "write_next (fst l) ws s pc = (pc', s')" "t' = Writer ws pc'"
    using assms(4) Writer by (auto split: prod.splits)
  then show ?thesis using own_write [OF assms(1)] assms(2,3) Writer by blast
next
  case (Reader pc)
  obtain pc' where r: "read_next (snd l) s pc = (pc', s')" and t': "t' = Reader pc'"
    using assms(4) Reader by (auto split: prod.splits)
  have "s' = s" "read_ok ds s pc'" using own_read [OF assms(1) _ r] assms(2) Reader by simp_all
  then show ?thesis using assms(1) t' mem_step_refl by simp
qed

lemma distinct_step:
  assumes "merge_tidy l s t us" "merge_next l s t = (t', s')" "merge_thread_ok ds s u" "distinct_merges s t u"
  shows "distinct_merges s' t' u" "distinct_merges s' u t'"
proof -
  have "mg_id e \<noteq> mg_id e'" if "merge_carries t' = Some e" "merge_carries u = Some e'" for e e'
    using carries_step [OF assms(1,2) that(1)]
  proof
    assume "merge_carries t = Some e"
    then show ?thesis using assms(4) that(2) by (auto simp: distinct_merges_def)
  next
    assume n: "ms_merge_id s < mg_id e"
    have "mg_id e' \<le> ms_merge_id s" using assms(3) that(2) by (cases u) auto
    with n show ?thesis by auto
  qed
  then show "distinct_merges s' t' u" "distinct_merges s' u t'" by (fastforce simp: distinct_merges_def)+
qed

interpretation merging: pool_invariant merge_next merge_tidy "mem_ok ts ds" "merge_thread_ok ds" distinct_merges for ts ds
proof
  fix s t l us t' s'
  assume s: "mem_ok ts ds s" "merge_thread_ok ds s t" "merge_tidy l s t us" "merge_next l s t = (t', s')"
  note a = merge_access [OF s]
  show "mem_ok ts ds s' \<and> merge_thread_ok ds s' t'" using a by blast
  fix u assume u: "u \<in> set us" "merge_thread_ok ds s u" "distinct_merges s t u"
  show "merge_thread_ok ds s' u \<and> distinct_merges s' t' u \<and> distinct_merges s' u t'"
    using other_merge a u distinct_step [OF s(3,4) u(2,3)] by blast
  fix w assume "distinct_merges s u w"
  then show "distinct_merges s' u w" by (simp add: distinct_merges_def)
qed

lemma merge_start_ok:
  assumes "store_wf ds" "store_newest_le ds ts" "\<forall>ws\<in>set wss. om_wf ws"
  shows "merging.pool_ok ts ds (merge_start ts ds wss n)"
proof -
  let ?s = "fst (merge_start ts ds wss n)" and ?ts = "snd (merge_start ts ds wss n)"
  have "key_ok ts ds ?s k" for k
    using store_newest_get [OF assms(2)] by (simp add: key_ok_def merge_start_def on_key_def settled_def tip_def)
  then have "mem_ok ts ds ?s" using assms(1) by (simp add: mem_ok_def merge_start_def)
  moreover have "merge_thread_ok ds ?s t \<and> merge_carries t = None" if "t \<in> set ?ts" for t
    using that assms(3) by (auto simp: merge_start_def)
  ultimately show ?thesis
    unfolding merging.pool_ok_def distinct_merges_def by (simp add: nth_mem)
qed

text \<open>A read shows the accepted merges its snapshot reaches.\<close>

lemma tidy_read:
  assumes "pool_steps merge_next merge_tidy (merge_start ts ds wss n) (s, us)"
    and "store_wf ds" "store_newest_le ds ts" "\<forall>ws\<in>set wss. om_wf ws"
    and "Reader (RdGot v k x) \<in> set us"
  shows "x = last_value (store_fetch ds k v) (ms_history s) k v" "v \<le> ms_timestamp s"
proof -
  have inv: "merging.pool_ok ts ds (s, us)"
    using merging.steps_ok [OF assms(1) merge_start_ok [OF assms(2-4)]] .
  obtain i where "i < length us" "us ! i = Reader (RdGot v k x)" using assms(5) by (auto simp: in_set_conv_nth)
  then have "merge_thread_ok ds s (Reader (RdGot v k x))" using merging.pool_okD(2) [OF inv] by metis
  then show "x = last_value (store_fetch ds k v) (ms_history s) k v" "v \<le> ms_timestamp s" by simp_all
qed

lemma tidy_history:
  assumes "pool_steps merge_next merge_tidy p p'" "merging.pool_ok ts ds p" "v \<le> ms_timestamp (fst p)"
  shows "last_value base (ms_history (fst p')) k v = last_value base (ms_history (fst p)) k v \<and> v \<le> ms_timestamp (fst p')"
  using assms
proof (induction rule: rtranclp_induct)
  case base
  then show ?case by simp
next
  case (step q r)
  have inv: "merging.pool_ok ts ds q" using merging.steps_ok [OF step.hyps(1) step.prems(1)] .
  from step.hyps(2) show ?case
  proof (cases rule: pool_step.cases)
    case (move i us l s t' s')
    have "mem_step ds (us ! i) s s'"
      using merge_access [OF merging.pool_okD(1,2) [OF inv [unfolded move(1)]] move(4,5)] move(3) by blast
    then show ?thesis
      using step.IH [OF step.prems] last_value_step [of ds "us ! i" s s' v] by (auto simp: move mem_step_def)
  qed
qed

section \<open>Runs that are not tidy\<close>

text \<open>The thread that moves and the clock it would read; every read asks for the same key.\<close>

definition asking :: "bytes \<Rightarrow> (nat \<times> u64) list \<Rightarrow> (nat \<times> (u64 \<times> bytes)) list" where
  "asking k sched = map (\<lambda>(i, time). (i, (time, k))) sched"

text \<open>A merge that chose its version early and enters late, below a snapshot that has been opened since.\<close>

definition until_first_read :: "(nat \<times> u64) list" where
  "until_first_read = [(0, 6), (0, 6), (0, 6), (1, 8), (1, 8), (1, 8), (1, 8), (1, 8), (2, 0), (2, 0), (2, 0), (2, 0), (2, 0), (2, 0)]"

definition entry_and_second_read :: "(nat \<times> u64) list" where
  "entry_and_second_read = [(0, 6), (2, 0), (2, 0), (2, 0), (2, 0), (2, 0), (2, 0)]"

lemma late_entry_run:
  assumes "k \<noteq> k'"
  shows "\<exists>s w s' w' w2. pool_run merge_next merge_any (asking k until_first_read)
      (merge_start 5 [(k, Versions_from \<lparr>version = 3, value_of = Some x\<rparr>)] [[(k, Some y)], [(k', z)]] 1)
      = Some (s, [w, w2, Reader (RdGot 8 k (Some x))])
    \<and> pool_run merge_next merge_any (asking k entry_and_second_read) (s, [w, w2, Reader (RdGot 8 k (Some x))])
      = Some (s', [w', w2, Reader (RdGot 8 k (Some y))])"
  using assms
  by (simp add: asking_def until_first_read_def entry_and_second_read_def merge_start_def merge_any_def
      om_get_or_insert_def merge_prev_def Let_def fetch_version_from)

text \<open>A merge that enters after another of the same key and leaves before it: its value is hidden by the
  older one until that leaves too.\<close>

definition until_hidden_read :: "(nat \<times> u64) list" where
  "until_hidden_read = [(0, 6), (0, 6), (0, 6), (0, 6), (0, 6), (1, 8), (1, 8), (1, 8), (1, 8), (1, 8), (1, 8), (1, 8), (1, 8),
      (2, 0), (2, 0), (2, 0), (2, 0)]"

definition leave_and_second_read :: "(nat \<times> u64) list" where
  "leave_and_second_read = [(0, 6), (0, 6), (0, 6), (2, 0), (2, 0), (2, 0), (2, 0)]"

lemma chain_out_of_order:
  "fetch_version (push (push (Versions_from \<lparr>version = 8, value_of = Some y\<rparr>) \<lparr>version = 8, value_of = Some y\<rparr>)
      \<lparr>version = 6, value_of = Some x\<rparr>) 8 = Some y"
  by (simp add: Versions_from_def push_def push_slow_def fetch_index_or_update_def find_index_lte_version_def
      fetch_version_def insert_at_def rposition_def Let_def)

lemma overtaking_run:
  "\<exists>s w s' w' w2. pool_run merge_next merge_any (asking k until_hidden_read)
      (merge_start 5 [] [[(k, Some x)], [(k, Some y)]] 1)
      = Some (s, [w, w2, Reader (RdGot 8 k (Some x))])
    \<and> pool_run merge_next merge_any (asking k leave_and_second_read) (s, [w, w2, Reader (RdGot 8 k (Some x))])
      = Some (s', [w', w2, Reader (RdGot 8 k (Some y))])"
  by (simp add: asking_def until_hidden_read_def leave_and_second_read_def merge_start_def merge_any_def
      om_get_or_insert_def merge_prev_def Let_def fetch_version_from om_remove_def chain_out_of_order)

end
