(* ===== verification/Interleaving.thy ===== *)
theory Interleaving
  imports Recovery
begin

text \<open>
  A commit seen from other threads (\<open>TransactionInner::commit\<close>): it is visible in two places, first when
  its entry and the new commit number are published, then when its version is merged and installed.
  The commit of theory \<open>Transaction\<close> is the composition of the two; here another call runs in between.
\<close>

section \<open>The two halves of a commit\<close>

datatype published =
    Finished "Error + unit" TransactionInner Inner
  | Published writeset TransactionInner Inner

definition commit_publish :: "world \<Rightarrow> TransactionInner \<Rightarrow> Inner \<Rightarrow> published option" where
  "commit_publish w self db =
     (if tx_done self then Some (Finished (Inl TxClosed) self db)
      else
        let self = self\<lparr>tx_done := True\<rparr> in
        if tx_writeset self = [] then Some (Finished (Inr ()) self db)
        else
          let ws = tx_writeset self;
              self = self\<lparr>tx_writeset := []\<rparr>;
              queue_id = transaction_queue_id db + 1;
              db = db\<lparr>transaction_queue_id := queue_id\<rparr> in
          (case auto_commit (w_others w) 0 (build_commit queue_id ws) db of
             None \<Rightarrow> None
           | Some (ver, entry, db) \<Rightarrow>
               let conflict =
                     (if tx_mode self \<ge> SnapshotIsolation
                      then conflict_scan (tx_mode self) entry (tx_readset self) (tx_readeset_bloom self)
                             (commit_range (tx_commit self + 1) ver (transaction_commit_queue db))
                      else None) in
               (case conflict of
                  Some e \<Rightarrow>
                    Some (Finished (Inl e) (clear_writeset (clear_readset self))
                      (db\<lparr>transaction_commit_queue := om_remove ver (transaction_commit_queue db)\<rparr>))
                | None \<Rightarrow> Some (Published ws self db))))"

lemma commit_split:
  "commit w tx db =
     (case commit_publish w tx db of
        None \<Rightarrow> None
      | Some (Finished r tx' db') \<Rightarrow> Some (r, tx', db')
      | Some (Published ws tx' db') \<Rightarrow> commit_apply w ws tx' db')"
  by (simp add: commit_def commit_publish_def Let_def split: option.splits prod.splits)

text \<open>The state between the halves.\<close>

definition published_state :: "TransactionInner \<Rightarrow> Inner \<Rightarrow> Inner" where
  "published_state tx db =
     db\<lparr>transaction_queue_id := transaction_queue_id db + 1,
        transaction_commit_queue := om_insert (transaction_commit_id db + 1)
          (build_commit (transaction_queue_id db + 1) (tx_writeset tx)) (transaction_commit_queue db),
        transaction_commit_id := transaction_commit_id db + 1\<rparr>"

lemma publish_passing:
  assumes "inner_wf db" "transaction_commit_id db < u64_MAX" "\<not> tx_done tx" "tx_writeset tx \<noteq> []"
    and "commit_conflict tx db = None"
  shows "commit_publish w tx db
    = Some (Published (tx_writeset tx) (tx\<lparr>tx_done := True, tx_writeset := []\<rparr>) (published_state tx db))"
proof -
  have q: "queue_wf (transaction_commit_queue db) (transaction_commit_id db)"
    using assms(1) by (simp add: inner_wf_def)
  show ?thesis
    using assms(3-5) queue_next_free [OF q assms(2)]
    by (simp add: commit_publish_def auto_commit_free Let_def commit_range_insert commit_conflict_def published_state_def)
qed

lemma publish_conflicting:
  assumes "inner_wf db" "transaction_commit_id db < u64_MAX" "\<not> tx_done tx" "tx_writeset tx \<noteq> []"
    and "commit_conflict tx db = Some e"
  shows "\<exists>self db'. commit_publish w tx db = Some (Finished (Inl e) self db')"
proof -
  have q: "queue_wf (transaction_commit_queue db) (transaction_commit_id db)"
    using assms(1) by (simp add: inner_wf_def)
  show ?thesis
    using assms(3-5) queue_next_free [OF q assms(2)]
    by (simp add: commit_publish_def auto_commit_free Let_def commit_range_insert commit_conflict_def)
qed

text \<open>Opening a transaction changes the counters only, so the second half does what it would have done.\<close>

lemma apply_passing:
  fixes w :: world
  assumes "inner_wf db"
  defines "ver \<equiv> candidate_version (ts_oracle db) (w_clock w 0)"
  shows "commit_apply w (tx_writeset tx) (tx\<lparr>tx_done := True, tx_writeset := []\<rparr>)
      ((published_state tx db)\<lparr>counter_by_oracle := tv, counter_by_commit := tc\<rparr>)
    = Some (fst (append_outcome w ver (tx_writeset tx) db), closed_tx tx,
        (committed_state ver tx db (snd (append_outcome w ver (tx_writeset tx) db)))
          \<lparr>counter_by_oracle := tv, counter_by_commit := tc\<rparr>)"
proof -
  have m: "transaction_merge_queue db = []" using assms(1) by (simp add: inner_wf_def)
  have rm: "om_remove v [(v, x)] = []" for v and x :: Merge by (simp add: om_remove_def)
  show ?thesis
    unfolding commit_apply_def published_state_def using m
    by (cases db) (auto simp: Let_def atomic_merge_free fold_store_write remove_merge_def ver_def rm
        append_outcome_def committed_state_def split: option.splits prod.splits sum.splits)
qed

lemma published_inv:
  assumes "sys_inv s" "tx_wf tx" "tx_writeset tx \<noteq> []" "transaction_commit_id (sys_inner s) < u64_MAX"
  shows "sys_inv (s\<lparr>sys_db := (sys_db s)\<lparr>db_inner := published_state tx (sys_inner s)\<rparr>\<rparr>)"
proof -
  let ?db = "sys_inner s"
  have "queue_wf (transaction_commit_queue ?db) (transaction_commit_id ?db)" "inner_wf ?db"
    using assms(1) by (simp_all add: sys_inv_def inner_wf_def)
  moreover have "commit_wf (build_commit (transaction_queue_id ?db + 1) (tx_writeset tx))"
    using assms(2,3) by (simp add: build_commit_wf tx_wf_def)
  ultimately have "inner_wf (published_state tx ?db)"
    using u64_less_Suc [OF assms(4)] less_imp_le order_trans
    by (fastforce simp: inner_wf_def queue_wf_def published_state_def set_om_insert om_wf_insert)
  then show ?thesis
    using assms(1) u64_less_Suc [OF assms(4)]
    by (fastforce simp: sys_inv_def live_ok_def published_state_def)
qed

section \<open>A transaction opened between the halves\<close>

text \<open>
  It starts from the old version and from the new commit number: what the first commit wrote is
  neither in its snapshot nor among the entries its own commit is checked against.
\<close>

lemma opened_between:
  assumes "sys_inv s" "map_of (live s) i = Some tx" "\<not> tx_done tx" "tx_writeset tx \<noteq> []"
    and "commit_conflict tx (sys_inner s) = None" "persistence (sys_inner s) = None"
    and "transaction_commit_id (sys_inner s) + 1 < u64_MAX" "transaction_commit_id (sys_inner s) < u64_MAX"
    and "timestamp (ts_oracle (sys_inner s)) < u64_MAX" "Suc (length (live s)) < 2 ^ 64 - 1"
    and "commit_publish w tx (sys_inner s) = Some (Published ws self inner1)"
    and "transaction ((sys_db s)\<lparr>db_inner := inner1\<rparr>) True = Some (tx2, db2)"
  shows "\<exists>inner3. commit_apply w ws self (db_inner db2) = Some (Inr (), closed_tx tx, inner3)
    \<and> fetch_in_datastore inner3 k (tx_version tx2)
        = fetch_in_datastore (sys_inner s) k (timestamp (ts_oracle (sys_inner s)))
    \<and> (\<exists>tx3 inner4. commit w2 (snd (set_value k v tx2)) inner3 = Some (Inr (), tx3, inner4))"
proof -
  let ?db = "sys_inner s"
  let ?ver = "candidate_version (ts_oracle ?db) (w_clock w 0)"
  have wf: "inner_wf ?db" using assms(1) by (simp add: sys_inv_def)
  have txw: "tx_wf tx" using sys_inv_live(1) [OF assms(1,2)] by (simp add: live_ok_def)
  have p: "ws = tx_writeset tx" "self = tx\<lparr>tx_done := True, tx_writeset := []\<rparr>" "inner1 = published_state tx ?db"
    using assms(11) publish_passing [OF wf assms(8,3,4,5)] by simp_all
  let ?s1 = "s\<lparr>sys_db := (sys_db s)\<lparr>db_inner := published_state tx ?db\<rparr>\<rparr>"
  have t: "transaction (sys_db ?s1) True = Some (tx2, db2)" and cap: "Suc (length (live ?s1)) < 2 ^ 64 - 1"
    using assms(10,12) by (simp_all add: p(3))
  obtain tv tc where b1: "db_inner db2 = (sys_inner ?s1)\<lparr>counter_by_oracle := tv, counter_by_commit := tc\<rparr>"
    "tx_version tx2 = timestamp (ts_oracle (sys_inner ?s1))" "tx_commit tx2 = transaction_commit_id (sys_inner ?s1)"
    "tx_mode tx2 = SnapshotIsolation" "\<not> tx_done tx2" "tx_write tx2 = True" "tx_writeset tx2 = []"
    by (rule begin_effect [OF published_inv [OF assms(1) txw assms(4,8)] t cap])
  then have b: "db_inner db2 = (published_state tx ?db)\<lparr>counter_by_oracle := tv, counter_by_commit := tc\<rparr>"
    "tx_version tx2 = timestamp (ts_oracle ?db)" "tx_commit tx2 = transaction_commit_id ?db + 1"
    by (simp_all add: published_state_def)
  define inner3 where "inner3 = (committed_state ?ver tx ?db None)\<lparr>counter_by_oracle := tv, counter_by_commit := tc\<rparr>"
  have a: "commit_apply w ws self (db_inner db2) = Some (Inr (), closed_tx tx, inner3)"
    using apply_passing [OF wf, where w = w and tx = tx and tv = tv and tc = tc] assms(6) by (simp add: p b(1) append_outcome_def inner3_def)
  have above: "timestamp (ts_oracle ?db) < ?ver" by (rule candidate_above [OF assms(9)])
  note c = committed_state_props [OF wf txw assms(4,8) above]
  have wf3: "inner_wf inner3" using c(1) by (simp add: inner3_def inner_wf_def)
  have "fetch_in_datastore inner3 k (tx_version tx2) = fetch_in_datastore ?db k (timestamp (ts_oracle ?db))"
    unfolding fetch_in_datastore_quiet [OF wf3] fetch_in_datastore_quiet [OF wf]
    using c(2) [OF above] by (simp add: b(2) inner3_def)
  moreover have "commit w2 (snd (set_value k v tx2)) inner3
      = Some (Inr (), closed_tx (snd (set_value k v tx2)),
          committed_state (candidate_version (ts_oracle inner3) (w_clock w2 0)) (snd (set_value k v tx2)) inner3 None)"
  proof -
    have i: "transaction_commit_id inner3 = transaction_commit_id ?db + 1" "persistence inner3 = None"
      by (simp_all add: inner3_def committed_state_def)
    have "commit_conflict (snd (set_value k v tx2)) inner3 = None"
      using b b1(4-7) by (simp add: commit_conflict_def set_value_def i)
    from commit_passing [OF wf3 _ _ _ this, of w2] show ?thesis
      using b1(4-7) assms(7) by (simp add: set_value_def append_outcome_def i)
  qed
  ultimately show ?thesis using a by blast
qed

end
