(* ===== verification/Undisturbed.thy ===== *)
theory Undisturbed
  imports Publishing_Progress Merging_Reads Interleaving
begin

text \<open>
  The interleaved machines against the sequential functions: a committer, a writer and a reader that run
  alone do what \<open>commit_publish\<close>, \<open>commit_apply\<close> and \<open>fetch_in_datastore\<close> do.
\<close>

section \<open>Undisturbed commits\<close>

text \<open>A thread that runs alone.\<close>

definition commit_alone :: "job \<Rightarrow> pub_pc \<times> commit_shared \<Rightarrow> pub_pc \<times> commit_shared" where
  "commit_alone j p = commit_next j (snd p) (fst p)"

lemma alone_step: "commit_next j s pc = (pc', s') \<Longrightarrow> (commit_alone j ^^ n) (pc', s') = r \<Longrightarrow> (commit_alone j ^^ Suc n) (pc, s) = r"
  by (simp add: commit_alone_def funpow_Suc_right del: funpow.simps)

lemma filter_find:
  assumes "sorted_wrt (\<lambda>a b. R (fst a) (fst b)) q" "find P q = Some (k, x)" "\<And>n. \<not> R n n" "\<And>m n. R m n \<Longrightarrow> \<not> R n m"
  shows "filter P q = (k, x) # filter (\<lambda>e. P e \<and> R k (fst e)) q"
  using assms(1,2)
proof (induction q)
  case (Cons e q)
  show ?case
  proof (cases "P e")
    case True
    then have e: "e = (k, x)" using Cons.prems(2) by simp
    moreover have "filter (\<lambda>e. P e \<and> R k (fst e)) q = filter P q"
      using Cons.prems(1) e by (intro filter_cong) auto
    ultimately show ?thesis using True assms(3) by simp
  qed (use Cons in simp)
qed simp

abbreviation in_range :: "u64 \<Rightarrow> u64 \<Rightarrow> u64 option \<Rightarrow> u64 \<times> Commit \<Rightarrow> bool" where
  "in_range lo hi cursor e \<equiv> lo \<le> fst e \<and> fst e < hi \<and> ahead cursor (fst e)"

lemma alone_scan:
  assumes "om_wf (sh_commit_queue s)"
  shows "\<exists>n. (commit_alone j ^^ n) (CScan c e v k, s)
    = (case conflict_scan (jb_mode j) e (jb_readset j) (jb_bloom j)
              (map snd (filter (in_range (c + 1) v k) (sh_commit_queue s))) of
         None \<Rightarrow> (CPublished c e v, s) | Some x \<Rightarrow> (CRemove c e v x, s))"
proof (induction "length (filter (in_range (c + 1) v k) (sh_commit_queue s))" arbitrary: k rule: less_induct)
  case less
  let ?q = "sh_commit_queue s"
  show ?case
  proof (cases "range_next (c + 1) v k ?q")
    case None
    then have "filter (in_range (c + 1) v k) ?q = []" by (auto simp: range_next_def find_None_iff filter_empty_conv)
    then show ?thesis using None by (intro exI [of _ "Suc 0"] alone_step [where n = 0]) simp_all
  next
    case (Some y)
    obtain k' tx where y: "y = (k', tx)" by (cases y)
    have "ahead k k'" using find_SomeD [OF Some [unfolded range_next_def]] y by simp
    then have a: "ahead k n \<and> k' < n \<longleftrightarrow> ahead (Some k') n" for n by (cases k) auto
    have f: "filter (in_range (c + 1) v k) ?q = (k', tx) # filter (in_range (c + 1) v (Some k')) ?q"
      using filter_find [of "(<)" ?q "in_range (c + 1) v k" k' tx] assms Some y a
      by (simp add: om_wf_def sorted_wrt_map range_next_def conj_assoc)
    have go: "\<exists>n. (commit_alone j ^^ n) (CScan c e v (Some k'), s)
      = (case conflict_scan (jb_mode j) e (jb_readset j) (jb_bloom j) (map snd (filter (in_range (c + 1) v (Some k')) ?q)) of
         None \<Rightarrow> (CPublished c e v, s) | Some x \<Rightarrow> (CRemove c e v x, s))"
      by (rule less) (simp add: f)
    then obtain n where n: "(commit_alone j ^^ n) (CScan c e v (Some k'), s)
      = (case conflict_scan (jb_mode j) e (jb_readset j) (jb_bloom j) (map snd (filter (in_range (c + 1) v (Some k')) ?q)) of
         None \<Rightarrow> (CPublished c e v, s) | Some x \<Rightarrow> (CRemove c e v x, s))" by blast
    show ?thesis
    proof (cases "is_disjoint_writeset_bloom tx e \<and>
        (jb_mode j \<ge> SerializableSnapshotIsolation \<longrightarrow> is_disjoint_readset_bloom tx (jb_readset j) (jb_bloom j))")
      case True
      then have "commit_next j s (CScan c e v k) = (CScan c e v (Some k'), s)" using Some y by auto
      from alone_step [OF this n] True show ?thesis by (intro exI [of _ "Suc n"]) (auto simp: f)
    next
      case False
      then show ?thesis using Some y by (intro exI [of _ "Suc 0"] alone_step [where n = 0]) (auto simp: f)
    qed
  qed
qed


definition commit_memory :: "Inner \<Rightarrow> commit_shared" where
  "commit_memory db = \<lparr>sh_queue_id = transaction_queue_id db, sh_commit_id = transaction_commit_id db,
     sh_commit_queue = transaction_commit_queue db\<rparr>"

definition job_of_tx :: "TransactionInner \<Rightarrow> job" where
  "job_of_tx tx = \<lparr>jb_mode = tx_mode tx, jb_writeset = tx_writeset tx, jb_readset = tx_readset tx, jb_bloom = tx_readeset_bloom tx\<rparr>"

lemma alone_publish:
  assumes "queue_wf (transaction_commit_queue db) (transaction_commit_id db)" "transaction_commit_id db < u64_MAX"
    and "\<not> tx_done tx" "tx_writeset tx \<noteq> []"
  shows "case commit_publish w tx db of
      None \<Rightarrow> False
    | Some (Published ws self db') \<Rightarrow>
        \<exists>n e. (commit_alone (job_of_tx tx) ^^ n) (CTakeId (tx_commit tx), commit_memory db)
          = (CPublished (tx_commit tx) e (transaction_commit_id db + 1), commit_memory db')
    | Some (Finished r self db') \<Rightarrow>
        \<exists>n x. r = Inl x \<and> (commit_alone (job_of_tx tx) ^^ n) (CTakeId (tx_commit tx), commit_memory db)
          = (CFailed x, commit_memory db')"
proof -
  let ?j = "job_of_tx tx" and ?c = "tx_commit tx" and ?v = "transaction_commit_id db + 1"
  let ?e = "build_commit (transaction_queue_id db + 1) (tx_writeset tx)"
  let ?q = "om_insert ?v ?e (transaction_commit_queue db)"
  let ?s = "\<lparr>sh_queue_id = transaction_queue_id db + 1, sh_commit_id = ?v, sh_commit_queue = ?q\<rparr>"
  let ?x = "conflict_scan (tx_mode tx) ?e (tx_readset tx) (tx_readeset_bloom tx) (commit_range (?c + 1) ?v ?q)"
  have free: "map_of (transaction_commit_queue db) ?v = None" by (rule queue_next_free [OF assms(1,2)])
  have wf: "om_wf ?q" using assms(1) by (simp add: queue_wf_def om_wf_insert)
  have start: "(commit_alone ?j ^^ 4) (CTakeId ?c, commit_memory db) = (CScan ?c ?e ?v None, ?s)"
    using free by (simp add: numeral_eq_Suc commit_alone_def commit_memory_def job_of_tx_def om_get_or_insert_def)
  obtain n where n: "(commit_alone ?j ^^ n) (CScan ?c ?e ?v None, ?s)
      = (case ?x of None \<Rightarrow> (CPublished ?c ?e ?v, ?s) | Some x \<Rightarrow> (CRemove ?c ?e ?v x, ?s))"
    using alone_scan [of ?s ?j ?c ?e ?v None] wf by (auto simp: job_of_tx_def commit_range_def)
  have run: "(commit_alone ?j ^^ (m + (n + 4))) (CTakeId ?c, commit_memory db)
      = (commit_alone ?j ^^ m) (case ?x of None \<Rightarrow> (CPublished ?c ?e ?v, ?s) | Some x \<Rightarrow> (CRemove ?c ?e ?v x, ?s))" for m
    by (simp only: funpow_add comp_apply start n)
  have p: "commit_publish w tx db = Some (case ?x of
      Some x \<Rightarrow> Finished (Inl x) (clear_writeset (clear_readset (tx\<lparr>tx_done := True, tx_writeset := []\<rparr>)))
        (db\<lparr>transaction_queue_id := transaction_queue_id db + 1, transaction_commit_id := ?v,
            transaction_commit_queue := om_remove ?v ?q\<rparr>)
    | None \<Rightarrow> Published (tx_writeset tx) (tx\<lparr>tx_done := True, tx_writeset := []\<rparr>)
        (db\<lparr>transaction_queue_id := transaction_queue_id db + 1, transaction_commit_queue := ?q, transaction_commit_id := ?v\<rparr>))"
    using assms(3,4) free by (simp add: commit_publish_def auto_commit_free Let_def split: option.splits)
  show ?thesis
  proof (cases ?x)
    case None
    then show ?thesis using run [of 0] p by (auto simp: commit_memory_def intro!: exI [of _ "n + 4"])
  next
    case (Some x)
    then show ?thesis using run [of 1] p by (auto simp: commit_memory_def commit_alone_def intro!: exI [of _ "1 + (n + 4)"])
  qed
qed

text \<open>A reader that runs alone.\<close>

definition read_alone :: "bytes \<Rightarrow> read_pc \<times> merge_shared \<Rightarrow> read_pc \<times> merge_shared" where
  "read_alone k p = read_next k (snd p) (fst p)"

definition merge_memory :: "merges \<Rightarrow> Inner \<Rightarrow> merge_shared" where
  "merge_memory h db = \<lparr>ms_timestamp = timestamp (ts_oracle db), ms_merge_id = transaction_merge_id db,
     ms_queue = transaction_merge_queue db, ms_store = datastore db, ms_history = h\<rparr>"

lemma read_alone_step: "read_next k s pc = (pc', s') \<Longrightarrow> (read_alone k ^^ n) (pc', s') = r \<Longrightarrow> (read_alone k ^^ Suc n) (pc, s) = r"
  by (simp add: read_alone_def funpow_Suc_right del: funpow.simps)

abbreviation ahead_of :: "u64 \<Rightarrow> u64 option \<Rightarrow> u64 \<times> Merge \<Rightarrow> bool" where
  "ahead_of v cursor e \<equiv> fst e \<le> v \<and> behind cursor (fst e)"

lemma alone_read_scan:
  assumes "om_wf (ms_queue s)"
  shows "\<exists>n. (read_alone k ^^ n) (RdScan v k c, s)
    = (RdGot v k (case find (\<lambda>e. map_of (mg_writeset (snd e)) k \<noteq> None) (filter (ahead_of v c) (rev (ms_queue s))) of
         None \<Rightarrow> (case map_of (ms_store s) k of Some versions \<Rightarrow> fetch_version versions v | None \<Rightarrow> None)
       | Some e \<Rightarrow> the (map_of (mg_writeset (snd e)) k)), s)"
proof (induction "length (filter (ahead_of v c) (rev (ms_queue s)))" arbitrary: c rule: less_induct)
  case less
  let ?q = "rev (ms_queue s)"
  show ?case
  proof (cases "merge_prev v c (ms_queue s)")
    case None
    then have "filter (ahead_of v c) ?q = []" by (auto simp: merge_prev_def find_None_iff filter_empty_conv)
    moreover have "read_next k s (RdScan v k c) = (RdStore v k, s)" using None by simp
    from read_alone_step [OF this read_alone_step [OF read_next.simps(5), of 0]]
    have "(read_alone k ^^ Suc (Suc 0)) (RdScan v k c, s)
        = (RdGot v k (case map_of (ms_store s) k of Some versions \<Rightarrow> fetch_version versions v | None \<Rightarrow> None), s)" by simp
    ultimately show ?thesis by (intro exI [of _ "Suc (Suc 0)"]) simp
  next
    case (Some y)
    obtain u e where y: "y = (u, e)" by (cases y)
    have "behind c u" using find_SomeD [OF Some [unfolded merge_prev_def]] y by simp
    then have a: "behind c n \<and> n < u \<longleftrightarrow> behind (Some u) n" for n by (cases c) auto
    have "sorted_wrt (\<lambda>a b. fst b < fst a) ?q" using assms by (simp add: om_wf_def sorted_wrt_map sorted_wrt_rev)
    then have f: "filter (ahead_of v c) ?q = (u, e) # filter (ahead_of v (Some u)) ?q"
      using filter_find [of "\<lambda>m n. n < m" ?q "ahead_of v c" u e] Some y a by (simp add: merge_prev_def conj_assoc)
    have q: "map_of (ms_queue s) u = Some e" using merge_prev_Some(1) [OF Some [unfolded y] assms] .
    obtain n where n: "(read_alone k ^^ n) (RdScan v k (Some u), s)
      = (RdGot v k (case find (\<lambda>e. map_of (mg_writeset (snd e)) k \<noteq> None) (filter (ahead_of v (Some u)) ?q) of
         None \<Rightarrow> (case map_of (ms_store s) k of Some versions \<Rightarrow> fetch_version versions v | None \<Rightarrow> None)
       | Some e \<Rightarrow> the (map_of (mg_writeset (snd e)) k)), s)"
      using less [of "Some u"] f by auto
    have 1: "read_next k s (RdScan v k c) = (RdEntry v k u e, s)" using Some y by simp
    show ?thesis
    proof (cases "map_of (mg_writeset e) k")
      case None
      then have "read_next k s (RdEntry v k u e) = (RdScan v k (Some u), s)" using q by simp
      from read_alone_step [OF 1 read_alone_step [OF this n]] None show ?thesis
        by (intro exI [of _ "Suc (Suc n)"]) (simp add: f)
    next
      case (Some x)
      then have "read_next k s (RdEntry v k u e) = (RdGot v k x, s)" using q by simp
      from read_alone_step [OF 1 read_alone_step [OF this, of 0]] Some show ?thesis
        by (intro exI [of _ "Suc (Suc 0)"]) (simp add: f)
    qed
  qed
qed

lemma alone_read:
  assumes "om_wf (transaction_merge_queue db)"
  shows "\<exists>n. (read_alone k ^^ n) (RdOpen v, merge_memory h db) = (RdGot v k (fetch_in_datastore db k v), merge_memory h db)"
proof -
  let ?s = "merge_memory h db"
  let ?P = "\<lambda>e. map_of (mg_writeset (snd e)) k \<noteq> None"
  have q: "ms_queue ?s = transaction_merge_queue db" "ms_store ?s = datastore db" by (simp_all add: merge_memory_def)
  have rv: "filter (ahead_of v None) (rev (transaction_merge_queue db)) = rev (filter (\<lambda>e. fst e \<le> v) (transaction_merge_queue db))"
    by (simp add: rev_filter)
  let ?f = "find ?P (rev (filter (\<lambda>e. fst e \<le> v) (transaction_merge_queue db)))"
  have v: "(case ?f of None \<Rightarrow> (case map_of (datastore db) k of Some versions \<Rightarrow> fetch_version versions v | None \<Rightarrow> None)
       | Some e \<Rightarrow> the (map_of (mg_writeset (snd e)) k)) = fetch_in_datastore db k v"
  proof (cases ?f)
    case (Some e)
    then have "?P e" using find_SomeD by fastforce
    then show ?thesis using Some by (auto simp: fetch_in_datastore_def merge_lookup_def)
  qed (simp add: fetch_in_datastore_def merge_lookup_def split: option.splits)
  obtain n where "(read_alone k ^^ n) (RdScan v k None, ?s) = (RdGot v k (fetch_in_datastore db k v), ?s)"
    using alone_read_scan [of ?s k v None] assms unfolding q rv v by blast
  from read_alone_step [OF read_next.simps(2) this] show ?thesis by blast
qed


text \<open>A writer that runs alone, at one reading of the clock.\<close>

definition write_alone :: "u64 \<Rightarrow> writeset \<Rightarrow> write_pc \<times> merge_shared \<Rightarrow> write_pc \<times> merge_shared" where
  "write_alone time ws p = write_next time ws (snd p) (fst p)"

lemma alone_store:
  "\<exists>n. (write_alone time ws ^^ n) (WStore e v rest, s)
    = (WDone v, s\<lparr>ms_store := fold (ds_write v) rest (ms_store s), ms_queue := om_remove v (ms_queue s)\<rparr>)"
proof (induction rest arbitrary: s)
  case Nil
  show ?case by (intro exI [of _ 1]) (simp add: write_alone_def)
next
  case (Cons kx rest)
  obtain k x where kx: "kx = (k, x)" by (cases kx)
  let ?i = "\<lparr>version = v, value_of = x\<rparr>"
  let ?d = "snd (om_get_or_insert k (Versions_from ?i) (ms_store s))"
  obtain vs where vs: "map_of ?d k = Some vs" "fst (om_get_or_insert k (Versions_from ?i) (ms_store s)) = vs"
    by (cases "map_of (ms_store s) k") (auto simp: om_get_or_insert_def om_simps)
  have "(write_alone time ws ^^ 2) (WStore e v (kx # rest), s) = (WStore e v rest, s\<lparr>ms_store := ds_write v kx (ms_store s)\<rparr>)"
    using vs by (simp add: numeral_2_eq_2 write_alone_def kx ds_write_def Let_def case_prod_beta)
  moreover obtain n where "(write_alone time ws ^^ n) (WStore e v rest, s\<lparr>ms_store := ds_write v kx (ms_store s)\<rparr>)
      = (WDone v, s\<lparr>ms_store := fold (ds_write v) (kx # rest) (ms_store s), ms_queue := om_remove v (ms_queue s)\<rparr>)"
    using Cons [of "s\<lparr>ms_store := ds_write v kx (ms_store s)\<rparr>"] by auto
  ultimately have "(write_alone time ws ^^ (n + 2)) (WStore e v (kx # rest), s)
      = (WDone v, s\<lparr>ms_store := fold (ds_write v) (kx # rest) (ms_store s), ms_queue := om_remove v (ms_queue s)\<rparr>)"
    by (simp only: funpow_add comp_apply)
  then show ?case by blast
qed

lemma alone_apply:
  assumes "inner_wf db" "commit_apply w ws self db = Some (r, self', db')"
  defines "time \<equiv> current_time_ns (ts_oracle db) (w_clock w 0)"
  shows "\<exists>n v e. (write_alone time ws ^^ n) (WTakeId, merge_memory h db) = (WDone v, merge_memory (h @ [(v, e)]) db')"
proof -
  let ?v = "candidate_version (ts_oracle db) (w_clock w 0)"
  let ?e = "\<lparr>mg_id = transaction_merge_id db + 1, mg_writeset = ws\<rparr>"
  let ?s = "\<lparr>ms_timestamp = max (timestamp (ts_oracle db)) ?v, ms_merge_id = transaction_merge_id db + 1,
     ms_queue = [(?v, ?e)], ms_store = datastore db, ms_history = h @ [(?v, ?e)]\<rparr>"
  have q: "transaction_merge_queue db = []" using assms(1) by (simp add: inner_wf_def)
  have 1: "(write_alone time ws ^^ 5) (WTakeId, merge_memory h db) = (WStore ?e ?v ws, ?s)"
    using q by (simp add: numeral_eq_Suc write_alone_def merge_memory_def om_get_or_insert_def time_def
        candidate_version_def Let_def)
  obtain n where 2: "(write_alone time ws ^^ n) (WStore ?e ?v ws, ?s)
      = (WDone ?v, ?s\<lparr>ms_store := fold (ds_write ?v) ws (datastore db), ms_queue := om_remove ?v [(?v, ?e)]\<rparr>)"
    using alone_store [of time ws ?e ?v ws ?s] by auto
  have "(write_alone time ws ^^ (n + 5)) (WTakeId, merge_memory h db)
      = (WDone ?v, ?s\<lparr>ms_store := fold (ds_write ?v) ws (datastore db), ms_queue := om_remove ?v [(?v, ?e)]\<rparr>)"
    by (simp only: funpow_add comp_apply 1 2)
  moreover have "?s\<lparr>ms_store := fold (ds_write ?v) ws (datastore db), ms_queue := om_remove ?v [(?v, ?e)]\<rparr>
      = merge_memory (h @ [(?v, ?e)]) db'"
    using assms(2) q unfolding commit_apply_def
    by (auto simp: Let_def atomic_merge_free fold_store_write remove_merge_def merge_memory_def om_remove_def
        split: option.splits prod.splits sum.splits)
  ultimately show ?thesis by (intro exI [of _ "n + 5"] exI [of _ ?v] exI [of _ ?e]) simp
qed

end
