(* ===== verification/Collecting.thy ===== *)
theory Collecting
  imports Transaction Thread_Pool
begin

text \<open>
  Writes to version chains against the version collector, at the grain of single accesses (the loop over
  the write set in \<open>TransactionInner::commit\<close>; \<open>Inner::gc_key\<close> and the body of \<open>Inner::run_gc_full\<close>).  An
  entry of the data store is a node with its own lock that threads keep a reference to: it can leave the
  store while a writer holds the reference and waits for the lock.  The collector takes an entry out only
  under the lock, and a writer that gets the lock of such an entry starts again.
\<close>

section \<open>Shared memory and threads\<close>

record node =
  nd_key :: bytes
  nd_chain :: Versions
  nd_removed :: bool
  nd_locked :: bool

text \<open>
  The data store maps a key to the address of its node.  Besides the code's fields the memory carries the
  writes in the order they took effect, and the highest watermark collected at; no access reads them.
\<close>

record node_shared =
  nd_heap :: "node list"
  nd_index :: "(bytes, nat) omap"
  nd_dirty :: "bytes list"
  nd_history :: "(bytes \<times> Version) list"
  nd_cut :: u64

datatype put_pc =
    PGet writeset
  | PLock nat writeset
  | PCheck nat writeset
  | PPush nat writeset
  | PUnlock bool nat writeset
  | PDirty writeset

datatype coll_pc =
    GNext
  | GFind u64 bytes
  | GLock u64 nat
  | GCompact u64 nat
  | GRemove nat
  | GUnlock nat

datatype find_pc =
    SNext
  | SFind u64 bytes
  | SRead u64 bytes nat
  | SGot u64 bytes "bytes option"

datatype coll_thread = Putter u64 writeset put_pc | Collector coll_pc | Finder find_pc

definition set_node :: "nat \<Rightarrow> (node \<Rightarrow> node) \<Rightarrow> node_shared \<Rightarrow> node_shared" where
  "set_node a f s = s\<lparr>nd_heap := (nd_heap s)[a := f (nd_heap s ! a)]\<rparr>"

text \<open>The loop over the write set; a lock that is taken is tried again.\<close>

fun put_next :: "u64 \<Rightarrow> node_shared \<Rightarrow> put_pc \<Rightarrow> put_pc \<times> node_shared" where
  "put_next ver s (PGet []) = (PGet [], s)"
| "put_next ver s (PGet ((k, x) # rest)) =
     (case map_of (nd_index s) k of
        Some a \<Rightarrow> (PLock a ((k, x) # rest), s)
      | None \<Rightarrow>
          (PLock (length (nd_heap s)) ((k, x) # rest),
           s\<lparr>nd_heap := nd_heap s @ [\<lparr>nd_key = k, nd_chain = Versions_from \<lparr>version = ver, value_of = x\<rparr>,
                nd_removed = False, nd_locked = False\<rparr>],
             nd_index := om_insert k (length (nd_heap s)) (nd_index s),
             nd_history := nd_history s @ [(k, \<lparr>version = ver, value_of = x\<rparr>)]\<rparr>))"
| "put_next ver s (PLock a ws) =
     (if nd_locked (nd_heap s ! a) then (PLock a ws, s)
      else (PCheck a ws, set_node a (nd_locked_update (\<lambda>_. True)) s))"
| "put_next ver s (PCheck a ws) = (if nd_removed (nd_heap s ! a) then PUnlock True a ws else PPush a ws, s)"
| "put_next ver s (PPush a []) = (PUnlock False a [], s)"
| "put_next ver s (PPush a ((k, x) # rest)) =
     (PUnlock False a ((k, x) # rest),
      (set_node a (nd_chain_update (\<lambda>versions. push versions \<lparr>version = ver, value_of = x\<rparr>)) s)
        \<lparr>nd_history := nd_history s @ [(k, \<lparr>version = ver, value_of = x\<rparr>)]\<rparr>)"
| "put_next ver s (PUnlock again a ws) =
     (if again then PGet ws else PDirty ws, set_node a (nd_locked_update (\<lambda>_. False)) s)"
| "put_next ver s (PDirty []) = (PGet [], s)"
| "put_next ver s (PDirty ((k, x) # rest)) = (PGet rest, s\<lparr>nd_dirty := nd_dirty s @ [k]\<rparr>)"

text \<open>The collector, one key after another; the label gives the watermark and the key.\<close>

fun collect_next :: "u64 \<times> bytes \<Rightarrow> node_shared \<Rightarrow> coll_pc \<Rightarrow> coll_pc \<times> node_shared" where
  "collect_next l s GNext = (GFind (fst l) (snd l), s)"
| "collect_next l s (GFind c k) =
     (case map_of (nd_index s) k of Some a \<Rightarrow> (GLock c a, s) | None \<Rightarrow> (GNext, s))"
| "collect_next l s (GLock c a) =
     (if nd_locked (nd_heap s ! a) then (GLock c a, s)
      else (GCompact c a, set_node a (nd_locked_update (\<lambda>_. True)) s))"
| "collect_next l s (GCompact c a) =
     (case gc_older_versions (nd_chain (nd_heap s ! a)) c of
        (versions, n) \<Rightarrow>
          (if n = 0 then GRemove a else GUnlock a,
           (set_node a (nd_chain_update (\<lambda>_. versions)) s)\<lparr>nd_cut := max (nd_cut s) c\<rparr>))"
| "collect_next l s (GRemove a) =
     (GUnlock a,
      if nd_removed (nd_heap s ! a) then s
      else (set_node a (nd_removed_update (\<lambda>_. True)) s)
        \<lparr>nd_index := om_remove (nd_key (nd_heap s ! a)) (nd_index s)\<rparr>)"
| "collect_next l s (GUnlock a) = (GNext, set_node a (nd_locked_update (\<lambda>_. False)) s)"

text \<open>A reader of the chains; the label gives the snapshot and the key.\<close>

fun find_next :: "u64 \<times> bytes \<Rightarrow> node_shared \<Rightarrow> find_pc \<Rightarrow> find_pc" where
  "find_next l s SNext = SFind (fst l) (snd l)"
| "find_next l s (SFind v k) =
     (case map_of (nd_index s) k of Some a \<Rightarrow> SRead v k a | None \<Rightarrow> SGot v k None)"
| "find_next l s (SRead v k a) =
     (if nd_locked (nd_heap s ! a) then SRead v k a
      else SGot v k (fetch_version (nd_chain (nd_heap s ! a)) v))"
| "find_next l s (SGot v k x) = SNext"

fun coll_next :: "u64 \<times> bytes \<Rightarrow> node_shared \<Rightarrow> coll_thread \<Rightarrow> coll_thread \<times> node_shared" where
  "coll_next l s (Putter ver ws pc) = (case put_next ver s pc of (pc', s') \<Rightarrow> (Putter ver ws pc', s'))"
| "coll_next l s (Collector pc) = (case collect_next l s pc of (pc', s') \<Rightarrow> (Collector pc', s'))"
| "coll_next l s (Finder pc) = (Finder (find_next l s pc), s)"

section \<open>Runs\<close>

text \<open>The write that takes effect with the next access of a thread, and what a reader is looking for.\<close>

fun installing :: "node_shared \<Rightarrow> coll_thread \<Rightarrow> (bytes \<times> Version) option" where
  "installing s (Putter ver ws (PGet ((k, x) # rest))) =
     (if map_of (nd_index s) k = None then Some (k, \<lparr>version = ver, value_of = x\<rparr>) else None)"
| "installing s (Putter ver ws (PPush a ((k, x) # rest))) = Some (k, \<lparr>version = ver, value_of = x\<rparr>)"
| "installing s _ = None"

fun looking_for :: "coll_thread \<Rightarrow> (u64 \<times> bytes) option" where
  "looking_for (Finder (SFind v k)) = Some (v, k)"
| "looking_for (Finder (SRead v k a)) = Some (v, k)"
| "looking_for (Finder (SGot v k x)) = Some (v, k)"
| "looking_for _ = None"

text \<open>
  All runs, and the runs in which each part keeps its contract with the others: a write is newer than what
  was written to its key before and above the snapshots that are reading the key (the order of merges), a
  collection is not above a snapshot that is reading, and a reader does not ask below what was collected
  (the registration of snapshots).
\<close>

definition coll_any :: "u64 \<times> bytes \<Rightarrow> node_shared \<Rightarrow> coll_thread \<Rightarrow> coll_thread list \<Rightarrow> bool" where
  "coll_any l s t us \<longleftrightarrow> True"

definition in_order :: "bytes \<times> Version \<Rightarrow> (bytes \<times> Version) list \<Rightarrow> bool" where
  "in_order e h \<longleftrightarrow> list_all (\<lambda>z. fst z = fst e \<longrightarrow> version (snd z) < version (snd e) \<or> z = e) h"

definition install_ok :: "node_shared \<Rightarrow> coll_thread \<Rightarrow> coll_thread list \<Rightarrow> bool" where
  "install_ok s t us \<longleftrightarrow>
     (case installing s t of
        None \<Rightarrow> True
      | Some e \<Rightarrow> in_order e (nd_history s)
          \<and> list_all (\<lambda>u. case looking_for u of None \<Rightarrow> True | Some (v, k) \<Rightarrow> k = fst e \<longrightarrow> v < version (snd e)) us)"

fun collection_ok :: "coll_thread \<Rightarrow> coll_thread list \<Rightarrow> bool" where
  "collection_ok (Collector (GCompact c a)) us \<longleftrightarrow>
     list_all (\<lambda>u. case looking_for u of None \<Rightarrow> True | Some (v, k) \<Rightarrow> c \<le> v) us"
| "collection_ok _ us \<longleftrightarrow> True"

definition coll_tidy :: "u64 \<times> bytes \<Rightarrow> node_shared \<Rightarrow> coll_thread \<Rightarrow> coll_thread list \<Rightarrow> bool" where
  "coll_tidy l s t us \<longleftrightarrow> install_ok s t us \<and> collection_ok t us \<and> (t = Finder SNext \<longrightarrow> nd_cut s \<le> fst l)"

text \<open>What a key shows at a snapshot: in the store, and by the writes in their order.\<close>

definition entry_read :: "node_shared \<Rightarrow> bytes \<Rightarrow> u64 \<Rightarrow> bytes option" where
  "entry_read s k v =
     (case map_of (nd_index s) k of None \<Rightarrow> None | Some a \<Rightarrow> fetch_version (nd_chain (nd_heap s ! a)) v)"

definition history_value :: "(bytes \<times> Version) list \<Rightarrow> bytes \<Rightarrow> u64 \<Rightarrow> bytes option" where
  "history_value h k v = value_at (map snd (filter (\<lambda>e. fst e = k) h)) v"

definition nodes_of :: "datastore \<Rightarrow> node_shared" where
  "nodes_of ds =
     \<lparr>nd_heap = map (\<lambda>e. \<lparr>nd_key = fst e, nd_chain = snd e, nd_removed = False, nd_locked = False\<rparr>) ds,
      nd_index = zip (map fst ds) [0..<length ds], nd_dirty = [],
      nd_history = concat (map (\<lambda>e. map (Pair (fst e)) (snd e)) ds), nd_cut = 0\<rparr>"

definition coll_start :: "datastore \<Rightarrow> (u64 \<times> writeset) list \<Rightarrow> nat \<Rightarrow> nat \<Rightarrow> (node_shared, coll_thread) pool" where
  "coll_start ds wss m n =
     (nodes_of ds, map (\<lambda>(ver, ws). Putter ver ws (PGet ws)) wss
        @ replicate m (Collector GNext) @ replicate n (Finder SNext))"

section \<open>The invariant of tidy runs\<close>

definition heap_ok :: "node_shared \<Rightarrow> bool" where
  "heap_ok s \<longleftrightarrow> om_wf (nd_index s)
     \<and> (\<forall>k a. map_of (nd_index s) k = Some a \<longrightarrow>
          a < length (nd_heap s) \<and> nd_key (nd_heap s ! a) = k \<and> \<not> nd_removed (nd_heap s ! a))
     \<and> (\<forall>a<length (nd_heap s). \<not> nd_removed (nd_heap s ! a) \<longrightarrow> map_of (nd_index s) (nd_key (nd_heap s ! a)) = Some a)
     \<and> (\<forall>a<length (nd_heap s). versions_wf (nd_chain (nd_heap s ! a))
          \<and> (nd_removed (nd_heap s ! a) \<longrightarrow> nd_chain (nd_heap s ! a) = [])
          \<and> (\<forall>y\<in>set (nd_chain (nd_heap s ! a)). (nd_key (nd_heap s ! a), y) \<in> set (nd_history s)))"

definition nodes_ok :: "node_shared \<Rightarrow> bool" where
  "nodes_ok s \<longleftrightarrow> heap_ok s \<and> (\<forall>k v. nd_cut s \<le> v \<longrightarrow> entry_read s k v = history_value (nd_history s) k v)"

text \<open>The node a thread has locked.\<close>

fun holds :: "coll_thread \<Rightarrow> nat option" where
  "holds (Putter ver ws (PCheck a r)) = Some a"
| "holds (Putter ver ws (PPush a r)) = Some a"
| "holds (Putter ver ws (PUnlock b a r)) = Some a"
| "holds (Collector (GCompact c a)) = Some a"
| "holds (Collector (GRemove a)) = Some a"
| "holds (Collector (GUnlock a)) = Some a"
| "holds _ = None"

definition node_locked :: "node_shared \<Rightarrow> nat \<Rightarrow> bool" where
  "node_locked s a \<longleftrightarrow> a < length (nd_heap s) \<and> nd_locked (nd_heap s ! a)"

text \<open>A reference to the node of the first key of what is left to write.\<close>

definition refers :: "node_shared \<Rightarrow> nat \<Rightarrow> writeset \<Rightarrow> bool" where
  "refers s a r \<longleftrightarrow> a < length (nd_heap s) \<and> r \<noteq> [] \<and> nd_key (nd_heap s ! a) = fst (hd r)"

fun to_write :: "put_pc \<Rightarrow> writeset" where
  "to_write (PGet r) = r"
| "to_write (PLock a r) = r"
| "to_write (PCheck a r) = r"
| "to_write (PPush a r) = r"
| "to_write (PUnlock again a r) = (if again then r else tl r)"
| "to_write (PDirty r) = tl r"

fun put_ok :: "node_shared \<Rightarrow> put_pc \<Rightarrow> bool" where
  "put_ok s (PLock a r) \<longleftrightarrow> refers s a r"
| "put_ok s (PCheck a r) \<longleftrightarrow> refers s a r"
| "put_ok s (PPush a r) \<longleftrightarrow> refers s a r \<and> \<not> nd_removed (nd_heap s ! a)"
| "put_ok s (PUnlock b a r) \<longleftrightarrow> r \<noteq> []"
| "put_ok s (PDirty r) \<longleftrightarrow> r \<noteq> []"
| "put_ok s _ \<longleftrightarrow> True"

fun collect_ok :: "node_shared \<Rightarrow> coll_pc \<Rightarrow> bool" where
  "collect_ok s (GLock c a) \<longleftrightarrow> a < length (nd_heap s)"
| "collect_ok s (GRemove a) \<longleftrightarrow> nd_chain (nd_heap s ! a) = []"
| "collect_ok s _ \<longleftrightarrow> True"

fun find_ok :: "node_shared \<Rightarrow> find_pc \<Rightarrow> bool" where
  "find_ok s (SRead v k a) \<longleftrightarrow> a < length (nd_heap s) \<and> nd_key (nd_heap s ! a) = k
     \<and> (nd_removed (nd_heap s ! a) \<longrightarrow> history_value (nd_history s) k v = None)"
| "find_ok s (SGot v k x) \<longleftrightarrow> x = history_value (nd_history s) k v"
| "find_ok s _ \<longleftrightarrow> True"

fun coll_pc_ok :: "node_shared \<Rightarrow> coll_thread \<Rightarrow> bool" where
  "coll_pc_ok s (Putter ver ws pc) \<longleftrightarrow> put_ok s pc
     \<and> (\<exists>pre. ws = pre @ to_write pc \<and> (\<forall>(k, x)\<in>set pre. (k, \<lparr>version = ver, value_of = x\<rparr>) \<in> set (nd_history s)))"
| "coll_pc_ok s (Collector pc) \<longleftrightarrow> collect_ok s pc"
| "coll_pc_ok s (Finder pc) \<longleftrightarrow> find_ok s pc"

definition coll_thread_ok :: "node_shared \<Rightarrow> coll_thread \<Rightarrow> bool" where
  "coll_thread_ok s t \<longleftrightarrow> coll_pc_ok s t
     \<and> (\<forall>a. holds t = Some a \<longrightarrow> node_locked s a) \<and> (\<forall>v k. looking_for t = Some (v, k) \<longrightarrow> nd_cut s \<le> v)"

definition apart :: "node_shared \<Rightarrow> coll_thread \<Rightarrow> coll_thread \<Rightarrow> bool" where
  "apart s t u \<longleftrightarrow> (\<forall>a. holds t = Some a \<longrightarrow> holds u \<noteq> Some a)"

section \<open>Effects on the memory\<close>

lemma set_node_simps [simp]:
  "length (nd_heap (set_node a f s)) = length (nd_heap s)" "nd_index (set_node a f s) = nd_index s"
  "nd_history (set_node a f s) = nd_history s" "nd_cut (set_node a f s) = nd_cut s" "nd_dirty (set_node a f s) = nd_dirty s"
  by (simp_all add: set_node_def)

lemma set_node_nth: "a < length (nd_heap s) \<Longrightarrow> nd_heap (set_node a f s) ! b = (if b = a then f (nd_heap s ! a) else nd_heap s ! b)"
  by (simp add: set_node_def nth_list_update)

lemma set_node_nth_gen:
  "nd_heap (set_node a f s) ! b = (if b = a \<and> a < length (nd_heap s) then f (nd_heap s ! a) else nd_heap s ! b)"
  by (cases "a < length (nd_heap s)") (auto simp: set_node_def nth_list_update list_update_beyond)

lemma set_node_out: "\<not> a < length (nd_heap s) \<Longrightarrow> set_node a f s = s"
  by (simp add: set_node_def list_update_beyond)

lemma heap_okI:
  assumes "om_wf (nd_index s)"
    and "\<And>k a. map_of (nd_index s) k = Some a \<Longrightarrow>
      a < length (nd_heap s) \<and> nd_key (nd_heap s ! a) = k \<and> \<not> nd_removed (nd_heap s ! a)"
    and "\<And>a. a < length (nd_heap s) \<Longrightarrow> \<not> nd_removed (nd_heap s ! a) \<Longrightarrow> map_of (nd_index s) (nd_key (nd_heap s ! a)) = Some a"
    and "\<And>a. a < length (nd_heap s) \<Longrightarrow> versions_wf (nd_chain (nd_heap s ! a))"
    and "\<And>a. a < length (nd_heap s) \<Longrightarrow> nd_removed (nd_heap s ! a) \<Longrightarrow> nd_chain (nd_heap s ! a) = []"
    and "\<And>a y. a < length (nd_heap s) \<Longrightarrow> y \<in> set (nd_chain (nd_heap s ! a)) \<Longrightarrow> (nd_key (nd_heap s ! a), y) \<in> set (nd_history s)"
  shows "heap_ok s"
  unfolding heap_ok_def using assms by blast

lemma heap_okD:
  assumes "heap_ok s"
  shows "om_wf (nd_index s)"
    "map_of (nd_index s) k = Some a \<Longrightarrow> a < length (nd_heap s) \<and> nd_key (nd_heap s ! a) = k \<and> \<not> nd_removed (nd_heap s ! a)"
    "a < length (nd_heap s) \<Longrightarrow> \<not> nd_removed (nd_heap s ! a) \<Longrightarrow> map_of (nd_index s) (nd_key (nd_heap s ! a)) = Some a"
    "a < length (nd_heap s) \<Longrightarrow> versions_wf (nd_chain (nd_heap s ! a))"
    "a < length (nd_heap s) \<Longrightarrow> nd_removed (nd_heap s ! a) \<Longrightarrow> nd_chain (nd_heap s ! a) = []"
    "a < length (nd_heap s) \<Longrightarrow> y \<in> set (nd_chain (nd_heap s ! a)) \<Longrightarrow> (nd_key (nd_heap s ! a), y) \<in> set (nd_history s)"
  using assms by (simp_all add: heap_ok_def)

lemma nodes_okD:
  assumes "nodes_ok s"
  shows "heap_ok s" "nd_cut s \<le> v \<Longrightarrow> entry_read s k v = history_value (nd_history s) k v"
  using assms by (simp_all add: nodes_ok_def)

lemma entry_read_at:
  assumes "heap_ok s" "a < length (nd_heap s)" "\<not> nd_removed (nd_heap s ! a)"
  shows "entry_read s (nd_key (nd_heap s ! a)) v = value_at (nd_chain (nd_heap s ! a)) v"
  using heap_okD(3) [OF assms] fetch_version_value_at [OF heap_okD(4) [OF assms(1,2)]] by (simp add: entry_read_def)

lemma history_value_snoc [simp]:
  "history_value (h @ [(k', y)]) k v = (if k' = k \<and> version y \<le> v then value_of y else history_value h k v)"
  by (simp add: history_value_def value_at_append value_at_Cons)

text \<open>A change of one node that keeps its key and whether it was removed.\<close>

lemma heap_ok_node:
  assumes "heap_ok s" "a < length (nd_heap s)" and "s' = (set_node a f s)\<lparr>nd_history := h, nd_cut := c\<rparr>"
    and "nd_key (f (nd_heap s ! a)) = nd_key (nd_heap s ! a)" "nd_removed (f (nd_heap s ! a)) = nd_removed (nd_heap s ! a)"
    and "versions_wf (nd_chain (f (nd_heap s ! a)))"
    and "nd_removed (nd_heap s ! a) \<Longrightarrow> nd_chain (f (nd_heap s ! a)) = []"
    and "\<And>y. y \<in> set (nd_chain (f (nd_heap s ! a))) \<Longrightarrow> (nd_key (nd_heap s ! a), y) \<in> set h" "set (nd_history s) \<subseteq> set h"
  shows "heap_ok s'"
proof (rule heap_okI)
  note D = heap_okD [OF assms(1)]
  have nth: "nd_heap s' ! b = (if b = a then f (nd_heap s ! a) else nd_heap s ! b)" for b
    using assms(2,3) by (simp add: set_node_nth)
  have eq: "length (nd_heap s') = length (nd_heap s)" "nd_index s' = nd_index s" "nd_history s' = h"
    "nd_key (nd_heap s' ! b) = nd_key (nd_heap s ! b)" "nd_removed (nd_heap s' ! b) = nd_removed (nd_heap s ! b)" for b
    using assms(2-5) by (simp_all add: set_node_nth)
  show "om_wf (nd_index s')" using D(1) by (simp add: eq)
  show "b < length (nd_heap s') \<and> nd_key (nd_heap s' ! b) = k \<and> \<not> nd_removed (nd_heap s' ! b)"
    if "map_of (nd_index s') k = Some b" for k b
    using that D(2) by (simp add: eq)
  show "map_of (nd_index s') (nd_key (nd_heap s' ! b)) = Some b" if "b < length (nd_heap s')" "\<not> nd_removed (nd_heap s' ! b)" for b
    using that D(3) by (simp add: eq)
  show "versions_wf (nd_chain (nd_heap s' ! b))" if "b < length (nd_heap s')" for b
    using that D(4) assms(6) by (simp add: eq nth)
  show "nd_chain (nd_heap s' ! b) = []" if "b < length (nd_heap s')" "nd_removed (nd_heap s' ! b)" for b
    using that D(5) assms(5,7) by (simp add: eq nth split: if_splits)
  show "(nd_key (nd_heap s' ! b), y) \<in> set (nd_history s')" if "b < length (nd_heap s')" "y \<in> set (nd_chain (nd_heap s' ! b))" for b y
    using that D(6) assms(4,8,9) by (auto simp: eq(1-3) nth split: if_splits)
qed

lemma entry_read_node:
  assumes "heap_ok s" "a < length (nd_heap s)" and "s' = (set_node a f s)\<lparr>nd_history := h, nd_cut := c\<rparr>" and "heap_ok s'"
    and "nd_key (f (nd_heap s ! a)) = nd_key (nd_heap s ! a)" "nd_removed (f (nd_heap s ! a)) = nd_removed (nd_heap s ! a)"
  shows "entry_read s' k v = (if k = nd_key (nd_heap s ! a) \<and> \<not> nd_removed (nd_heap s ! a)
    then value_at (nd_chain (f (nd_heap s ! a))) v else entry_read s k v)"
proof (cases "map_of (nd_index s) k = Some a")
  case True
  then have a: "nd_key (nd_heap s ! a) = k" "\<not> nd_removed (nd_heap s ! a)" using heap_okD(2) [OF assms(1)] by simp_all
  have "nd_heap s' ! a = f (nd_heap s ! a)" "a < length (nd_heap s')" using assms(2,3) by (simp_all add: set_node_nth)
  with entry_read_at [OF assms(4), of a v] a assms(5,6) show ?thesis by simp
next
  case False
  then have "\<not> (k = nd_key (nd_heap s ! a) \<and> \<not> nd_removed (nd_heap s ! a))" using heap_okD(3) [OF assms(1,2)] by auto
  moreover have "entry_read s' k v = entry_read s k v"
    using False assms(2,3) by (auto simp: entry_read_def set_node_nth split: option.splits)
  ultimately show ?thesis by (simp only: if_False)
qed

lemma set_node_same: "set_node a f s = (set_node a f s)\<lparr>nd_history := nd_history s, nd_cut := nd_cut s\<rparr>"
  by (simp add: set_node_def)

lemma nodes_ok_lock:
  assumes "nodes_ok s" shows "nodes_ok (set_node a (nd_locked_update f) s)"
proof (cases "a < length (nd_heap s)")
  case True
  note h = nodes_okD(1) [OF assms]
  have hs: "heap_ok (set_node a (nd_locked_update f) s)"
    by (rule heap_ok_node [OF h True set_node_same]) (use heap_okD(4-6) [OF h True] in auto)
  have "entry_read (set_node a (nd_locked_update f) s) k v = entry_read s k v" for k v
    using entry_read_node [OF h True set_node_same hs, of k v] entry_read_at [OF h True, of v] by auto
  with hs assms show ?thesis by (simp add: nodes_ok_def)
qed (simp add: set_node_out assms)

lemma nodes_ok_dirty: "nodes_ok s \<Longrightarrow> nodes_ok (s\<lparr>nd_dirty := d\<rparr>)"
  by (simp add: nodes_ok_def heap_ok_def entry_read_def cong: option.case_cong)

lemma nodes_ok_insert:
  assumes "nodes_ok s" "map_of (nd_index s) k = None"
    and "s' = s\<lparr>nd_heap := nd_heap s @ [\<lparr>nd_key = k, nd_chain = Versions_from y, nd_removed = False, nd_locked = False\<rparr>],
      nd_index := om_insert k (length (nd_heap s)) (nd_index s), nd_history := nd_history s @ [(k, y)]\<rparr>"
  shows "nodes_ok s'"
proof -
  note h = nodes_okD(1) [OF assms(1)]
  note D = heap_okD [OF h]
  have i: "nd_index s' = om_insert k (length (nd_heap s)) (nd_index s)" "length (nd_heap s') = Suc (length (nd_heap s))"
    "nd_history s' = nd_history s @ [(k, y)]" "nd_cut s' = nd_cut s"
    "nd_heap s' ! length (nd_heap s) = \<lparr>nd_key = k, nd_chain = [y], nd_removed = False, nd_locked = False\<rparr>"
    "b < length (nd_heap s) \<Longrightarrow> nd_heap s' ! b = nd_heap s ! b" for b
    by (simp_all add: assms(3) nth_append Versions_from_def)
  have free: "nd_key (nd_heap s ! b) \<noteq> k" if "b < length (nd_heap s)" "\<not> nd_removed (nd_heap s ! b)" for b
    using D(3) [OF that] assms(2) by auto
  have hs: "heap_ok s'"
  proof (rule heap_okI)
    show "om_wf (nd_index s')" using D(1) by (simp add: i om_wf_insert)
    show "b < length (nd_heap s') \<and> nd_key (nd_heap s' ! b) = k' \<and> \<not> nd_removed (nd_heap s' ! b)"
      if "map_of (nd_index s') k' = Some b" for k' b
      using that D(2) [of k' b] i(5,6) by (auto simp: i(1,2) map_of_om_insert split: if_splits)
    show "map_of (nd_index s') (nd_key (nd_heap s' ! b)) = Some b" if "b < length (nd_heap s')" "\<not> nd_removed (nd_heap s' ! b)" for b
      using that D(3) [of b] free [of b] i(5,6) by (auto simp: i(1,2) map_of_om_insert less_Suc_eq)
    show "versions_wf (nd_chain (nd_heap s' ! b))" if "b < length (nd_heap s')" for b
      using that D(4) [of b] i(5,6) by (auto simp: i(2) less_Suc_eq versions_wf_def)
    show "nd_chain (nd_heap s' ! b) = []" if "b < length (nd_heap s')" "nd_removed (nd_heap s' ! b)" for b
      using that D(5) [of b] i(5,6) by (auto simp: i(2) less_Suc_eq)
    show "(nd_key (nd_heap s' ! b), z) \<in> set (nd_history s')" if "b < length (nd_heap s')" "z \<in> set (nd_chain (nd_heap s' ! b))" for b z
      using that D(6) [of b z] i(5,6) by (auto simp: i(2,3) less_Suc_eq)
  qed
  have "entry_read s' k' v = history_value (nd_history s') k' v" if v: "nd_cut s \<le> v" for k' v
  proof (cases "k' = k")
    case True
    have "history_value (nd_history s) k v = None" using nodes_okD(2) [OF assms(1) v, of k] assms(2) by (simp add: entry_read_def)
    with True entry_read_at [OF hs, of "length (nd_heap s)" v] show ?thesis by (simp add: i value_at_Cons)
  next
    case False
    have "entry_read s' k' v = entry_read s k' v"
      using False D(2) by (auto simp: entry_read_def i(1,6) map_of_om_insert split: option.splits)
    with False nodes_okD(2) [OF assms(1) v, of k'] show ?thesis by (simp add: i)
  qed
  with hs show ?thesis by (simp add: nodes_ok_def i)
qed

lemma nodes_ok_push:
  assumes "nodes_ok s" "a < length (nd_heap s)" "\<not> nd_removed (nd_heap s ! a)" "in_order (k, y) (nd_history s)"
    and "nd_key (nd_heap s ! a) = k"
  shows "nodes_ok ((set_node a (nd_chain_update (\<lambda>versions. push versions y)) s)\<lparr>nd_history := nd_history s @ [(k, y)]\<rparr>)" (is "nodes_ok ?s")
proof -
  note h = nodes_okD(1) [OF assms(1)]
  let ?c = "nd_chain (nd_heap s ! a)"
  note wf = heap_okD(4) [OF h assms(2)]
  have eq: "?s = (set_node a (nd_chain_update (\<lambda>versions. push versions y)) s)
      \<lparr>nd_history := nd_history s @ [(k, y)], nd_cut := nd_cut s\<rparr>" by (simp add: set_node_def)
  have new: "version z \<le> version y" if "z \<in> set ?c" for z
    using heap_okD(6) [OF h assms(2) that] assms(4,5) by (fastforce simp: in_order_def list_all_iff)
  have hs: "heap_ok ?s"
    by (rule heap_ok_node [OF h assms(2) eq])
      (use assms(3,5) push_versions_wf [OF wf, of y] set_push_subset [OF wf, of y] heap_okD(6) [OF h assms(2)] in auto)
  have "value_at (push ?c y) v = (if version y \<le> v then value_of y else value_at ?c v)" for v
    using new by (auto simp: value_at_push [OF wf])
  then have "entry_read ?s k' v = history_value (nd_history ?s) k' v" if v: "nd_cut s \<le> v" for k' v
    using entry_read_node [OF h assms(2) eq hs, of k' v] entry_read_at [OF h assms(2,3), of v]
      nodes_okD(2) [OF assms(1) v, of k'] assms(3,5) by auto
  with hs show ?thesis by (simp add: nodes_ok_def)
qed

lemma nodes_ok_compact:
  assumes "nodes_ok s" "a < length (nd_heap s)" "gc_older_versions (nd_chain (nd_heap s ! a)) c = (versions, n)"
  shows "nodes_ok ((set_node a (nd_chain_update (\<lambda>_. versions)) s)\<lparr>nd_cut := max (nd_cut s) c\<rparr>)" (is "nodes_ok ?s")
proof -
  note h = nodes_okD(1) [OF assms(1)]
  let ?c = "nd_chain (nd_heap s ! a)"
  have versions: "versions = fst (gc_older_versions ?c c)" using assms(3) by simp
  note wf = heap_okD(4) [OF h assms(2)]
  have eq: "?s = (set_node a (nd_chain_update (\<lambda>_. versions)) s)\<lparr>nd_history := nd_history s, nd_cut := max (nd_cut s) c\<rparr>"
    by (simp add: set_node_def)
  have hs: "heap_ok ?s"
    by (rule heap_ok_node [OF h assms(2) eq])
      (use gc_versions_wf [OF wf, of c] set_gc_subset [of ?c c] heap_okD(5,6) [OF h assms(2)] in \<open>auto simp: versions\<close>)
  have "entry_read ?s k v = entry_read s k v" if "c \<le> v" for k v
    using entry_read_node [OF h assms(2) eq hs, of k v] entry_read_at [OF h assms(2), of v] value_at_gc [OF wf that]
    by (auto simp: versions)
  with hs nodes_okD(2) [OF assms(1)] show ?thesis by (simp add: nodes_ok_def)
qed

lemma nodes_ok_remove:
  assumes "nodes_ok s" "a < length (nd_heap s)" "nd_chain (nd_heap s ! a) = []" "\<not> nd_removed (nd_heap s ! a)"
    and "s' = (set_node a (nd_removed_update (\<lambda>_. True)) s)\<lparr>nd_index := om_remove (nd_key (nd_heap s ! a)) (nd_index s)\<rparr>"
  shows "nodes_ok s'"
proof -
  note h = nodes_okD(1) [OF assms(1)]
  note D = heap_okD [OF h]
  let ?k = "nd_key (nd_heap s ! a)"
  have i: "nd_index s' = om_remove ?k (nd_index s)" "length (nd_heap s') = length (nd_heap s)" "nd_history s' = nd_history s"
    "nd_cut s' = nd_cut s" "nd_key (nd_heap s' ! b) = nd_key (nd_heap s ! b)" "nd_chain (nd_heap s' ! b) = nd_chain (nd_heap s ! b)"
    "nd_removed (nd_heap s' ! b) \<longleftrightarrow> nd_removed (nd_heap s ! b) \<or> b = a" for b
    using assms(2) by (simp_all add: assms(5) set_node_nth)
  note a = D(3) [OF assms(2,4)]
  have hs: "heap_ok s'"
  proof (rule heap_okI)
    show "om_wf (nd_index s')" using D(1) by (simp add: i om_wf_remove)
    show "b < length (nd_heap s') \<and> nd_key (nd_heap s' ! b) = k \<and> \<not> nd_removed (nd_heap s' ! b)"
      if "map_of (nd_index s') k = Some b" for k b
      using that D(2) [of k b] by (auto simp: i map_of_om_remove split: if_splits)
    show "map_of (nd_index s') (nd_key (nd_heap s' ! b)) = Some b" if "b < length (nd_heap s')" "\<not> nd_removed (nd_heap s' ! b)" for b
    proof -
      have b: "map_of (nd_index s) (nd_key (nd_heap s ! b)) = Some b" "b \<noteq> a" using that D(3) [of b] by (simp_all add: i)
      then have "nd_key (nd_heap s ! b) \<noteq> ?k" using a by auto
      with b show ?thesis by (simp add: i map_of_om_remove)
    qed
  qed (use D(4-6) assms(3) in \<open>auto simp: i\<close>)
  have "entry_read s' k v = entry_read s k v" for k v
    using entry_read_at [OF h assms(2,4), of v] assms(3)
    by (cases "k = ?k"; cases "map_of (nd_index s) k") (simp_all add: entry_read_def i map_of_om_remove)
  with hs assms(1) show ?thesis by (simp add: nodes_ok_def i)
qed

section \<open>What other threads see of an access\<close>

definition frame :: "nat set \<Rightarrow> node_shared \<Rightarrow> node_shared \<Rightarrow> bool" where
  "frame A s s' \<longleftrightarrow> length (nd_heap s) \<le> length (nd_heap s') \<and> set (nd_history s) \<subseteq> set (nd_history s')
     \<and> (\<forall>a<length (nd_heap s). nd_key (nd_heap s' ! a) = nd_key (nd_heap s ! a)
          \<and> (a \<notin> A \<longrightarrow> nd_heap s' ! a = nd_heap s ! a))"

lemma frame_refl [simp]: "frame A s s"
  by (simp add: frame_def)

lemma frame_node:
  "nd_key (f (nd_heap s ! a)) = nd_key (nd_heap s ! a) \<Longrightarrow> nd_heap s' = nd_heap (set_node a f s) \<Longrightarrow>
    set (nd_history s) \<subseteq> set (nd_history s') \<Longrightarrow> a \<in> A \<Longrightarrow> frame A s s'"
  by (cases "a < length (nd_heap s)") (auto simp: frame_def set_node_def nth_list_update list_update_beyond)

lemma frame_append: "nd_heap s' = nd_heap s @ ns \<Longrightarrow> set (nd_history s) \<subseteq> set (nd_history s') \<Longrightarrow> frame A s s'"
  by (auto simp: frame_def nth_append)

definition touched :: "coll_thread \<Rightarrow> coll_thread \<Rightarrow> nat set" where
  "touched t t' = {a. holds t = Some a \<or> holds t' = Some a}"

lemma frame_refers: "frame A s s' \<Longrightarrow> refers s a r \<Longrightarrow> refers s' a r"
  by (auto simp: frame_def refers_def)

lemma frame_held:
  assumes "frame A s s'" "node_locked s a" "a \<notin> A"
  shows "nd_heap s' ! a = nd_heap s ! a" "node_locked s' a"
  using assms by (auto simp: frame_def node_locked_def)

lemma frame_put:
  assumes "frame A s s'" "put_ok s pc" "\<forall>a. holds (Putter ver ws pc) = Some a \<longrightarrow> node_locked s a \<and> a \<notin> A"
  shows "put_ok s' pc"
proof (cases pc)
  case (PPush a r)
  then have "nd_heap s' ! a = nd_heap s ! a" using frame_held(1) [OF assms(1), of a] assms(3) by simp
  with PPush assms(2) frame_refers [OF assms(1)] show ?thesis by simp
qed (use assms(2) frame_refers [OF assms(1)] in auto)

lemma frame_collect:
  assumes "frame A s s'" "collect_ok s pc" "\<forall>a. holds (Collector pc) = Some a \<longrightarrow> node_locked s a \<and> a \<notin> A"
  shows "collect_ok s' pc"
proof (cases pc)
  case (GRemove a)
  then have "nd_heap s' ! a = nd_heap s ! a" using frame_held(1) [OF assms(1), of a] assms(3) by simp
  with GRemove assms(2) show ?thesis by simp
next
  case (GLock c a)
  with assms show ?thesis by (auto simp: frame_def)
qed simp_all

section \<open>The accesses keep the invariant\<close>

lemma putter_okI:
  assumes "put_ok s pc" "ws = pre @ to_write pc" "\<And>k x. (k, x) \<in> set pre \<Longrightarrow> (k, \<lparr>version = ver, value_of = x\<rparr>) \<in> set (nd_history s)"
    and "\<And>a. holds (Putter ver ws pc) = Some a \<Longrightarrow> node_locked s a"
  shows "coll_thread_ok s (Putter ver ws pc)"
  using assms by (auto simp: coll_thread_ok_def)

lemma node_locked_set: "node_locked (set_node a f s) b \<longleftrightarrow>
    b < length (nd_heap s) \<and> nd_locked (if b = a then f (nd_heap s ! a) else nd_heap s ! b)"
  by (cases "a < length (nd_heap s)") (auto simp: node_locked_def set_node_nth set_node_out)

lemma refers_set: "nd_key (f (nd_heap s ! a)) = nd_key (nd_heap s ! a) \<Longrightarrow> refers (set_node a f s) b r = refers s b r"
  by (cases "a < length (nd_heap s)") (auto simp: refers_def set_node_nth set_node_out)

definition access_ok :: "node_shared \<Rightarrow> coll_thread \<Rightarrow> node_shared \<Rightarrow> coll_thread \<Rightarrow> bool" where
  "access_ok s t s' t' \<longleftrightarrow> nodes_ok s' \<and> coll_thread_ok s' t' \<and> frame (touched t t') s s'
    \<and> (\<forall>a. holds t' = Some a \<longrightarrow> holds t = Some a \<or> \<not> node_locked s a)"

lemma put_step:
  assumes "nodes_ok s" "coll_thread_ok s (Putter ver ws pc)" "install_ok s (Putter ver ws pc) us" "put_next ver s pc = (pc', s')"
  shows "access_ok s (Putter ver ws pc) s' (Putter ver ws pc')"
proof -
  note h = nodes_okD(1) [OF assms(1)]
  obtain pre where pre: "ws = pre @ to_write pc" "\<And>k x. (k, x) \<in> set pre \<Longrightarrow> (k, \<lparr>version = ver, value_of = x\<rparr>) \<in> set (nd_history s)"
    using assms(2) by (simp add: coll_thread_ok_def) blast
  have ok: "put_ok s pc" using assms(2) by (simp add: coll_thread_ok_def)
  have held: "\<And>a. holds (Putter ver ws pc) = Some a \<Longrightarrow> node_locked s a" using assms(2) by (simp add: coll_thread_ok_def)
  show ?thesis
  proof (cases pc)
    case (PGet r)
    show ?thesis
    proof (cases r)
      case Nil
      then show ?thesis using assms PGet by (simp add: access_ok_def)
    next
      case (Cons e rest)
      obtain k x where e: "e = (k, x)" by (cases e)
      show ?thesis
      proof (cases "map_of (nd_index s) k")
        case None
        then have n: "pc' = PLock (length (nd_heap s)) r" and s': "s' = s\<lparr>nd_heap := nd_heap s @ [\<lparr>nd_key = k,
            nd_chain = Versions_from \<lparr>version = ver, value_of = x\<rparr>, nd_removed = False, nd_locked = False\<rparr>],
            nd_index := om_insert k (length (nd_heap s)) (nd_index s), nd_history := nd_history s @ [(k, \<lparr>version = ver, value_of = x\<rparr>)]\<rparr>"
          using assms(4) PGet Cons e by simp_all
        have "coll_thread_ok s' (Putter ver ws pc')"
          by (rule putter_okI [of _ _ _ pre]) (use n pre PGet Cons e in \<open>auto simp: s' refers_def\<close>)
        moreover have "frame A s s'" for A by (rule frame_append) (auto simp: s')
        ultimately show ?thesis using nodes_ok_insert [OF assms(1) None s'] n by (simp add: access_ok_def)
      next
        case (Some a)
        then have n: "pc' = PLock a r" "s' = s" using assms(4) PGet Cons e by simp_all
        have "coll_thread_ok s (Putter ver ws pc')"
          by (rule putter_okI [of _ _ _ pre]) (use n pre PGet Cons e heap_okD(2) [OF h Some] in \<open>auto simp: refers_def\<close>)
        then show ?thesis using n assms(1) by (simp add: access_ok_def)
      qed
    qed
  next
    case (PLock a r)
    show ?thesis
    proof (cases "nd_locked (nd_heap s ! a)")
      case True
      then show ?thesis using assms PLock by (simp add: access_ok_def)
    next
      case False
      then have n: "pc' = PCheck a r" and s': "s' = set_node a (nd_locked_update (\<lambda>_. True)) s" using assms(4) PLock by simp_all
      have "refers s a r" using ok PLock by simp
      then have "coll_thread_ok s' (Putter ver ws pc')"
        by (intro putter_okI [of _ _ _ pre]) (use n pre PLock in \<open>auto simp: s' node_locked_set refers_def set_node_nth_gen\<close>)
      moreover have "frame (touched (Putter ver ws pc) (Putter ver ws pc')) s s'"
        by (rule frame_node) (auto simp: s' n touched_def)
      ultimately show ?thesis using nodes_ok_lock [OF assms(1)] n False s' by (simp add: access_ok_def node_locked_def)
    qed
  next
    case (PCheck a r)
    then have n: "pc' = (if nd_removed (nd_heap s ! a) then PUnlock True a r else PPush a r)" "s' = s" using assms(4) by auto
    have "coll_thread_ok s (Putter ver ws pc')"
      by (rule putter_okI [of _ _ _ pre]) (use n pre PCheck ok held in \<open>auto simp: refers_def split: if_splits\<close>)
    then show ?thesis using n PCheck assms(1) by (simp add: access_ok_def)
  next
    case (PPush a r)
    then have r: "refers s a r" "\<not> nd_removed (nd_heap s ! a)" using ok by simp_all
    then obtain k x rest where e: "r = (k, x) # rest" "nd_key (nd_heap s ! a) = k" "a < length (nd_heap s)"
      by (cases r) (auto simp: refers_def)
    let ?y = "\<lparr>version = ver, value_of = x\<rparr>"
    have n: "pc' = PUnlock False a r" and s': "s' = (set_node a (nd_chain_update (\<lambda>versions. push versions ?y)) s)
        \<lparr>nd_history := nd_history s @ [(k, ?y)]\<rparr>" using assms(4) PPush e by simp_all
    have "in_order (k, ?y) (nd_history s)" using assms(3) PPush e by (simp add: install_ok_def)
    then have "nodes_ok s'" unfolding s' using nodes_ok_push [OF assms(1) e(3) r(2) _ e(2)] by simp
    moreover have "coll_thread_ok s' (Putter ver ws pc')"
      by (rule putter_okI [of _ _ _ "pre @ [(k, x)]"])
        (use n pre PPush e held in \<open>auto simp: s' node_locked_def set_node_nth\<close>)
    moreover have "frame (touched (Putter ver ws pc) (Putter ver ws pc')) s s'"
      by (rule frame_node) (auto simp: s' n touched_def)
    ultimately show ?thesis using n PPush by (simp add: access_ok_def)
  next
    case (PUnlock again a r)
    then have n: "pc' = (if again then PGet r else PDirty r)" and s': "s' = set_node a (nd_locked_update (\<lambda>_. False)) s"
      using assms(4) by simp_all
    have "coll_thread_ok s' (Putter ver ws pc')"
      by (rule putter_okI [of _ _ _ pre]) (use n pre PUnlock ok in \<open>auto simp: s' split: if_splits\<close>)
    moreover have "frame (touched (Putter ver ws pc) (Putter ver ws pc')) s s'"
      by (rule frame_node) (auto simp: s' PUnlock touched_def)
    ultimately show ?thesis using nodes_ok_lock [OF assms(1)] n s' by (simp add: access_ok_def)
  next
    case (PDirty r)
    then obtain k x rest where e: "r = (k, x) # rest" using ok by (cases r) auto
    then have n: "pc' = PGet rest" and s': "s' = s\<lparr>nd_dirty := nd_dirty s @ [k]\<rparr>" using assms(4) PDirty by simp_all
    have "coll_thread_ok s' (Putter ver ws pc')"
      by (rule putter_okI [of _ _ _ pre]) (use n pre PDirty e in \<open>auto simp: s'\<close>)
    moreover have "frame A s s'" for A by (simp add: frame_def s')
    ultimately show ?thesis using nodes_ok_dirty [OF assms(1)] n s' by (simp add: access_ok_def)
  qed
qed

lemma collect_step:
  assumes "nodes_ok s" "coll_thread_ok s (Collector pc)" "collect_next l s pc = (pc', s')"
  shows "access_ok s (Collector pc) s' (Collector pc')"
proof -
  note h = nodes_okD(1) [OF assms(1)]
  have ok: "collect_ok s pc" and held: "\<And>a. holds (Collector pc) = Some a \<Longrightarrow> node_locked s a"
    using assms(2) by (simp_all add: coll_thread_ok_def)
  show ?thesis
  proof (cases pc)
    case GNext
    then show ?thesis using assms by (auto simp: access_ok_def coll_thread_ok_def)
  next
    case (GFind c k)
    then show ?thesis using assms heap_okD(2) [OF h, of k] by (auto simp: access_ok_def coll_thread_ok_def split: option.splits)
  next
    case (GLock c a)
    show ?thesis
    proof (cases "nd_locked (nd_heap s ! a)")
      case True
      then show ?thesis using assms GLock by (simp add: access_ok_def)
    next
      case False
      then have n: "pc' = GCompact c a" and s': "s' = set_node a (nd_locked_update (\<lambda>_. True)) s" using assms(3) GLock by simp_all
      have "frame (touched (Collector pc) (Collector pc')) s s'" by (rule frame_node) (auto simp: s' n touched_def)
      moreover have "coll_thread_ok s' (Collector pc')" using ok GLock by (simp add: coll_thread_ok_def n s' node_locked_set)
      ultimately show ?thesis using nodes_ok_lock [OF assms(1)] n False s' by (simp add: access_ok_def node_locked_def)
    qed
  next
    case (GCompact c a)
    obtain versions n where g: "gc_older_versions (nd_chain (nd_heap s ! a)) c = (versions, n)"
      by (cases "gc_older_versions (nd_chain (nd_heap s ! a)) c")
    then have n: "pc' = (if n = 0 then GRemove a else GUnlock a)"
      and s': "s' = (set_node a (nd_chain_update (\<lambda>_. versions)) s)\<lparr>nd_cut := max (nd_cut s) c\<rparr>"
      using assms(3) GCompact by simp_all
    have a: "a < length (nd_heap s)" "nd_locked (nd_heap s ! a)" using held GCompact by (simp_all add: node_locked_def)
    have "n = length versions" using g gc_older_versions_length [of "nd_chain (nd_heap s ! a)" c] by simp
    then have "coll_thread_ok s' (Collector pc')"
      using a by (auto simp: coll_thread_ok_def n s' node_locked_def set_node_nth split: if_splits)
    moreover have "frame (touched (Collector pc) (Collector pc')) s s'"
      by (rule frame_node) (auto simp: s' n GCompact touched_def)
    moreover have "nodes_ok s'" unfolding s' by (rule nodes_ok_compact [OF assms(1) a(1) g])
    ultimately show ?thesis using n GCompact by (simp add: access_ok_def)
  next
    case (GRemove a)
    have a: "a < length (nd_heap s)" "nd_locked (nd_heap s ! a)" using held GRemove by (simp_all add: node_locked_def)
    have n: "pc' = GUnlock a" using assms(3) GRemove by simp
    show ?thesis
    proof (cases "nd_removed (nd_heap s ! a)")
      case True
      then show ?thesis using assms GRemove n by (simp add: access_ok_def coll_thread_ok_def)
    next
      case False
      then have s': "s' = (set_node a (nd_removed_update (\<lambda>_. True)) s)
          \<lparr>nd_index := om_remove (nd_key (nd_heap s ! a)) (nd_index s)\<rparr>" using assms(3) GRemove by simp
      have "frame (touched (Collector pc) (Collector pc')) s s'" by (rule frame_node) (auto simp: s' n touched_def)
      moreover have "coll_thread_ok s' (Collector pc')" using a by (simp add: coll_thread_ok_def n s' node_locked_def set_node_nth)
      moreover have "nodes_ok s'" using nodes_ok_remove [OF assms(1) a(1) _ False s'] ok GRemove by simp
      ultimately show ?thesis using n GRemove by (simp add: access_ok_def)
    qed
  next
    case (GUnlock a)
    then have n: "pc' = GNext" and s': "s' = set_node a (nd_locked_update (\<lambda>_. False)) s" using assms(3) by simp_all
    have "frame (touched (Collector pc) (Collector pc')) s s'" by (rule frame_node) (auto simp: s' GUnlock touched_def)
    moreover have "coll_thread_ok s' (Collector pc')" by (simp add: coll_thread_ok_def n)
    ultimately show ?thesis using nodes_ok_lock [OF assms(1)] n s' by (simp add: access_ok_def)
  qed
qed

lemma find_step:
  assumes "nodes_ok s" "coll_thread_ok s (Finder pc)" "pc = SNext \<Longrightarrow> nd_cut s \<le> fst l"
  shows "access_ok s (Finder pc) s (Finder (find_next l s pc))"
proof -
  note h = nodes_okD(1) [OF assms(1)]
  have "coll_thread_ok s (Finder (find_next l s pc))"
  proof (cases pc)
    case (SFind v k)
    then have "nd_cut s \<le> v" using assms(2) by (simp add: coll_thread_ok_def)
    with SFind show ?thesis using heap_okD(2) [OF h, of k] nodes_okD(2) [OF assms(1), of v k]
      by (auto simp: coll_thread_ok_def entry_read_def split: option.splits)
  next
    case (SRead v k a)
    then have a: "nd_cut s \<le> v" "a < length (nd_heap s)" "nd_key (nd_heap s ! a) = k"
      "nd_removed (nd_heap s ! a) \<Longrightarrow> history_value (nd_history s) k v = None"
      using assms(2) by (simp_all add: coll_thread_ok_def)
    have "value_at (nd_chain (nd_heap s ! a)) v = history_value (nd_history s) k v"
      using entry_read_at [OF h a(2), of v] heap_okD(5) [OF h a(2)] nodes_okD(2) [OF assms(1) a(1), of k] a(3,4)
      by (cases "nd_removed (nd_heap s ! a)") simp_all
    with SRead a(1) assms(2) show ?thesis
      using fetch_version_value_at [OF heap_okD(4) [OF h a(2)]] by (simp add: coll_thread_ok_def)
  qed (use assms(3) in \<open>auto simp: coll_thread_ok_def\<close>)
  then show ?thesis using assms(1) by (cases pc) (simp_all add: access_ok_def split: option.splits)
qed

lemma coll_access:
  assumes "nodes_ok s" "coll_thread_ok s t" "coll_tidy l s t us" "coll_next l s t = (t', s')"
  shows "access_ok s t s' t'"
proof (cases t)
  case (Putter ver ws pc)
  then obtain pc' where "put_next ver s pc = (pc', s')" "t' = Putter ver ws pc'" using assms(4) by (auto split: prod.splits)
  with put_step [OF assms(1) _ _ this(1)] assms(2,3) Putter show ?thesis by (simp add: coll_tidy_def)
next
  case (Collector pc)
  then obtain pc' where "collect_next l s pc = (pc', s')" "t' = Collector pc'" using assms(4) by (auto split: prod.splits)
  with collect_step [OF assms(1) _ this(1)] assms(2) Collector show ?thesis by simp
next
  case (Finder pc)
  with find_step [OF assms(1), of pc l] assms(2-4) show ?thesis by (auto simp: coll_tidy_def)
qed

text \<open>The readers: what they are looking for does not change under them.\<close>

lemma coll_history_next:
  "coll_next l s t = (t', s') \<Longrightarrow> nd_history s' = nd_history s @ (case installing s t of None \<Rightarrow> [] | Some e \<Rightarrow> [e])"
  by (induction l s t rule: coll_next.induct)
    (auto elim!: put_next.elims collect_next.elims split: prod.splits option.splits if_splits)

lemma coll_cut_next:
  "coll_next l s t = (t', s') \<Longrightarrow> nd_cut s' = (case t of Collector (GCompact c a) \<Rightarrow> max (nd_cut s) c | _ \<Rightarrow> nd_cut s)"
  by (induction l s t rule: coll_next.induct)
    (auto elim!: put_next.elims collect_next.elims split: prod.splits option.splits if_splits)

lemma coll_removed_next:
  assumes "coll_thread_ok s t" "coll_next l s t = (t', s')" "b < length (nd_heap s)"
    and "nd_removed (nd_heap s' ! b)" "\<not> nd_removed (nd_heap s ! b)"
  shows "nd_chain (nd_heap s ! b) = []"
proof -
  have "t = Collector (GRemove b)"
    using assms(2-5)
    by (induction l s t rule: coll_next.induct)
      (auto elim!: put_next.elims collect_next.elims simp: set_node_nth_gen nth_append
        split: prod.splits option.splits if_splits)
  with assms(1) show ?thesis by (simp add: coll_thread_ok_def)
qed

lemma coll_history:
  assumes "coll_tidy l s t us" "coll_next l s t = (t', s')" "u \<in> set us" "looking_for u = Some (v, k)" "nd_cut s \<le> v"
  shows "history_value (nd_history s') k v = history_value (nd_history s) k v \<and> nd_cut s' \<le> v"
proof
  show "history_value (nd_history s') k v = history_value (nd_history s) k v"
    using assms(1,3,4) unfolding coll_history_next [OF assms(2)]
    by (auto simp: coll_tidy_def install_ok_def list_all_iff split: option.splits)
  show "nd_cut s' \<le> v"
    using assms(1,3-5) unfolding coll_cut_next [OF assms(2)]
    by (fastforce simp: coll_tidy_def list_all_iff split: coll_thread.splits coll_pc.splits)
qed

lemma coll_other:
  assumes "nodes_ok s" "coll_thread_ok s t" "coll_tidy l s t us" "coll_next l s t = (t', s')" "u \<in> set us"
    and "coll_thread_ok s u" "apart s t u"
  shows "coll_thread_ok s' u \<and> apart s' t' u \<and> apart s' u t'"
proof -
  note a = coll_access [OF assms(1-4)]
  have fr: "frame (touched t t') s s'" using a by (simp add: access_ok_def)
  have held: "node_locked s b" if "holds u = Some b" for b using assms(6) that by (simp add: coll_thread_ok_def)
  have free: "b \<notin> touched t t'" if "holds u = Some b" for b
    using a assms(7) held [OF that] that by (auto simp: access_ok_def touched_def apart_def)
  have look: "nd_cut s \<le> v" if "looking_for u = Some (v, k)" for v k using assms(6) that by (auto simp: coll_thread_ok_def)
  note hist = coll_history [OF assms(3-5)]
  have "coll_pc_ok s' u"
  proof (cases u)
    case (Putter ver ws pc)
    with assms(6) frame_put [OF fr, of pc ver ws] held free fr show ?thesis
      by (fastforce simp: coll_thread_ok_def frame_def)
  next
    case (Collector pc)
    with assms(6) frame_collect [OF fr, of pc] held free show ?thesis by (simp add: coll_thread_ok_def)
  next
    case (Finder pc)
    show ?thesis
    proof (cases pc)
      case (SRead v k b)
      have o: "b < length (nd_heap s)" "nd_key (nd_heap s ! b) = k" "nd_cut s \<le> v"
        "nd_removed (nd_heap s ! b) \<Longrightarrow> history_value (nd_history s) k v = None"
        using assms(6) Finder SRead by (simp_all add: coll_thread_ok_def)
      have "history_value (nd_history s) k v = None" if "nd_removed (nd_heap s' ! b)"
      proof (cases "nd_removed (nd_heap s ! b)")
        case False
        from coll_removed_next [OF assms(2,4) o(1) that False] entry_read_at [OF nodes_okD(1) [OF assms(1)] o(1) False, of v]
          nodes_okD(2) [OF assms(1) o(3), of k] o(2) show ?thesis by simp
      qed (rule o(4))
      with Finder SRead o(1,2) fr hist [of v k] o(3) show ?thesis by (auto simp: frame_def)
    qed (use Finder assms(6) hist look in \<open>auto simp: coll_thread_ok_def\<close>)
  qed
  moreover have "\<forall>b. holds u = Some b \<longrightarrow> node_locked s' b" using frame_held(2) [OF fr held free] by blast
  moreover have "\<forall>v k. looking_for u = Some (v, k) \<longrightarrow> nd_cut s' \<le> v" using hist look by blast
  moreover have "apart s' t' u" "apart s' u t'" using free by (auto simp: apart_def touched_def)
  ultimately show ?thesis by (simp add: coll_thread_ok_def)
qed

interpretation collecting: pool_invariant coll_next coll_tidy nodes_ok coll_thread_ok apart
proof
  show "nodes_ok s' \<and> coll_thread_ok s' t'"
    if "nodes_ok s" "coll_thread_ok s t" "coll_tidy l s t us" "coll_next l s t = (t', s')" for s t l us t' s'
    using coll_access [OF that] by (simp add: access_ok_def)
  show "coll_thread_ok s' u \<and> apart s' t' u \<and> apart s' u t'"
    if "nodes_ok s" "coll_thread_ok s t" "coll_tidy l s t us" "coll_next l s t = (t', s')" "u \<in> set us"
      "coll_thread_ok s u" "apart s t u" for s t l us t' s' u
    by (rule coll_other [OF that])
  show "apart s' u w" if "apart s u w" for s s' u w using that by (simp add: apart_def)
qed

section \<open>Tidy runs\<close>

lemma history_of_store:
  assumes "store_wf ds"
  shows "history_value (concat (map (\<lambda>e. map (Pair (fst e)) (snd e)) ds)) k v = store_fetch ds k v"
proof -
  have *: "distinct (map fst ds) \<Longrightarrow> map snd (filter (\<lambda>e. fst e = k) (concat (map (\<lambda>e. map (Pair (fst e)) (snd e)) ds)))
      = (case map_of ds k of None \<Rightarrow> [] | Some vs \<Rightarrow> vs)"
  proof (induction ds)
    case (Cons e ds)
    have "filter (\<lambda>z. fst z = k) (map (Pair (fst e)) (snd e)) = (if fst e = k then map (Pair k) (snd e) else [])" by (auto simp: filter_map comp_def)
    moreover have "fst e = k \<Longrightarrow> map_of ds k = None" using Cons.prems by (auto simp: map_of_eq_None_iff)
    ultimately show ?case using Cons by (auto simp: comp_def split: option.splits)
  qed simp
  have "distinct (map fst ds)" using assms by (simp add: store_wf_def om_wf_distinct)
  with * show ?thesis using fetch_version_value_at [OF store_wf_get [OF assms]]
    by (auto simp: history_value_def store_fetch_def split: option.splits)
qed

lemma map_of_zip_nth:
  "distinct (map fst ds) \<Longrightarrow> map_of (zip (map fst ds) [0..<length ds]) k = Some a \<longleftrightarrow> a < length ds \<and> fst (ds ! a) = k"
  by (auto simp: set_zip intro!: exI [of _ a])

lemma nodes_of_ok:
  assumes "store_wf ds" shows "nodes_ok (nodes_of ds)"
proof -
  have d: "distinct (map fst ds)" "om_wf ds" using assms by (simp_all add: store_wf_def om_wf_distinct)
  note z = map_of_zip_nth [OF d(1)]
  have wf: "a < length ds \<Longrightarrow> versions_wf (snd (ds ! a))" for a using assms by (simp add: store_wf_def)
  have h: "heap_ok (nodes_of ds)"
  proof (rule heap_okI)
    show "(nd_key (nd_heap (nodes_of ds) ! a), y) \<in> set (nd_history (nodes_of ds))"
      if "a < length (nd_heap (nodes_of ds))" "y \<in> set (nd_chain (nd_heap (nodes_of ds) ! a))" for a y
      using that by (auto simp: nodes_of_def intro!: bexI [of _ "ds ! a"])
  qed (use d z wf in \<open>auto simp: nodes_of_def om_wf_def\<close>)
  have "entry_read (nodes_of ds) k v = store_fetch ds k v" for k v
  proof (cases "map_of ds k")
    case None
    have "set (map fst (zip (map fst ds) [0..<length ds])) = set (map fst ds)" by (subst map_fst_zip) simp_all
    with None have "map_of (nd_index (nodes_of ds)) k = None"
      by (simp only: nodes_of_def node_shared.simps map_of_eq_None_iff list.set_map not_False_eq_True)
    with None show ?thesis by (simp only: entry_read_def store_fetch_def option.case)
  next
    case (Some vs)
    then obtain a where a: "a < length ds" "ds ! a = (k, vs)" by (metis in_set_conv_nth map_of_SomeD)
    with z have "map_of (zip (map fst ds) [0..<length ds]) k = Some a" by simp
    with Some a show ?thesis by (simp add: entry_read_def store_fetch_def nodes_of_def)
  qed
  with h history_of_store [OF assms] show ?thesis by (simp add: nodes_ok_def nodes_of_def)
qed

lemma coll_start_ok:
  assumes "store_wf ds" shows "collecting.pool_ok (coll_start ds wss m n)"
proof -
  let ?ts = "snd (coll_start ds wss m n)"
  have t: "t \<in> set ?ts \<Longrightarrow> holds t = None \<and> coll_thread_ok (nodes_of ds) t" for t
    by (auto simp: coll_start_def coll_thread_ok_def)
  have "coll_thread_ok (nodes_of ds) (?ts ! i) \<and> holds (?ts ! i) = None" if "i < length ?ts" for i
    using t [OF nth_mem [OF that]] by simp
  moreover have "fst (coll_start ds wss m n) = nodes_of ds" by (simp add: coll_start_def)
  ultimately show ?thesis unfolding collecting.pool_ok_def apart_def using nodes_of_ok [OF assms] by simp
qed

text \<open>In a tidy run the store shows the writes, a finished write is among them, and a reader has read them.\<close>

lemma tidy_collection:
  assumes "pool_steps coll_next coll_tidy (coll_start ds wss m n) (s, ts)" and "store_wf ds"
  shows "nd_cut s \<le> v \<Longrightarrow> entry_read s k v = history_value (nd_history s) k v"
    and "Putter ver ws (PGet []) \<in> set ts \<Longrightarrow> (k, x) \<in> set ws \<Longrightarrow> (k, \<lparr>version = ver, value_of = x\<rparr>) \<in> set (nd_history s)"
    and "Finder (SGot v k y) \<in> set ts \<Longrightarrow> y = history_value (nd_history s) k v"
proof -
  note ok = collecting.pool_okD [OF collecting.steps_ok [OF assms(1) coll_start_ok [OF assms(2)]]]
  have t: "t \<in> set ts \<Longrightarrow> coll_thread_ok s t" for t using ok(2) by (auto simp: in_set_conv_nth)
  show "nd_cut s \<le> v \<Longrightarrow> entry_read s k v = history_value (nd_history s) k v" using nodes_okD(2) [OF ok(1)] .
  show "Putter ver ws (PGet []) \<in> set ts \<Longrightarrow> (k, x) \<in> set ws \<Longrightarrow> (k, \<lparr>version = ver, value_of = x\<rparr>) \<in> set (nd_history s)"
    using t [of "Putter ver ws (PGet [])"] by (auto simp: coll_thread_ok_def)
  show "Finder (SGot v k y) \<in> set ts \<Longrightarrow> y = history_value (nd_history s) k v" using t [of "Finder (SGot v k y)"] by (simp add: coll_thread_ok_def)
qed

end
