(* ===== verification/Collecting_Progress.thy ===== *)
theory Collecting_Progress
  imports Collecting
begin

text \<open>
  Progress, the sequential reading and a failure of the protocol of theory \<open>Collecting\<close>: every write can
  be finished from every reachable state, a writer and a collector that run alone are the sequential
  functions, and a run out of order revives a deleted key.
\<close>

section \<open>Threads that run alone\<close>

lemma om_keys_map: "om_wf m \<Longrightarrow> map (\<lambda>k. (k, the (map_of m k))) (map fst m) = m"
  by (simp add: comp_def, rule map_idI) (auto simp: om_wf_map_of_iff [symmetric])

lemma om_ext:
  assumes "om_wf m" "om_wf m'" "map_of m = map_of m'"
  shows "m = m'"
proof -
  have "set (map fst m) = set (map fst m')"
    using assms(3) by (auto simp: om_wf_map_of_iff [OF assms(1), symmetric] om_wf_map_of_iff [OF assms(2), symmetric] image_iff
        dom_map_of_conv_image_fst [symmetric] simp del: dom_map_of_conv_image_fst)
  then have "map fst m = map fst m'"
    using assms(1,2) by (intro strict_sorted_equal) (simp_all add: om_wf_def)
  then show ?thesis using om_keys_map [OF assms(1)] om_keys_map [OF assms(2)] assms(3) by simp
qed

lemma map_of_map_values: "map_of (map (\<lambda>(k, a). (k, f a)) m) k = map_option f (map_of m k)"
  by (induction m) auto

text \<open>The data store of the sequential model, with the nodes followed.\<close>

definition store_of :: "node_shared \<Rightarrow> datastore" where
  "store_of s = map (\<lambda>(k, a). (k, nd_chain (nd_heap s ! a))) (nd_index s)"

lemma map_of_store_of: "map_of (store_of s) k = map_option (\<lambda>a. nd_chain (nd_heap s ! a)) (map_of (nd_index s) k)"
  by (simp add: store_of_def map_of_map_values)

lemma om_wf_store_of: "om_wf (nd_index s) \<Longrightarrow> om_wf (store_of s)"
  by (simp add: store_of_def om_wf_def comp_def case_prod_unfold)

text \<open>A memory in which no lock is taken and the entries of the store are in place.\<close>

definition index_ok :: "node_shared \<Rightarrow> bool" where
  "index_ok s \<longleftrightarrow> om_wf (nd_index s)
     \<and> (\<forall>k a. map_of (nd_index s) k = Some a \<longrightarrow>
          a < length (nd_heap s) \<and> nd_key (nd_heap s ! a) = k \<and> \<not> nd_removed (nd_heap s ! a))"

lemma index_okI:
  assumes "om_wf (nd_index s)" and "\<And>k a. map_of (nd_index s) k = Some a \<Longrightarrow>
    a < length (nd_heap s) \<and> nd_key (nd_heap s ! a) = k \<and> \<not> nd_removed (nd_heap s ! a)"
  shows "index_ok s"
  unfolding index_ok_def using assms by blast

lemma index_okD:
  assumes "index_ok s"
  shows "om_wf (nd_index s)" "map_of (nd_index s) k = Some a \<Longrightarrow>
    a < length (nd_heap s) \<and> nd_key (nd_heap s ! a) = k \<and> \<not> nd_removed (nd_heap s ! a)"
  using assms by (simp_all add: index_ok_def)

definition unlocked :: "node_shared \<Rightarrow> bool" where
  "unlocked s \<longleftrightarrow> (\<forall>a<length (nd_heap s). \<not> nd_locked (nd_heap s ! a))"

lemma index_ok_nodes:
  assumes "index_ok s" "nd_index s' = nd_index s" "length (nd_heap s') = length (nd_heap s)"
    and "\<And>b. nd_key (nd_heap s' ! b) = nd_key (nd_heap s ! b)" "\<And>b. nd_removed (nd_heap s' ! b) = nd_removed (nd_heap s ! b)"
  shows "index_ok s'"
  using assms by (simp add: index_ok_def)

lemma index_ok_insert:
  assumes "index_ok s" "nd_heap s' = nd_heap s @ [n]" "nd_index s' = om_insert k (length (nd_heap s)) (nd_index s)"
    and "nd_key n = k" "\<not> nd_removed n"
  shows "index_ok s'"
proof (rule index_okI)
  show "b < length (nd_heap s') \<and> nd_key (nd_heap s' ! b) = k' \<and> \<not> nd_removed (nd_heap s' ! b)"
    if "map_of (nd_index s') k' = Some b" for k' b
  proof (cases "k' = k")
    case True
    with that have "b = length (nd_heap s)" by (simp add: assms(3) map_of_om_insert)
    with True assms(4,5) show ?thesis by (simp add: assms(2) nth_append)
  next
    case False
    with that have "map_of (nd_index s) k' = Some b" by (simp add: assms(3) map_of_om_insert)
    from index_okD(2) [OF assms(1) this] show ?thesis by (simp add: assms(2) nth_append)
  qed
qed (simp add: index_okD(1) [OF assms(1)] assms(3) om_wf_insert)

lemma index_ok_remove:
  assumes "index_ok s" "length (nd_heap s') = length (nd_heap s)" "nd_index s' = om_remove (nd_key (nd_heap s ! a)) (nd_index s)"
    and "\<And>b. nd_key (nd_heap s' ! b) = nd_key (nd_heap s ! b)"
    and "\<And>b. b \<noteq> a \<Longrightarrow> nd_removed (nd_heap s' ! b) = nd_removed (nd_heap s ! b)"
  shows "index_ok s'"
proof (rule index_okI)
  show "b < length (nd_heap s') \<and> nd_key (nd_heap s' ! b) = k \<and> \<not> nd_removed (nd_heap s' ! b)"
    if "map_of (nd_index s') k = Some b" for k b
  proof -
    from that have k: "map_of (nd_index s) k = Some b" "k \<noteq> nd_key (nd_heap s ! a)"
      by (simp_all add: assms(3) map_of_om_remove split: if_splits)
    note b = index_okD(2) [OF assms(1) k(1)]
    then have "b \<noteq> a" using k(2) by blast
    with b assms(2,4,5) show ?thesis by simp
  qed
qed (simp add: index_okD(1) [OF assms(1)] assms(3) om_wf_remove)

lemma store_of_write:
  assumes "index_ok s" "map_of (nd_index s) k = Some a" "nd_index s' = nd_index s"
    and "\<And>b. nd_chain (nd_heap s' ! b) = (if b = a then c else nd_chain (nd_heap s ! b))"
  shows "store_of s' = om_insert k c (store_of s)"
proof (rule om_ext)
  have other: "map_of (nd_index s) k' = Some a \<longleftrightarrow> k' = k" for k'
    using index_okD(2) [OF assms(1), of k' a] index_okD(2) [OF assms(1,2)] assms(2) by blast
  show "map_of (store_of s') = map_of (om_insert k c (store_of s))"
  proof
    fix k'
    show "map_of (store_of s') k' = map_of (om_insert k c (store_of s)) k'"
    proof (cases "map_of (nd_index s) k'")
      case None
      with assms(2) have "k' \<noteq> k" by auto
      with None show ?thesis by (simp only: map_of_om_insert fun_upd_apply if_False map_of_store_of assms(3) option.map)
    next
      case (Some b)
      with other [of k'] show ?thesis by (cases "k' = k") (simp_all add: map_of_store_of map_of_om_insert assms(3,4))
    qed
  qed
qed (use index_okD(1) [OF assms(1)] assms(3) in \<open>simp_all add: om_wf_store_of om_wf_insert\<close>)

lemma store_of_remove:
  assumes "om_wf (nd_index s)" "nd_index s' = om_remove k (nd_index s)"
    and "\<And>k' b. map_of (nd_index s) k' = Some b \<Longrightarrow> k' \<noteq> k \<Longrightarrow> nd_chain (nd_heap s' ! b) = nd_chain (nd_heap s ! b)"
  shows "store_of s' = om_remove k (store_of s)"
proof (rule om_ext)
  show "map_of (store_of s') = map_of (om_remove k (store_of s))"
  proof
    fix k'
    show "map_of (store_of s') k' = map_of (om_remove k (store_of s)) k'"
      using assms(3) [of k'] by (cases "k' = k"; cases "map_of (nd_index s) k'")
        (simp_all only: map_of_om_remove fun_upd_apply if_True if_False map_of_store_of assms(2) option.map simp_thms)
  qed
qed (use assms(1,2) in \<open>simp_all add: om_wf_store_of om_wf_remove\<close>)

definition put_alone :: "u64 \<Rightarrow> put_pc \<times> node_shared \<Rightarrow> put_pc \<times> node_shared" where
  "put_alone ver p = put_next ver (snd p) (fst p)"

lemma put_alone_Suc: "put_next ver s pc = (pc', s') \<Longrightarrow> (put_alone ver ^^ n) (pc', s') = q \<Longrightarrow> (put_alone ver ^^ Suc n) (pc, s) = q"
  by (simp add: put_alone_def funpow_Suc_right del: funpow.simps)

text \<open>From the lock on: an entry that is in the store is written and released.\<close>

lemma put_alone_lock:
  assumes "index_ok s" "unlocked s" "a < length (nd_heap s)" "\<not> nd_removed (nd_heap s ! a)"
  shows "\<exists>s'. (put_alone ver ^^ 5) (PLock a ((k, x) # rest), s) = (PGet rest, s') \<and> index_ok s' \<and> unlocked s'
    \<and> nd_index s' = nd_index s \<and> nd_dirty s' = nd_dirty s @ [k]
    \<and> (\<forall>b. nd_chain (nd_heap s' ! b) = (if b = a then push (nd_chain (nd_heap s ! a)) \<lparr>version = ver, value_of = x\<rparr>
         else nd_chain (nd_heap s ! b)))"
proof -
  let ?l = "set_node a (nd_locked_update (\<lambda>_. True)) s"
  let ?y = "\<lparr>version = ver, value_of = x\<rparr>"
  let ?p = "(set_node a (nd_chain_update (\<lambda>versions. push versions ?y)) ?l)\<lparr>nd_history := nd_history s @ [(k, ?y)]\<rparr>"
  let ?u = "set_node a (nd_locked_update (\<lambda>_. False)) ?p"
  let ?s = "?u\<lparr>nd_dirty := nd_dirty ?u @ [k]\<rparr>"
  have "(put_alone ver ^^ 5) (PLock a ((k, x) # rest), s) = (PGet rest, ?s)"
    using assms(2-4) by (simp add: eval_nat_numeral put_alone_def unlocked_def set_node_nth)
  moreover have "index_ok ?s" using assms(1,3,4) by (auto simp: index_ok_def set_node_nth_gen)
  moreover have "unlocked ?s" using assms(2) by (auto simp: unlocked_def set_node_nth_gen)
  ultimately show ?thesis using assms(3) by (intro exI [of _ ?s]) (simp add: set_node_nth_gen)
qed

lemma put_alone_write:
  assumes "index_ok s" "unlocked s"
  shows "\<exists>s'. (put_alone ver ^^ 6) (PGet ((k, x) # rest), s) = (PGet rest, s') \<and> index_ok s' \<and> unlocked s'
    \<and> store_of s' = ds_write ver (k, x) (store_of s) \<and> nd_dirty s' = nd_dirty s @ [k]"
proof -
  let ?y = "\<lparr>version = ver, value_of = x\<rparr>"
  obtain a s1 where 1: "put_next ver s (PGet ((k, x) # rest)) = (PLock a ((k, x) # rest), s1)" "index_ok s1" "unlocked s1"
    "map_of (nd_index s1) k = Some a" "nd_dirty s1 = nd_dirty s"
    "store_of s1 = snd (om_get_or_insert k (Versions_from ?y) (store_of s))"
    "nd_chain (nd_heap s1 ! a) = fst (om_get_or_insert k (Versions_from ?y) (store_of s))"
  proof (cases "map_of (nd_index s) k")
    case (Some a)
    show ?thesis by (rule that [of a s]) (use Some assms in \<open>simp_all add: om_get_or_insert_def map_of_store_of\<close>)
  next
    case None
    let ?s1 = "s\<lparr>nd_heap := nd_heap s @ [\<lparr>nd_key = k, nd_chain = Versions_from ?y, nd_removed = False, nd_locked = False\<rparr>],
        nd_index := om_insert k (length (nd_heap s)) (nd_index s), nd_history := nd_history s @ [(k, ?y)]\<rparr>"
    have i: "index_ok ?s1" by (rule index_ok_insert [OF assms(1)], simp, simp, simp, simp)
    have "store_of ?s1 = om_insert k (Versions_from ?y) (store_of s)"
    proof (rule om_ext)
      show "map_of (store_of ?s1) = map_of (om_insert k (Versions_from ?y) (store_of s))"
        using assms(1) by (auto simp: fun_eq_iff map_of_store_of map_of_om_insert nth_append index_ok_def
            intro!: option.map_cong)
    qed (use assms(1) i in \<open>simp_all add: om_wf_store_of om_wf_insert index_ok_def\<close>)
    moreover have "unlocked ?s1" using assms(2) by (auto simp: unlocked_def nth_append less_Suc_eq)
    ultimately show ?thesis
      by (intro that [of "length (nd_heap s)" ?s1])
        (use i None in \<open>simp_all add: om_get_or_insert_def map_of_store_of map_of_om_insert\<close>)
  qed
  have a: "a < length (nd_heap s1)" "\<not> nd_removed (nd_heap s1 ! a)" using 1(2,4) by (simp_all add: index_ok_def)
  obtain s' where 2: "(put_alone ver ^^ 5) (PLock a ((k, x) # rest), s1) = (PGet rest, s')" "index_ok s'" "unlocked s'"
    "nd_index s' = nd_index s1" "nd_dirty s' = nd_dirty s1 @ [k]"
    "\<forall>b. nd_chain (nd_heap s' ! b) = (if b = a then push (nd_chain (nd_heap s1 ! a)) ?y else nd_chain (nd_heap s1 ! b))"
    using put_alone_lock [OF 1(2,3) a, of ver k x rest] by blast
  have "store_of s' = om_insert k (push (nd_chain (nd_heap s1 ! a)) ?y) (store_of s1)"
    by (rule store_of_write [OF 1(2,4) 2(4)]) (use 2(6) in auto)
  then have "store_of s' = ds_write ver (k, x) (store_of s)" using 1(6,7) by (simp add: ds_write_def case_prod_unfold Let_def)
  moreover have "(put_alone ver ^^ 6) (PGet ((k, x) # rest), s) = (PGet rest, s')"
  proof -
    have "(6 :: nat) = Suc 5" by simp
    then show ?thesis using put_alone_Suc [OF 1(1) 2(1)] by (simp only:)
  qed
  ultimately show ?thesis using 2(2,3,5) 1(5) by (intro exI [of _ s']) simp
qed

lemma put_alone_all:
  "index_ok s \<Longrightarrow> unlocked s \<Longrightarrow> \<exists>n s'. (put_alone ver ^^ n) (PGet ws, s) = (PGet [], s') \<and> index_ok s' \<and> unlocked s'
    \<and> store_of s' = fold (ds_write ver) ws (store_of s) \<and> nd_dirty s' = nd_dirty s @ map fst ws"
proof (induction ws arbitrary: s)
  case Nil
  then show ?case by (intro exI [of _ 0] exI [of _ s]) simp
next
  case (Cons e ws)
  obtain k x where e: "e = (k, x)" by (cases e)
  from put_alone_write [OF Cons.prems, of ver k x ws] obtain s1 where 1:
    "(put_alone ver ^^ 6) (PGet ((k, x) # ws), s) = (PGet ws, s1)" "index_ok s1" "unlocked s1"
    "store_of s1 = ds_write ver (k, x) (store_of s)" "nd_dirty s1 = nd_dirty s @ [k]" by blast
  from Cons.IH [OF 1(2,3)] obtain n s' where "(put_alone ver ^^ n) (PGet ws, s1) = (PGet [], s')" "index_ok s'" "unlocked s'"
    "store_of s' = fold (ds_write ver) ws (store_of s1)" "nd_dirty s' = nd_dirty s1 @ map fst ws" by blast
  then show ?case using 1 e
    by (intro exI [of _ "n + 6"] exI [of _ s']) (simp add: funpow_add)
qed

text \<open>The collector, for one key.\<close>

definition collect_alone :: "coll_pc \<times> node_shared \<Rightarrow> coll_pc \<times> node_shared" where
  "collect_alone p = collect_next (0, []) (snd p) (fst p)"

lemma collect_alone_key:
  assumes "index_ok s" "unlocked s"
  shows "\<exists>n s'. (collect_alone ^^ n) (GFind c k, s) = (GNext, s') \<and> index_ok s' \<and> unlocked s'
    \<and> store_of s' = gc_key_store k c (store_of s) \<and> nd_dirty s' = nd_dirty s"
proof (cases "map_of (nd_index s) k")
  case None
  then have "(collect_alone ^^ 1) (GFind c k, s) = (GNext, s)" by (simp only: funpow_simps_right funpow_0 One_nat_def comp_apply id_apply collect_alone_def fst_conv snd_conv collect_next.simps option.case)
  moreover have "gc_key_store k c (store_of s) = store_of s"
    by (simp only: gc_key_store_def map_of_store_of None option.map option.case)
  ultimately show ?thesis using assms by (intro exI [of _ 1] exI [of _ s]) (simp only: simp_thms)
next
  case (Some a)
  note a = index_okD(2) [OF assms(1) Some]
  let ?l = "set_node a (nd_locked_update (\<lambda>_. True)) s"
  obtain versions m where g: "gc_older_versions (nd_chain (nd_heap s ! a)) c = (versions, m)"
    by (cases "gc_older_versions (nd_chain (nd_heap s ! a)) c")
  let ?g = "(set_node a (nd_chain_update (\<lambda>_. versions)) ?l)\<lparr>nd_cut := max (nd_cut s) c\<rparr>"
  let ?r = "(set_node a (nd_removed_update (\<lambda>_. True)) ?g)\<lparr>nd_index := om_remove k (nd_index s)\<rparr>"
  show ?thesis
  proof (cases "m = 0")
    case True
    let ?s = "set_node a (nd_locked_update (\<lambda>_. False)) ?r"
    have run: "(collect_alone ^^ 5) (GFind c k, s) = (GNext, ?s)"
      using a assms(2) Some g True by (simp add: eval_nat_numeral collect_alone_def unlocked_def set_node_nth)
    have other: "b \<noteq> a" if "map_of (nd_index s) k' = Some b" "k' \<noteq> k" for k' b
      using index_okD(2) [OF assms(1) that(1)] a that(2) by blast
    have "index_ok ?s" by (rule index_ok_remove [OF assms(1)]) (use a in \<open>auto simp: set_node_nth_gen\<close>)
    moreover have "unlocked ?s" using assms(2) by (auto simp: unlocked_def set_node_nth_gen)
    moreover have "store_of ?s = om_remove k (store_of s)"
      by (rule store_of_remove [OF index_okD(1) [OF assms(1)]]) (use other in \<open>auto simp: set_node_nth_gen\<close>)
    ultimately show ?thesis
      using run g True Some by (intro exI [of _ 5] exI [of _ ?s]) (simp add: gc_key_store_def map_of_store_of)
  next
    case False
    let ?s = "set_node a (nd_locked_update (\<lambda>_. False)) ?g"
    have run: "(collect_alone ^^ 4) (GFind c k, s) = (GNext, ?s)"
      using a assms(2) Some g False by (simp add: eval_nat_numeral collect_alone_def unlocked_def set_node_nth)
    have "index_ok ?s" by (rule index_ok_nodes [OF assms(1)]) (simp_all add: set_node_nth_gen)
    moreover have "unlocked ?s" using assms(2) by (auto simp: unlocked_def set_node_nth_gen)
    moreover have "store_of ?s = om_insert k versions (store_of s)"
      by (rule store_of_write [OF assms(1) Some]) (use a in \<open>simp_all add: set_node_nth_gen\<close>)
    ultimately show ?thesis
      using run g False Some by (intro exI [of _ 4] exI [of _ ?s]) (simp add: gc_key_store_def map_of_store_of)
  qed
qed

lemma nodes_of_quiet:
  assumes "store_wf ds" shows "index_ok (nodes_of ds)" "unlocked (nodes_of ds)" "store_of (nodes_of ds) = ds"
proof -
  show "index_ok (nodes_of ds)" using nodes_okD(1) [OF nodes_of_ok [OF assms]] by (simp add: heap_ok_def index_ok_def)
  show "unlocked (nodes_of ds)" by (simp add: unlocked_def nodes_of_def)
  show "store_of (nodes_of ds) = ds"
    by (rule nth_equalityI) (simp_all add: store_of_def nodes_of_def)
qed

section \<open>Progress\<close>

fun points_to :: "coll_thread \<Rightarrow> nat option" where
  "points_to (Putter ver ws (PLock a r)) = Some a"
| "points_to (Collector (GLock c a)) = Some a"
| "points_to t = holds t"

text \<open>References are to nodes, and every locked node is locked by a thread of the pool.\<close>

definition links_ok :: "(node_shared, coll_thread) pool \<Rightarrow> bool" where
  "links_ok p \<longleftrightarrow> index_ok (fst p)
     \<and> (\<forall>t\<in>set (snd p). \<forall>a. points_to t = Some a \<longrightarrow> a < length (nd_heap (fst p)))
     \<and> (\<forall>a<length (nd_heap (fst p)). nd_locked (nd_heap (fst p) ! a) \<longrightarrow> (\<exists>t\<in>set (snd p). holds t = Some a))"

lemma locks_next:
  assumes "coll_next l s t = (t', s')" "a < length (nd_heap s')" "nd_locked (nd_heap s' ! a)"
  shows "holds t' = Some a \<or> a < length (nd_heap s) \<and> nd_locked (nd_heap s ! a) \<and> holds t \<noteq> Some a"
  using assms
  by (induction l s t rule: coll_next.induct)
    (auto elim!: put_next.elims collect_next.elims simp: set_node_nth_gen nth_append
      split: prod.splits option.splits if_splits)

lemma put_links:
  assumes "put_next ver s pc = (pc', s')" "index_ok s"
    and "\<And>a. points_to (Putter ver ws pc) = Some a \<Longrightarrow> a < length (nd_heap s)"
  shows "index_ok s' \<and> length (nd_heap s) \<le> length (nd_heap s')
    \<and> (\<forall>a. points_to (Putter ver ws pc') = Some a \<longrightarrow> a < length (nd_heap s'))"
  using assms(1)
proof (cases rule: put_next.elims)
  case (2 ver k x rest)
  show ?thesis
  proof (cases "map_of (nd_index s) k")
    case None
    then have "index_ok s'" using 2 by (intro index_ok_insert [OF assms(2)]) auto
    with None 2 show ?thesis by auto
  next
    case (Some a)
    with 2 index_okD(2) [OF assms(2) Some] assms(2) show ?thesis by auto
  qed
qed (use assms(2,3) in \<open>auto simp: set_node_nth_gen intro!: index_ok_nodes [OF assms(2)] split: if_splits\<close>)

lemma collect_links:
  assumes "collect_next l s pc = (pc', s')" "index_ok s"
    and "\<And>a. points_to (Collector pc) = Some a \<Longrightarrow> a < length (nd_heap s)"
  shows "index_ok s' \<and> length (nd_heap s) \<le> length (nd_heap s')
    \<and> (\<forall>a. points_to (Collector pc') = Some a \<longrightarrow> a < length (nd_heap s'))"
  using assms(1)
proof (cases rule: collect_next.elims)
  case (2 l c k)
  then show ?thesis using assms(2) index_okD(2) [OF assms(2), of k] by (auto split: option.splits)
next
  case (5 l a)
  then show ?thesis using assms(2,3)
    by (auto simp: set_node_nth_gen intro!: index_ok_remove [OF assms(2), of _ a] split: if_splits)
qed (use assms(2,3) in \<open>auto simp: set_node_nth_gen intro!: index_ok_nodes [OF assms(2)] split: if_splits prod.splits\<close>)

lemma coll_links:
  assumes "coll_next l s t = (t', s')" "index_ok s" "\<And>a. points_to t = Some a \<Longrightarrow> a < length (nd_heap s)"
  shows "index_ok s' \<and> length (nd_heap s) \<le> length (nd_heap s') \<and> (\<forall>a. points_to t' = Some a \<longrightarrow> a < length (nd_heap s'))"
proof (cases t)
  case (Putter ver ws pc)
  then obtain pc' where "put_next ver s pc = (pc', s')" "t' = Putter ver ws pc'" using assms(1) by (auto split: prod.splits)
  with put_links [OF this(1) assms(2), of ws] assms(3) Putter show ?thesis by simp
next
  case (Collector pc)
  then obtain pc' where "collect_next l s pc = (pc', s')" "t' = Collector pc'" using assms(1) by (auto split: prod.splits)
  with collect_links [OF this(1) assms(2)] assms(3) Collector show ?thesis by simp
next
  case (Finder pc)
  with assms show ?thesis by auto
qed

lemma links_step:
  assumes "pool_step coll_next ok p p'" "links_ok p"
  shows "links_ok p'"
  using assms(1)
proof (cases rule: pool_step.cases)
  case (move i ts l s t' s')
  have L: "index_ok s" "\<And>t a. t \<in> set ts \<Longrightarrow> points_to t = Some a \<Longrightarrow> a < length (nd_heap s)"
    "\<And>a. a < length (nd_heap s) \<Longrightarrow> nd_locked (nd_heap s ! a) \<Longrightarrow> \<exists>t\<in>set ts. holds t = Some a"
    using assms(2) by (auto simp: links_ok_def move(1))
  note n = coll_links [OF move(5) L(1) L(2)]
  have at: "ts ! i \<in> set ts" "t' \<in> set (ts[i := t'])" using move(3) by (auto intro: set_update_memI)
  have "\<exists>t\<in>set (ts[i := t']). holds t = Some a" if a: "a < length (nd_heap s')" "nd_locked (nd_heap s' ! a)" for a
    using locks_next [OF move(5) a]
  proof
    assume "a < length (nd_heap s) \<and> nd_locked (nd_heap s ! a) \<and> holds (ts ! i) \<noteq> Some a"
    then obtain t where t: "t \<in> set ts" "holds t = Some a" "holds (ts ! i) \<noteq> Some a" using L(3) by blast
    then obtain j where "j < length ts" "ts ! j = t" "j \<noteq> i" by (auto simp: in_set_conv_nth)
    then have "t \<in> set (ts[i := t'])" by (metis length_list_update nth_list_update_neq nth_mem)
    with t(2) show ?thesis by blast
  qed (use at(2) in blast)
  moreover have "a < length (nd_heap s')" if "t \<in> set (ts[i := t'])" "points_to t = Some a" for t a
    using that n at L(2) [of t a] set_update_subset_insert [of ts i t'] by fastforce
  ultimately show ?thesis using n at(1) by (auto simp: links_ok_def move(2))
qed

lemma links_steps: "pool_steps coll_next ok p p' \<Longrightarrow> links_ok p \<Longrightarrow> links_ok p'"
  by (induction rule: rtranclp_induct) (auto intro: links_step)

lemma links_start:
  assumes "store_wf ds" shows "links_ok (coll_start ds wss m n)"
  using nodes_of_quiet(1,2) [OF assms] by (auto simp: links_ok_def coll_start_def unlocked_def)

text \<open>A thread that holds a lock releases it within three accesses of its own.\<close>

fun to_release :: "coll_thread \<Rightarrow> nat" where
  "to_release (Putter ver ws (PCheck a r)) = 3"
| "to_release (Putter ver ws (PPush a r)) = 2"
| "to_release (Putter ver ws (PUnlock b a r)) = 1"
| "to_release (Collector (GCompact c a)) = 3"
| "to_release (Collector (GRemove a)) = 2"
| "to_release (Collector (GUnlock a)) = 1"
| "to_release _ = 0"

fun same_job :: "coll_thread \<Rightarrow> coll_thread \<Rightarrow> bool" where
  "same_job (Putter ver ws pc) t \<longleftrightarrow> (\<exists>pc'. t = Putter ver ws pc')"
| "same_job (Collector pc) t \<longleftrightarrow> (\<exists>pc'. t = Collector pc')"
| "same_job (Finder pc) t \<longleftrightarrow> (\<exists>pc'. t = Finder pc')"

lemma to_release_0: "to_release t = 0 \<longleftrightarrow> holds t = None"
  by (cases t rule: to_release.cases) simp_all

lemma release_next: "coll_next l s t = (t', s') \<Longrightarrow> holds t \<noteq> None \<Longrightarrow> to_release t' < to_release t"
  by (cases t rule: to_release.cases)
    (auto elim!: put_next.elims collect_next.elims split: prod.splits if_splits)

lemma same_job_next: "coll_next l s t = (t', s') \<Longrightarrow> same_job t t'"
  by (cases t) (auto split: prod.splits)

lemma same_job_trans: "same_job t t' \<Longrightarrow> same_job t' t'' \<Longrightarrow> same_job t t''"
  by (cases t) auto

lemma same_job_refl: "same_job t t"
  by (cases t) auto

lemma release_one:
  "i < length ts \<Longrightarrow> \<exists>s' t'. pool_steps coll_next coll_any (s, ts) (s', ts[i := t']) \<and> holds t' = None \<and> same_job (ts ! i) t'"
proof (induction "to_release (ts ! i)" arbitrary: s ts rule: less_induct)
  case less
  show ?case
  proof (cases "holds (ts ! i) = None")
    case True
    then show ?thesis by (intro exI [of _ s] exI [of _ "ts ! i"]) (simp add: same_job_refl)
  next
    case False
    obtain t1 s1 where n: "coll_next (0, []) s (ts ! i) = (t1, s1)" by (cases "coll_next (0, []) s (ts ! i)")
    have st: "pool_step coll_next coll_any (s, ts) (s1, ts[i := t1])" 
      by (rule move [where nxt = coll_next and ok = coll_any, OF less.prems _ n]) (simp add: coll_any_def)
    from less.hyps [of "ts[i := t1]" s1] release_next [OF n False] less.prems obtain s' t' where
      "pool_steps coll_next coll_any (s1, ts[i := t1]) (s', ts[i := t'])" "holds t' = None" "same_job t1 t'" by auto
    with st same_job_next [OF n] show ?thesis
      by (intro exI [of _ s'] exI [of _ t']) (auto intro: converse_rtranclp_into_rtranclp same_job_trans)
  qed
qed

lemma release_all:
  "n \<le> length ts \<Longrightarrow> \<exists>s' ts'. pool_steps coll_next coll_any (s, ts) (s', ts') \<and> length ts' = length ts
    \<and> (\<forall>i<n. holds (ts' ! i) = None) \<and> (\<forall>i<length ts. same_job (ts ! i) (ts' ! i))"
proof (induction n)
  case 0
  then show ?case by (intro exI [of _ s] exI [of _ ts]) (simp add: same_job_refl)
next
  case (Suc n)
  then obtain s1 ts1 where 1: "pool_steps coll_next coll_any (s, ts) (s1, ts1)" "length ts1 = length ts"
    "\<forall>i<n. holds (ts1 ! i) = None" "\<forall>i<length ts. same_job (ts ! i) (ts1 ! i)" by auto
  from release_one [of n ts1 s1] Suc.prems 1(2) obtain s' t' where
    2: "pool_steps coll_next coll_any (s1, ts1) (s', ts1[n := t'])" "holds t' = None" "same_job (ts1 ! n) t'" by auto
  show ?case
  proof (intro exI conjI)
    show "pool_steps coll_next coll_any (s, ts) (s', ts1[n := t'])" using 1(1) 2(1) by (rule rtranclp_trans)
    show "\<forall>i<Suc n. holds (ts1[n := t'] ! i) = None" using 1(2,3) 2(2) Suc.prems by (auto simp: less_Suc_eq nth_list_update)
    show "\<forall>i<length ts. same_job (ts ! i) (ts1[n := t'] ! i)"
    proof (intro allI impI)
      fix i assume "i < length ts"
      then show "same_job (ts ! i) (ts1[n := t'] ! i)"
        using 1(2,4) 2(3) same_job_trans [of "ts ! n" "ts1 ! n" t'] by (cases "i = n") auto
    qed
  qed (simp add: 1(2))
qed

lemma put_alone_pool:
  assumes "(put_alone ver ^^ n) (pc, s) = (pc', s')" "i < length ts" "ts ! i = Putter ver ws pc"
  shows "pool_steps coll_next coll_any (s, ts) (s', ts[i := Putter ver ws pc'])"
  using assms
proof (induction n arbitrary: pc s ts)
  case 0
  then show ?case using list_update_id [of ts i] by simp
next
  case (Suc n)
  obtain pc1 s1 where n: "put_next ver s pc = (pc1, s1)" by (cases "put_next ver s pc")
  then have "put_alone ver (pc, s) = (pc1, s1)" by (simp add: put_alone_def)
  then have "(put_alone ver ^^ n) (pc1, s1) = (pc', s')" using Suc.prems(1) by (simp only: funpow_Suc_right comp_apply)
  from Suc.IH [OF this, of "ts[i := Putter ver ws pc1]"] Suc.prems have
    "pool_steps coll_next coll_any (s1, ts[i := Putter ver ws pc1]) (s', ts[i := Putter ver ws pc'])" by simp
  moreover have "pool_step coll_next coll_any (s, ts) (s1, ts[i := Putter ver ws pc1])"
    by (rule move [OF Suc.prems(2)]) (simp_all add: coll_any_def Suc.prems(3) n)
  ultimately show ?case by (rule converse_rtranclp_into_rtranclp [rotated])
qed

text \<open>A writer that holds no lock finishes alone when no lock is taken.\<close>

lemma put_alone_finishes:
  assumes "index_ok s" "unlocked s" "holds (Putter ver ws pc) = None"
    and "\<And>a. points_to (Putter ver ws pc) = Some a \<Longrightarrow> a < length (nd_heap s)"
  shows "\<exists>n s'. (put_alone ver ^^ n) (pc, s) = (PGet [], s')"
proof -
  have get: ?thesis if "(put_alone ver ^^ m) (pc, s) = (PGet r, s1)" "index_ok s1" "unlocked s1" for m r s1
  proof -
    from put_alone_all [OF that(2,3), of ver r] obtain n s' where "(put_alone ver ^^ n) (PGet r, s1) = (PGet [], s')" by blast
    with that(1) have "(put_alone ver ^^ (n + m)) (pc, s) = (PGet [], s')" by (simp add: funpow_add)
    then show ?thesis by blast
  qed
  show ?thesis
  proof (cases pc)
    case (PGet r)
    then show ?thesis by (intro get [of 0 r s]) (simp_all add: assms(1,2))
  next
    case (PDirty r)
    obtain s1 where 1: "put_next ver s pc = (PGet (tl r), s1)" "nd_index s1 = nd_index s" "nd_heap s1 = nd_heap s"
      using PDirty by (cases r) (auto split: prod.splits)
    have "index_ok s1" "unlocked s1" using assms(1,2) 1(2,3) by (simp_all add: index_ok_def unlocked_def)
    then show ?thesis using 1(1) by (intro get [of 1 "tl r" s1]) (simp_all add: put_alone_def)
  next
    case (PLock a r)
    then have a: "a < length (nd_heap s)" "\<not> nd_locked (nd_heap s ! a)" using assms(2,4) by (simp_all add: unlocked_def)
    let ?l = "set_node a (nd_locked_update (\<lambda>_. True)) s"
    show ?thesis
    proof (cases "nd_removed (nd_heap s ! a)")
      case True
      let ?s = "set_node a (nd_locked_update (\<lambda>_. False)) ?l"
      have "(put_alone ver ^^ 3) (pc, s) = (PGet r, ?s)"
        using a True PLock by (simp add: eval_nat_numeral put_alone_def set_node_nth)
      moreover have "index_ok ?s" by (rule index_ok_nodes [OF assms(1)]) (simp_all add: set_node_nth_gen)
      moreover have "unlocked ?s" using assms(2) by (auto simp: unlocked_def set_node_nth_gen)
      ultimately show ?thesis by (rule get)
    next
      case False
      show ?thesis
      proof (cases r)
        case Nil
        then have "(put_alone ver ^^ 5) (pc, s) = (PGet [], set_node a (nd_locked_update (\<lambda>_. False)) ?l)"
          using a False PLock by (simp add: eval_nat_numeral put_alone_def set_node_nth)
        then show ?thesis by blast
      next
        case (Cons e rest)
        obtain k x where e: "e = (k, x)" by (cases e)
        from put_alone_lock [OF assms(1,2) a(1) False, of ver k x rest] PLock Cons e get [of 5 rest] show ?thesis by auto
      qed
    qed
  qed (use assms(3) in auto)
qed

lemma write_can_finish:
  assumes "links_ok (s, ts)" "i < length ts" "ts ! i = Putter ver ws pc"
  shows "\<exists>s' ts'. pool_steps coll_next coll_any (s, ts) (s', ts') \<and> ts' ! i = Putter ver ws (PGet [])"
proof -
  from release_all [of "length ts" ts s] obtain s1 ts1 where 1: "pool_steps coll_next coll_any (s, ts) (s1, ts1)"
    "length ts1 = length ts" "\<forall>j<length ts. holds (ts1 ! j) = None" "\<forall>j<length ts. same_job (ts ! j) (ts1 ! j)" by blast
  note l = links_steps [OF 1(1) assms(1)]
  then have i: "index_ok s1" by (simp add: links_ok_def)
  have free: "holds t = None" if "t \<in> set ts1" for t using that 1(2,3) by (auto simp: in_set_conv_nth)
  then have u: "unlocked s1" using l unfolding links_ok_def unlocked_def by (metis fst_conv option.distinct(1) snd_conv)
  obtain pc1 where t: "ts1 ! i = Putter ver ws pc1" using 1(4) assms(2,3) by force
  have p: "a < length (nd_heap s1)" if "points_to (Putter ver ws pc1) = Some a" for a
    using l that t assms(2) 1(2) nth_mem [of i ts1] unfolding links_ok_def by (metis fst_conv snd_conv)
  have "holds (Putter ver ws pc1) = None" using 1(3) assms(2) t by auto
  from put_alone_finishes [OF i u this p] obtain n s' where "(put_alone ver ^^ n) (pc1, s1) = (PGet [], s')" by blast
  from put_alone_pool [OF this _ t] 1(1,2) assms(2) show ?thesis
    by (intro exI [of _ s'] exI [of _ "ts1[i := Putter ver ws (PGet [])]"]) (auto intro: rtranclp_trans)
qed

section \<open>A deleted key comes back\<close>

text \<open>
  Two writers of one key, a value at version 8 and a deletion at version 9, and the newer one installed
  first.  The collector then takes the whole entry out, and the older value is written to a fresh chain,
  where nothing remembers the deletion.
\<close>

definition revive_schedule :: "bytes \<Rightarrow> bool \<Rightarrow> (nat \<times> u64 \<times> bytes) list" where
  "revive_schedule k collect = replicate 6 (1, 0, []) @ (if collect then replicate 6 (2, 9, k) else []) @ replicate 6 (0, 0, [])"

lemma two_writes:
  "gc_older_versions (push [\<lparr>version = 3, value_of = Some y\<rparr>] \<lparr>version = 9, value_of = None\<rparr>) 9 = ([], 0)"
  "push [\<lparr>version = 8, value_of = Some x\<rparr>] \<lparr>version = 8, value_of = Some x\<rparr> = [\<lparr>version = 8, value_of = Some x\<rparr>]"
  "fetch_version [\<lparr>version = 8, value_of = Some x\<rparr>] 9 = Some x"
  "fetch_version (push (push [\<lparr>version = 3, value_of = Some y\<rparr>] \<lparr>version = 9, value_of = None\<rparr>) \<lparr>version = 8, value_of = Some x\<rparr>) 9 = None"
  for x y :: bytes
  by (simp_all add: push_def push_slow_def fetch_index_or_update_def find_index_lte_version_def fetch_version_def
      gc_older_versions_def drain_to_def rposition_def insert_at_def Let_def)

lemma revive_run:
  "\<exists>s. pool_run coll_next coll_any (revive_schedule k collect)
      (coll_start [(k, [\<lparr>version = 3, value_of = Some y\<rparr>])] [(8, [(k, Some x)]), (9, [(k, None)])] 1 0)
    = Some (s, [Putter 8 [(k, Some x)] (PGet []), Putter 9 [(k, None)] (PGet []), Collector GNext])
    \<and> entry_read s k 9 = (if collect then Some x else None)"
  by (cases collect)
    (simp_all add: revive_schedule_def eval_nat_numeral coll_start_def nodes_of_def coll_any_def set_node_def
      om_remove_def Versions_from_def entry_read_def two_writes)

end
