(* ===== verification/Kv.thy ===== *)
theory Kv
  imports Prelude
begin

text \<open>
  What a client may pass as a key or a value (\<open>src/kv/kv.rs\<close>): byte slices, text slices, owned and borrowed
  strings, byte vectors.  A Rust text is a sequence of Unicode scalar values kept in UTF-8; \<open>Bytes\<close> made by
  copying and \<open>Bytes\<close> that takes a buffer over hold the same bytes.
\<close>

section \<open>Text\<close>

type_synonym str = "nat list"

definition scalar :: "nat \<Rightarrow> bool" where
  "scalar c \<longleftrightarrow> c < 0xD800 \<or> 0xE000 \<le> c \<and> c < 0x110000"

definition byte :: "nat \<Rightarrow> u8" where
  "byte n = of_nat n"

definition utf8 :: "nat \<Rightarrow> bytes" where
  "utf8 c =
     (if c < 0x80 then [byte c]
      else if c < 0x800 then [byte (0xC0 + c div 64), byte (0x80 + c mod 64)]
      else if c < 0x10000 then [byte (0xE0 + c div 4096), byte (0x80 + c div 64 mod 64), byte (0x80 + c mod 64)]
      else [byte (0xF0 + c div 262144), byte (0x80 + c div 4096 mod 64), byte (0x80 + c div 64 mod 64), byte (0x80 + c mod 64)])"

definition as_bytes :: "str \<Rightarrow> bytes" where
  "as_bytes t = concat (map utf8 t)"

section \<open>Conversions\<close>

datatype IntoBytes =
    Slice bytes
  | Str str
  | OwnedString str
  | StringRef str
  | Vec bytes

fun as_slice :: "IntoBytes \<Rightarrow> bytes" where
  "as_slice (Slice b) = b"
| "as_slice (Str t) = as_bytes t"
| "as_slice (OwnedString t) = as_bytes t"
| "as_slice (StringRef t) = as_bytes t"
| "as_slice (Vec b) = b"

definition copy_from_slice :: "bytes \<Rightarrow> bytes" where
  "copy_from_slice b = b"

fun into_bytes :: "IntoBytes \<Rightarrow> bytes" where
  "into_bytes (Slice b) = copy_from_slice b"
| "into_bytes (Str t) = copy_from_slice (as_bytes t)"
| "into_bytes (OwnedString t) = as_bytes t"
| "into_bytes (StringRef t) = copy_from_slice (as_bytes t)"
| "into_bytes (Vec b) = b"

text \<open>The text of an ASCII literal.\<close>

definition literal :: "string \<Rightarrow> str" where
  "literal s = map of_char s"

section \<open>Reading text back\<close>

text \<open>The decoder of valid text: the first byte gives the length.\<close>

definition tail_bits :: "u8 \<Rightarrow> nat" where
  "tail_bits b = unat b - 0x80"

fun decode_utf8 :: "bytes \<Rightarrow> str option" where
  "decode_utf8 [] = Some []"
| "decode_utf8 (a # rest) =
     (if unat a < 0x80 then map_option (Cons (unat a)) (decode_utf8 rest)
      else if unat a < 0xE0 then
        (case rest of b # rest' \<Rightarrow> map_option (Cons ((unat a - 0xC0) * 64 + tail_bits b)) (decode_utf8 rest') | _ \<Rightarrow> None)
      else if unat a < 0xF0 then
        (case rest of b # c # rest' \<Rightarrow>
           map_option (Cons ((unat a - 0xE0) * 4096 + tail_bits b * 64 + tail_bits c)) (decode_utf8 rest') | _ \<Rightarrow> None)
      else
        (case rest of b # c # d # rest' \<Rightarrow>
           map_option (Cons ((unat a - 0xF0) * 262144 + tail_bits b * 4096 + tail_bits c * 64 + tail_bits d)) (decode_utf8 rest')
         | _ \<Rightarrow> None))"

lemma unat_byte [simp]: "n < 256 \<Longrightarrow> unat (byte n) = n"
  by (simp add: byte_def unat_of_nat)

lemma tail_byte: "tail_bits (byte (0x80 + n mod 64)) = n mod 64"
proof -
  have "n mod 64 < 64" by simp
  then have "unat (byte (0x80 + n mod 64)) = 0x80 + n mod 64" by (intro unat_byte) linarith
  then show ?thesis by (simp add: tail_bits_def)
qed

lemma split64: "(c :: nat) div 64 * 64 + c mod 64 = c" "c div 4096 * 64 + c div 64 mod 64 = c div 64"
  "c div 262144 * 64 + c div 4096 mod 64 = c div 4096"
proof -
  show "c div 64 * 64 + c mod 64 = c" by simp
  have "c div 4096 = c div 64 div 64" by (simp add: div_mult2_eq [symmetric])
  then show "c div 4096 * 64 + c div 64 mod 64 = c div 64" by simp
  have "c div 262144 = c div 4096 div 64" by (simp add: div_mult2_eq [symmetric])
  then show "c div 262144 * 64 + c div 4096 mod 64 = c div 4096" by simp
qed

lemma decode_char:
  assumes "scalar c"
  shows "decode_utf8 (utf8 c @ rest) = map_option (Cons c) (decode_utf8 rest)"
proof -
  note s = split64 [of c]
  consider "c < 0x80" | "0x80 \<le> c" "c < 0x800" | "0x800 \<le> c" "c < 0x10000" | "0x10000 \<le> c" "c < 0x110000"
    using assms by (fastforce simp: scalar_def)
  then show ?thesis
  proof cases
    case 1
    then show ?thesis by (simp add: utf8_def)
  next
    case 2
    then have "c div 64 < 32" by simp
    then have "unat (byte (0xC0 + c div 64)) = 0xC0 + c div 64" by (intro unat_byte) linarith
    then show ?thesis using 2 s \<open>c div 64 < 32\<close> by (simp add: utf8_def tail_byte)
  next
    case 3
    then have l: "c div 4096 < 16" by simp
    then have "unat (byte (0xE0 + c div 4096)) = 0xE0 + c div 4096" by (intro unat_byte) linarith
    moreover have "c div 4096 * 4096 + c div 64 mod 64 * 64 + c mod 64 = c" using s by linarith
    ultimately show ?thesis using 3 l by (simp add: utf8_def tail_byte)
  next
    case 4
    then have l: "c div 262144 < 16" by simp
    then have "unat (byte (0xF0 + c div 262144)) = 0xF0 + c div 262144" by (intro unat_byte) linarith
    moreover have "c div 262144 * 262144 + c div 4096 mod 64 * 4096 + c div 64 mod 64 * 64 + c mod 64 = c" using s by linarith
    ultimately show ?thesis using 4 by (simp add: utf8_def tail_byte)
  qed
qed

lemma decode_as_bytes: "\<forall>c\<in>set t. scalar c \<Longrightarrow> decode_utf8 (as_bytes t) = Some t"
  by (induction t) (simp_all add: as_bytes_def decode_char)

lemma into_bytes_as_slice: "into_bytes x = as_slice x"
  by (cases x) (simp_all add: copy_from_slice_def)

lemma literal_scalar: "c \<in> set (literal s) \<Longrightarrow> scalar c"
proof -
  assume "c \<in> set (literal s)"
  then obtain x where "c = of_char x" by (auto simp: literal_def)
  then have "c < 256" by simp
  then show ?thesis by (simp add: scalar_def)
qed

end
