(* ===== verification/Client_Programs.thy ===== *)
theory Client_Programs
  imports Recovery Kv
begin

text \<open>
  Whole client programs: the sequences of calls of \<open>examples/001_basic.rs\<close> and \<open>examples/002_ssi.rs\<close>, with
  the transactions numbered in the order the program opens them.  A program runs against the engine of
  theory \<open>System\<close>, whose background threads take steps anywhere between its calls; what it observes is
  computed on the abstract machine of theory \<open>Isolation_Spec\<close>.
\<close>

section \<open>Programs and what they observe\<close>

datatype call =
    CallBegin nat bool
  | CallOp nat tx_op
  | CallCommit nat
  | CallDrop nat

fun calls_of :: "event list \<Rightarrow> call list" where
  "calls_of [] = []"
| "calls_of (Begin i wr # es) = CallBegin i wr # calls_of es"
| "calls_of (Op i op r # es) = CallOp i op # calls_of es"
| "calls_of (Committed i r # es) = CallCommit i # calls_of es"
| "calls_of (Dropped i # es) = CallDrop i # calls_of es"
| "calls_of (Internal # es) = calls_of es"

fun result_of :: "event \<Rightarrow> tx_result list" where
  "result_of (Op i (OpMode m) r) = []"
| "result_of (Op i op r) = [r]"
| "result_of (Committed i r) = [RUnit r]"
| "result_of _ = []"

definition results_of :: "event list \<Rightarrow> tx_result list" where
  "results_of es = concat (map result_of es)"

definition str_bytes :: "string \<Rightarrow> bytes" where
  "str_bytes s = into_bytes (Str (literal s))"

section \<open>The example programs\<close>

definition basic_main :: "call list" where
  "basic_main =
     [CallBegin 0 True,
      CallOp 0 (OpSet (str_bytes ''key1'') (str_bytes ''value1'')),
      CallOp 0 (OpSet (str_bytes ''key2'') (str_bytes ''value2'')),
      CallOp 0 (OpExists (str_bytes ''key1'')),
      CallOp 0 (OpGet (str_bytes ''key1'')),
      CallOp 0 (OpGet (str_bytes ''key2'')),
      CallCommit 0,
      CallBegin 1 False,
      CallOp 1 (OpGet (str_bytes ''key1'')),
      CallOp 1 (OpGet (str_bytes ''key2'')),
      CallBegin 2 True,
      CallOp 2 (OpPut (str_bytes ''key3'') (str_bytes ''value3'')),
      CallOp 2 (OpDel (str_bytes ''key1'')),
      CallCommit 2,
      CallBegin 3 False,
      CallOp 3 (OpGet (str_bytes ''key3'')),
      CallOp 3 (OpGet (str_bytes ''key1'')),
      CallOp 3 (OpGet (str_bytes ''key2'')),
      CallDrop 3, CallDrop 2, CallDrop 1, CallDrop 0]"

text \<open>The two programs of the write skew differ in the level of the two doctors' transactions.\<close>

definition skew_setup :: "call list" where
  "skew_setup =
     [CallBegin 0 True,
      CallOp 0 (OpSet (str_bytes ''alice_on_call'') (str_bytes ''true'')),
      CallOp 0 (OpSet (str_bytes ''bob_on_call'') (str_bytes ''true'')),
      CallCommit 0]"

definition skew_body :: "call list" where
  "skew_body =
     [CallOp 1 (OpGet (str_bytes ''bob_on_call'')),
      CallOp 1 (OpSet (str_bytes ''alice_on_call'') (str_bytes ''false'')),
      CallOp 2 (OpGet (str_bytes ''alice_on_call'')),
      CallOp 2 (OpSet (str_bytes ''bob_on_call'') (str_bytes ''false'')),
      CallCommit 1,
      CallCommit 2,
      CallBegin 3 False,
      CallOp 3 (OpGet (str_bytes ''alice_on_call'')),
      CallOp 3 (OpGet (str_bytes ''bob_on_call'')),
      CallDrop 3, CallDrop 2, CallDrop 1, CallDrop 0]"

definition write_skew_si :: "call list" where
  "write_skew_si = skew_setup @ [CallBegin 1 True, CallBegin 2 True] @ skew_body"

definition write_skew_ssi :: "call list" where
  "write_skew_ssi = skew_setup @
     [CallBegin 1 True, CallOp 1 (OpMode SerializableSnapshotIsolation),
      CallBegin 2 True, CallOp 2 (OpMode SerializableSnapshotIsolation)] @ skew_body"

definition ssi_no_conflict :: "call list" where
  "ssi_no_conflict =
     [CallBegin 1 True, CallOp 1 (OpMode SerializableSnapshotIsolation),
      CallBegin 2 True, CallOp 2 (OpMode SerializableSnapshotIsolation),
      CallOp 1 (OpGet (str_bytes ''key_a'')),
      CallOp 1 (OpSet (str_bytes ''key_b'') (str_bytes ''from_tx1'')),
      CallOp 2 (OpGet (str_bytes ''key_c'')),
      CallOp 2 (OpSet (str_bytes ''key_d'') (str_bytes ''from_tx2'')),
      CallCommit 1,
      CallCommit 2,
      CallDrop 2, CallDrop 1]"

lemma literal_inj: "literal a = literal b \<longleftrightarrow> a = b"
  by (simp add: literal_def inj_map_eq_map [OF inj_of_char])

lemma str_bytes_eq [simp]: "str_bytes a = str_bytes b \<longleftrightarrow> a = b"
proof
  assume "str_bytes a = str_bytes b"
  then have "as_bytes (literal a) = as_bytes (literal b)" by (simp add: str_bytes_def copy_from_slice_def)
  then have "decode_utf8 (as_bytes (literal a)) = decode_utf8 (as_bytes (literal b))" by simp
  moreover have "\<forall>c\<in>set (literal x). scalar c" for x by (simp add: literal_scalar)
  ultimately show "a = b" by (simp add: decode_as_bytes literal_inj)
qed simp

section \<open>Programs on the abstract machine\<close>

text \<open>
  One call on the abstract machine, for a database without files.  \<open>None\<close> marks what a program must not
  do (reuse a number, name a transaction it does not hold) and the one choice the abstract machine
  leaves open: which error a commit reports that has both kinds of conflict.
\<close>

definition si_ww :: "SItx \<Rightarrow> bool" where
  "si_ww t \<longleftrightarrow> dom (buffer t) \<inter> changed t \<noteq> {}"

definition si_rw :: "SItx \<Rightarrow> bool" where
  "si_rw t \<longleftrightarrow> si_mode t = SerializableSnapshotIsolation \<and> reads t \<inter> changed t \<noteq> {}"

fun si_call :: "call \<Rightarrow> SI \<Rightarrow> (tx_result list \<times> SI) option" where
  "si_call (CallBegin i wr) a =
     (if txs a i = None then Some ([], a\<lparr>txs := (txs a)(i \<mapsto> si_new (now a) wr)\<rparr>) else None)"
| "si_call (CallOp i op) a =
     (case txs a i of
        None \<Rightarrow> None
      | Some t \<Rightarrow> (case si_op op t of (r, t') \<Rightarrow> Some (result_of (Op i op r), a\<lparr>txs := (txs a)(i \<mapsto> t')\<rparr>)))"
| "si_call (CallCommit i) a =
     (case txs a i of
        None \<Rightarrow> None
      | Some t \<Rightarrow>
          if si_closed t then Some ([RUnit (Inl TxClosed)], a)
          else if buffer t = Map.empty then Some ([RUnit (Inr ())], a\<lparr>txs := (txs a)(i \<mapsto> t\<lparr>si_closed := True\<rparr>)\<rparr>)
          else if si_ww t \<and> si_rw t then None
          else if si_ww t then Some ([RUnit (Inl KeyWriteConflict)], a\<lparr>txs := (txs a)(i \<mapsto> si_close t)\<rparr>)
          else if si_rw t then Some ([RUnit (Inl KeyReadConflict)], a\<lparr>txs := (txs a)(i \<mapsto> si_close t)\<rparr>)
          else Some ([RUnit (Inr ())],
              \<lparr>now = si_install (buffer t) (now a),
               txs = map_option (\<lambda>u. u\<lparr>changed := changed u \<union> dom (buffer t)\<rparr>) \<circ> ((txs a)(i \<mapsto> si_close t))\<rparr>))"
| "si_call (CallDrop i) a =
     (case txs a i of None \<Rightarrow> None | Some t \<Rightarrow> Some ([], a\<lparr>txs := (txs a)(i := None)\<rparr>))"

fun si_calls :: "call list \<Rightarrow> SI \<Rightarrow> (tx_result list \<times> SI) option" where
  "si_calls [] a = Some ([], a)"
| "si_calls (c # cs) a =
     (case si_call c a of
        None \<Rightarrow> None
      | Some (r, a') \<Rightarrow> (case si_calls cs a' of None \<Rightarrow> None | Some (rs, a'') \<Rightarrow> Some (r @ rs, a'')))"

inductive_simps si_step_simps:
  "si_step a (Begin i wr) a'" "si_step a (Op i op r) a'" "si_step a (Committed i r) a'"
  "si_step a (Dropped i) a'" "si_step a Internal a'"

definition unpersisted :: "event \<Rightarrow> bool" where
  "unpersisted e \<longleftrightarrow> (\<exists>i p. e = Committed i (Inl (TxCommitNotPersisted p)))"

lemmas si_commit_simps = si_step_simps(3) [unfolded si_conflicts_def, folded si_ww_def si_rw_def]

text \<open>Every step of the abstract machine that carries a call is the step the interpreter takes.\<close>

lemma si_call_unique:
  assumes "si_step a e a'" and "calls_of [e] = [c]" and "si_call c a = Some (r, a1)" and "\<not> unpersisted e"
  shows "r = result_of e \<and> a1 = a'"
proof (cases e)
  case (Committed i q)
  with assms show ?thesis
    by (auto simp: si_commit_simps unpersisted_def split: option.splits if_splits)
qed (use assms in \<open>auto simp: si_step_simps split: option.splits if_splits prod.splits\<close>)

lemma results_of_simps [simp]: "results_of [] = []" "results_of (e # es) = result_of e @ results_of es"
  by (simp_all add: results_of_def)

lemma si_calls_complete:
  "trace si_step a es a' \<Longrightarrow> si_calls (calls_of es) a = Some (rs, a1) \<Longrightarrow> \<forall>e\<in>set es. \<not> unpersisted e \<Longrightarrow> results_of es = rs"
proof (induction arbitrary: rs rule: trace.induct)
  case (trace_Cons a e b es a2)
  show ?case
  proof (cases "e = Internal")
    case True
    with trace_Cons show ?thesis by (auto simp: si_step_simps)
  next
    case False
    then obtain c where c: "calls_of [e] = [c]" "calls_of (e # es) = c # calls_of es" by (cases e) auto
    from trace_Cons.prems(1) obtain r b' rs' where s: "si_call c a = Some (r, b')" "si_calls (calls_of es) b' = Some (rs', a1)"
      "rs = r @ rs'" by (auto simp: c(2) split: option.splits)
    from trace_Cons.prems(2) have "\<not> unpersisted e" by simp
    from si_call_unique [OF trace_Cons.hyps(1) c(1) s(1) this] trace_Cons.IH [of rs'] s trace_Cons.prems(2)
    show ?thesis by simp
  qed
qed simp

section \<open>A database without files never reports a failed append\<close>

lemma gc_dirty_persistence: "persistence (gc_dirty_loop seen keys ts inner) = persistence inner"
  by (induction seen keys ts inner rule: gc_dirty_loop.induct) (simp_all add: gc_key_def)

lemma compute_cleanup_persistence: "compute_cleanup_ts clk inner = (ts, inner') \<Longrightarrow> persistence inner' = persistence inner"
  by (auto simp: compute_cleanup_ts_def Let_def)

lemma conflict_scan_error: "conflict_scan m c rs b cs = Some e \<Longrightarrow> e = KeyWriteConflict \<or> e = KeyReadConflict"
  by (induction cs) (auto split: if_splits)

lemmas persistence_simps = run_cleanup_def run_cleanup_inner_def run_gc_def cleanup_worker_round_def garbage_worker_round_def
  run_gc_full_def run_gc_dirty_inner_def gc_dirty_persistence resync_worker_round_def db_snapshot_def persistence_round_def
  shutdown_def Let_def

lemma no_files_step:
  assumes "step s e s'" and "sys_inv s" and "persistence (sys_inner s) = None"
  shows "persistence (sys_inner s') = None \<and> \<not> unpersisted e"
  using assms
proof (cases rule: step.cases)
  case (step_begin wr tx db' i)
  obtain tv tc where "db_inner db' = (sys_inner s)\<lparr>counter_by_oracle := tv, counter_by_commit := tc\<rparr>"
    by (rule begin_effect [OF assms(2) step_begin(3,5)])
  with step_begin assms(3) show ?thesis by (simp add: unpersisted_def)
next
  case (step_commit i tx w r tx' inner')
  show ?thesis
    using assms(2) step_commit(3,5,6)
  proof (cases rule: commit_effect [where w = w])
    case (passed ver r' p)
    from assms(2) have "inner_wf (sys_inner s)" by (simp add: sys_inv_def)
    from commit_passing [OF this step_commit(6) passed(1-3), of w] step_commit assms(3) show ?thesis
      by (simp add: append_outcome_def committed_state_def unpersisted_def)
  qed (use step_commit assms(3) in \<open>auto simp: unpersisted_def commit_conflict_def dest: conflict_scan_error\<close>)
next
  case (step_drop i tx db')
  obtain tv tc db'' where "Transaction_drop tx (sys_db s) = Some db''"
    "db_inner db'' = (sys_inner s)\<lparr>counter_by_commit := tc, counter_by_oracle := tv\<rparr>"
    by (rule drop_effect [OF assms(2) step_drop(3)])
  with step_drop assms(3) show ?thesis by (simp add: unpersisted_def)
qed (auto simp: persistence_simps unpersisted_def split: option.splits prod.splits dest!: compute_cleanup_persistence)

section \<open>Runs of a fresh database\<close>

definition SI_new :: SI where
  "SI_new = \<lparr>now = Map.empty, txs = Map.empty\<rparr>"

lemma new_inner:
  assumes "new_with_options opts unix clk = Some db"
  shows "datastore (db_inner db) = []" "persistence (db_inner db) = None" "transaction_commit_id (db_inner db) = 0"
    "fst (reference (ts_oracle (db_inner db))) = timestamp (ts_oracle (db_inner db))"
    "timestamp (ts_oracle (db_inner db)) = of_nat (the unix)"
proof -
  from assms obtain inner where i: "Inner_new opts unix clk = Some inner" "db = start_workers opts (Database_of opts inner)"
    by (auto simp: new_with_options_def split: option.splits)
  moreover obtain a b where "db_inner db = inner\<lparr>transaction_cleanup_handle := a, garbage_collection_handle := b\<rparr>"
    using start_workers_inner [of opts "Database_of opts inner"] i(2) by (auto simp: Database_of_def)
  ultimately show "datastore (db_inner db) = []" "persistence (db_inner db) = None" "transaction_commit_id (db_inner db) = 0"
    "fst (reference (ts_oracle (db_inner db))) = timestamp (ts_oracle (db_inner db))"
    "timestamp (ts_oracle (db_inner db)) = of_nat (the unix)"
    by (auto simp: Inner_new_def Oracle_new_def current_unix_ns_def background_resync_def split: option.splits)
qed

lemma new_abs: "new_with_options opts unix clk = Some db \<Longrightarrow> abs_sys \<lparr>sys_db = db, live = []\<rparr> = SI_new"
  by (simp add: abs_sys_def SI_new_def new_inner store_fetch_def)

lemma no_files_trace:
  "trace step s es s' \<Longrightarrow> sys_inv s \<Longrightarrow> persistence (sys_inner s) = None \<Longrightarrow> \<forall>e\<in>set es. \<not> unpersisted e"
proof (induction rule: trace.induct)
  case (trace_Cons s e s1 es s2)
  from no_files_step [OF trace_Cons.hyps(1) trace_Cons.prems] si.inv_step [OF trace_Cons.prems(1) trace_Cons.hyps(1)]
  show ?case using trace_Cons.IH by simp
qed simp

lemma program_results:
  assumes "new_with_options opts unix clk = Some db" and "trace step \<lparr>sys_db = db, live = []\<rparr> es s'"
    and "si_calls (calls_of es) SI_new = Some (rs, a)"
  shows "results_of es = rs"
proof -
  have inv: "sys_inv \<lparr>sys_db = db, live = []\<rparr>" by (rule reachable_inv [OF reachable_new [OF assms(1)]])
  from si.trace_sim [OF assms(2) inv] have "trace si_step SI_new es (abs_sys s')" by (simp add: new_abs [OF assms(1)])
  from si_calls_complete [OF this assms(3)] no_files_trace [OF assms(2) inv] new_inner(2) [OF assms(1)] show ?thesis by simp
qed

section \<open>Every proper program runs\<close>

fun proper :: "nat set \<Rightarrow> call list \<Rightarrow> bool" where
  "proper held [] = True"
| "proper held (CallBegin i wr # cs) = (i \<notin> held \<and> proper (insert i held) cs)"
| "proper held (CallOp i op # cs) = (i \<in> held \<and> proper held cs)"
| "proper held (CallCommit i # cs) = (i \<in> held \<and> proper held cs)"
| "proper held (CallDrop i # cs) = (i \<in> held \<and> proper (held - {i}) cs)"

text \<open>Room for \<open>n\<close> more calls before a 64-bit number is exhausted.\<close>

definition room :: "nat \<Rightarrow> System \<Rightarrow> bool" where
  "room n s \<longleftrightarrow> sys_inv s \<and> length (live s) + n < 2 ^ 64 - 1
     \<and> unat (timestamp (ts_oracle (sys_inner s))) + n < 2 ^ 64 - 1
     \<and> unat (transaction_commit_id (sys_inner s)) + n < 2 ^ 64 - 1
     \<and> fst (reference (ts_oracle (sys_inner s))) \<le> timestamp (ts_oracle (sys_inner s))"

lemma u64_Suc_room: "unat (x :: u64) + Suc n < 2 ^ 64 - 1 \<Longrightarrow> x < u64_MAX \<and> unat (x + 1) + n < 2 ^ 64 - 1"
  by (simp add: word_less_nat_alt unat_u64_MAX unat_word_ariths)

lemma om_insert_length: "length (om_insert k v m) \<le> Suc (length m)"
  by (induction m) auto

lemma room_step:
  assumes "room (Suc n) s" and "step s e s'" and "length (live s') \<le> Suc (length (live s))"
    and "transaction_commit_id (sys_inner s') \<in> {transaction_commit_id (sys_inner s), transaction_commit_id (sys_inner s) + 1}"
    and "ts_oracle (sys_inner s') \<in> {ts_oracle (sys_inner s),
      fetch_max_timestamp (ts_oracle (sys_inner s)) (timestamp (ts_oracle (sys_inner s)) + 1)}"
  shows "room n s'"
proof -
  have r: "sys_inv s" "length (live s) + Suc n < 2 ^ 64 - 1"
    "fst (reference (ts_oracle (sys_inner s))) \<le> timestamp (ts_oracle (sys_inner s))"
    using assms(1) by (simp_all add: room_def)
  note t = u64_Suc_room [of "timestamp (ts_oracle (sys_inner s))" n]
  note c = u64_Suc_room [of "transaction_commit_id (sys_inner s)" n]
  have "unat (transaction_commit_id (sys_inner s')) + n < 2 ^ 64 - 1" using c assms(1,4) by (auto simp: room_def)
  moreover have "timestamp (ts_oracle (sys_inner s)) \<le> timestamp (ts_oracle (sys_inner s')) \<and>
      unat (timestamp (ts_oracle (sys_inner s'))) + n < 2 ^ 64 - 1"
    using t assms(1,5) by (auto simp: room_def max_def)
  moreover have "reference (ts_oracle (sys_inner s')) = reference (ts_oracle (sys_inner s))"
    using assms(5) by (auto simp: fetch_max_timestamp_def)
  moreover have "sys_inv s'" by (rule si.inv_step [OF r(1) assms(2)])
  ultimately show ?thesis using r assms(3) by (auto simp: room_def)
qed

lemma commit_room:
  assumes "room (Suc n) s" and "map_of (live s) i = Some tx"
  shows "\<exists>r s'. step s (Committed i r) s' \<and> room n s' \<and> dom (map_of (live s')) = dom (map_of (live s))"
proof -
  have inv: "sys_inv s" and lt: "timestamp (ts_oracle (sys_inner s)) < u64_MAX" "transaction_commit_id (sys_inner s) < u64_MAX"
    and ref: "fst (reference (ts_oracle (sys_inner s))) \<le> timestamp (ts_oracle (sys_inner s))"
    using assms(1) u64_Suc_room by (auto simp: room_def)
  have d: "insert i (dom (map_of (live s))) = dom (map_of (live s))" using assms(2) by auto
  have l: "length (om_insert i t (live s)) \<le> Suc (length (live s))" for t by (rule om_insert_length)
  have goal: ?thesis if "commit w tx (sys_inner s) = Some (r, tx', inner')"
    "transaction_commit_id inner' \<in> {transaction_commit_id (sys_inner s), transaction_commit_id (sys_inner s) + 1}"
    "ts_oracle inner' \<in> {ts_oracle (sys_inner s),
      fetch_max_timestamp (ts_oracle (sys_inner s)) (timestamp (ts_oracle (sys_inner s)) + 1)}" for w r tx' inner'
  proof -
    note st = step_commit [OF assms(2) that(1) lt]
    from room_step [OF assms(1) st] that(2,3) l have rm: "room n \<lparr>sys_db = (sys_db s)\<lparr>db_inner := inner'\<rparr>, live = om_insert i tx' (live s)\<rparr>"
      by simp
    show ?thesis by (intro exI conjI, rule st) (use rm in \<open>simp_all add: map_of_om_insert d\<close>)
  qed
  obtain w :: world where w: "w_clock w 0 = 0" using that [of "undefined\<lparr>w_clock := \<lambda>_. 0\<rparr>"] by simp
  show ?thesis
    using inv assms(2) lt
  proof (cases rule: commit_effect [where w = w])
    case (passed ver r p)
    from inv have "inner_wf (sys_inner s)" by (simp add: sys_inv_def)
    from commit_passing [OF this lt(2) passed(1-3), of w] goal show ?thesis
      using ref by (auto simp: committed_state_def candidate_version_def current_time_ns_def w)
  qed (rule goal, assumption, simp_all)+
qed

lemma call_runs:
  assumes "room (Suc n) s" and "proper (dom (map_of (live s))) (c # cs)"
  shows "\<exists>e s'. step s e s' \<and> calls_of [e] = [c] \<and> room n s' \<and> proper (dom (map_of (live s'))) cs"
proof (cases c)
  case (CallBegin i wr)
  from assms(1) have inv: "sys_inv s" and cap: "Suc (length (live s)) < 2 ^ 64 - 1" by (simp_all add: room_def)
  from begin_returns [OF this] obtain tx db' where t: "transaction (sys_db s) wr = Some (tx, db')" by blast
  obtain tv tc where db: "db_inner db' = (sys_inner s)\<lparr>counter_by_oracle := tv, counter_by_commit := tc\<rparr>"
    by (rule begin_effect [OF inv t cap])
  have "map_of (live s) i = None" using assms(2) CallBegin by auto
  note st = step_begin [OF t this cap]
  from room_step [OF assms(1) st] db have rm: "room n \<lparr>sys_db = db', live = om_insert i tx (live s)\<rparr>"
    by (simp add: om_insert_length)
  show ?thesis by (intro exI conjI, rule st) (use rm CallBegin assms(2) in \<open>simp_all add: map_of_om_insert\<close>)
next
  case (CallOp i op)
  with assms(2) obtain tx where tx: "map_of (live s) i = Some tx" by auto
  obtain r tx' where "run_op (sys_inner s) op tx = (r, tx')" by (cases "run_op (sys_inner s) op tx")
  note st = step_op [OF tx this]
  have d: "insert i (dom (map_of (live s))) = dom (map_of (live s))" using tx by auto
  from room_step [OF assms(1) st] have rm: "room n (s\<lparr>live := om_insert i tx' (live s)\<rparr>)"
    by (simp add: om_insert_length)
  show ?thesis by (intro exI conjI, rule st) (use rm CallOp assms(2) in \<open>simp_all add: map_of_om_insert d\<close>)
next
  case (CallCommit i)
  with assms(2) obtain tx where "map_of (live s) i = Some tx" by auto
  from commit_room [OF assms(1) this] CallCommit assms(2) show ?thesis by fastforce
next
  case (CallDrop i)
  with assms(2) obtain tx where tx: "map_of (live s) i = Some tx" by auto
  from assms(1) have inv: "sys_inv s" by (simp add: room_def)
  obtain tv tc db' where t: "Transaction_drop tx (sys_db s) = Some db'"
    and db: "db_inner db' = (sys_inner s)\<lparr>counter_by_commit := tc, counter_by_oracle := tv\<rparr>"
    by (rule drop_effect [OF inv tx])
  note st = step_drop [OF tx t]
  have "length (om_remove i (live s)) \<le> Suc (length (live s))" by (simp add: om_remove_def le_SucI)
  with room_step [OF assms(1) st] db have rm: "room n \<lparr>sys_db = db', live = om_remove i (live s)\<rparr>" by simp
  show ?thesis by (intro exI conjI, rule st) (use rm CallDrop assms(2) in \<open>simp_all add: map_of_om_remove\<close>)
qed

lemma program_runs:
  "room (length cs) s \<Longrightarrow> proper (dom (map_of (live s))) cs \<Longrightarrow> \<exists>es s'. trace step s es s' \<and> calls_of es = cs"
proof (induction cs arbitrary: s)
  case Nil
  then show ?case by (intro exI [of _ "[]"] exI [of _ s]) simp
next
  case (Cons c cs)
  from call_runs [of "length cs" s c cs] Cons.prems obtain e s1 where e: "step s e s1" "calls_of [e] = [c]"
    "room (length cs) s1" "proper (dom (map_of (live s1))) cs" by auto
  from Cons.IH [OF e(3,4)] obtain es s' where "trace step s1 es s'" "calls_of es = cs" by blast
  moreover have "calls_of (e # es) = c # calls_of es" using e(2) by (cases e) auto
  ultimately show ?case using e(1) by (intro exI [of _ "e # es"] exI [of _ s']) auto
qed

text \<open>A program observes \<open>rs\<close> on a fresh database: it runs to its end, and every run of it returns \<open>rs\<close>.\<close>

definition observes :: "Database \<Rightarrow> call list \<Rightarrow> tx_result list \<Rightarrow> bool" where
  "observes db cs rs \<longleftrightarrow>
     (\<exists>es s'. trace step \<lparr>sys_db = db, live = []\<rparr> es s' \<and> calls_of es = cs)
     \<and> (\<forall>es s'. trace step \<lparr>sys_db = db, live = []\<rparr> es s' \<and> calls_of es = cs \<longrightarrow> results_of es = rs)"

lemma observesI:
  assumes "new_with_options opts (Some unix) clk = Some db" and "unix + length cs < 2 ^ 64 - 1"
    and "proper {} cs" and "\<exists>a. si_calls cs SI_new = Some (rs, a)"
  shows "observes db cs rs"
proof -
  have "sys_inv \<lparr>sys_db = db, live = []\<rparr>" by (rule reachable_inv [OF reachable_new [OF assms(1)]])
  moreover have "unat (of_nat unix :: u64) = unix" using assms(2) by (simp add: unat_of_nat)
  ultimately have "room (length cs) \<lparr>sys_db = db, live = []\<rparr>"
    using assms(2) by (simp add: room_def new_inner [OF assms(1)])
  from program_runs [OF this] assms(3,4) show ?thesis
    by (auto simp: observes_def intro: program_results [OF assms(1)])
qed

section \<open>The example programs, evaluated\<close>

lemmas si_eval = si_ww_def si_rw_def SI_new_def si_new_def si_note_def si_view_def si_guarded_def si_close_def si_install_def

abbreviation done_ok :: tx_result where
  "done_ok \<equiv> RUnit (Inr ())"

abbreviation found :: "string \<Rightarrow> tx_result" where
  "found v \<equiv> RValue (Inr (Some (str_bytes v)))"

abbreviation absent :: tx_result where
  "absent \<equiv> RValue (Inr None)"

lemma basic_main_results:
  "\<exists>a. si_calls basic_main SI_new = Some ([done_ok, done_ok, RBool (Inr True), found ''value1'', found ''value2'', done_ok,
     found ''value1'', found ''value2'', done_ok, done_ok, done_ok, found ''value3'', absent, found ''value2''], a)"
  by (simp add: basic_main_def si_eval)

lemma write_skew_si_results:
  "\<exists>a. si_calls write_skew_si SI_new = Some ([done_ok, done_ok, done_ok, found ''true'', done_ok, found ''true'', done_ok,
     done_ok, done_ok, found ''false'', found ''false''], a)"
  by (simp add: write_skew_si_def skew_setup_def skew_body_def si_eval)

lemma write_skew_ssi_results:
  "\<exists>a. si_calls write_skew_ssi SI_new = Some ([done_ok, done_ok, done_ok, found ''true'', done_ok, found ''true'', done_ok,
     done_ok, RUnit (Inl KeyReadConflict), found ''false'', found ''true''], a)"
  by (simp add: write_skew_ssi_def skew_setup_def skew_body_def si_eval)

lemma ssi_no_conflict_results:
  "\<exists>a. si_calls ssi_no_conflict SI_new = Some ([absent, done_ok, absent, done_ok, done_ok, done_ok], a)"
  by (simp add: ssi_no_conflict_def si_eval)

end
