(* ===== verification/Client_Tests.thy ===== *)
theory Client_Tests
  imports Client_Programs
begin

text \<open>
  The tests of the repository that drive a database through its public interface: the unit tests of
  \<open>src/tx/transaction.rs\<close> and \<open>src/db/db.rs\<close>, and the integration tests \<open>tests/isolations.rs\<close> and
  \<open>tests/gc.rs\<close>.  A test is a program whose calls carry their assertions.  It passes when it runs to its
  end on a fresh database and no run of it breaks an assertion, wherever the background threads and manual
  collections take their steps: a test with a collection at one point is thereby also a test with
  collections at every other.
\<close>

section \<open>Tests and their assertions\<close>

text \<open>
  \<open>IsOk\<close> is \<open>unwrap\<close> and \<open>is_ok\<close>; \<open>FailsWith\<close> is \<open>matches!\<close> on \<open>unwrap_err\<close>; \<open>NoCheck\<close> is for a call whose
  result is dropped or that has none.
\<close>

datatype check = NoCheck | IsOk | IsErr | FailsWith Error | Yields "bytes option" | IsSome | Answers bool

fun satisfied :: "check \<Rightarrow> tx_result \<Rightarrow> bool" where
  "satisfied NoCheck r \<longleftrightarrow> True"
| "satisfied IsOk (RUnit r) \<longleftrightarrow> r = Inr ()"
| "satisfied IsOk (RBool r) \<longleftrightarrow> (\<exists>b. r = Inr b)"
| "satisfied IsOk (RValue r) \<longleftrightarrow> (\<exists>v. r = Inr v)"
| "satisfied IsErr (RUnit r) \<longleftrightarrow> r \<noteq> Inr ()"
| "satisfied (FailsWith e) (RUnit r) \<longleftrightarrow> r = Inl e"
| "satisfied (Yields v) (RValue r) \<longleftrightarrow> r = Inr v"
| "satisfied IsSome (RValue r) \<longleftrightarrow> (\<exists>v. r = Inr (Some v))"
| "satisfied (Answers b) (RBool r) \<longleftrightarrow> r = Inr b"
| "satisfied _ _ \<longleftrightarrow> False"

type_synonym unit_test = "(call \<times> check) list"

fun answers :: "call \<Rightarrow> bool" where
  "answers (CallBegin i wr) \<longleftrightarrow> False"
| "answers (CallOp i (OpMode m)) \<longleftrightarrow> False"
| "answers (CallOp i op) \<longleftrightarrow> True"
| "answers (CallCommit i) \<longleftrightarrow> True"
| "answers (CallDrop i) \<longleftrightarrow> False"

definition checks_of :: "unit_test \<Rightarrow> check list" where
  "checks_of t = map snd (filter (answers \<circ> fst) t)"

definition passes :: "Database \<Rightarrow> unit_test \<Rightarrow> bool" where
  "passes db t \<longleftrightarrow>
     (\<exists>es s'. trace step \<lparr>sys_db = db, live = []\<rparr> es s' \<and> calls_of es = map fst t)
     \<and> (\<forall>es s'. trace step \<lparr>sys_db = db, live = []\<rparr> es s' \<and> calls_of es = map fst t \<longrightarrow>
          list_all2 satisfied (checks_of t) (results_of es))"

section \<open>The abstract machine decides a test\<close>

text \<open>All outcomes of a call; a commit with both kinds of conflict may report either.\<close>

definition both_conflicts :: "SItx \<Rightarrow> bool" where
  "both_conflicts t \<longleftrightarrow> \<not> si_closed t \<and> buffer t \<noteq> Map.empty \<and> si_ww t \<and> si_rw t"

definition one_outcome :: "call \<Rightarrow> SI \<Rightarrow> (tx_result list \<times> SI) list" where
  "one_outcome c a = (case si_call c a of None \<Rightarrow> [] | Some x \<Rightarrow> [x])"

fun si_outcomes :: "call \<Rightarrow> SI \<Rightarrow> (tx_result list \<times> SI) list" where
  "si_outcomes (CallCommit i) a =
     (case txs a i of
        None \<Rightarrow> []
      | Some t \<Rightarrow>
          if both_conflicts t
          then [([RUnit (Inl KeyWriteConflict)], a\<lparr>txs := (txs a)(i \<mapsto> si_close t)\<rparr>),
                ([RUnit (Inl KeyReadConflict)], a\<lparr>txs := (txs a)(i \<mapsto> si_close t)\<rparr>)]
          else one_outcome (CallCommit i) a)"
| "si_outcomes c a = one_outcome c a"

lemma si_outcome:
  assumes "si_step a e a'" and "calls_of [e] = [c]" and "\<not> unpersisted e"
  shows "(result_of e, a') \<in> set (si_outcomes c a)"
proof (cases e)
  case (Committed i q)
  with assms show ?thesis
    by (auto simp: si_commit_simps unpersisted_def both_conflicts_def one_outcome_def split: option.splits if_splits)
qed (use assms in \<open>auto simp: si_step_simps one_outcome_def split: option.splits if_splits prod.splits\<close>)

fun si_check :: "unit_test \<Rightarrow> SI \<Rightarrow> bool" where
  "si_check [] a \<longleftrightarrow> True"
| "si_check ((c, k) # t) a \<longleftrightarrow> list_all (\<lambda>(rs, a'). list_all (satisfied k) rs \<and> si_check t a') (si_outcomes c a)"

lemma checks_of_simps [simp]:
  "checks_of [] = []" "checks_of ((c, k) # t) = (if answers c then k # checks_of t else checks_of t)"
  by (simp_all add: checks_of_def)

lemma call_results: "calls_of [e] = [c] \<Longrightarrow> length (result_of e) = (if answers c then 1 else 0)"
  by (cases e rule: result_of.cases) auto

lemma si_check_sound:
  "trace si_step a es a' \<Longrightarrow> calls_of es = map fst t \<Longrightarrow> \<forall>e\<in>set es. \<not> unpersisted e \<Longrightarrow> si_check t a
    \<Longrightarrow> list_all2 satisfied (checks_of t) (results_of es)"
proof (induction arbitrary: t rule: trace.induct)
  case (trace_Cons a e b es a2)
  show ?case
  proof (cases "e = Internal")
    case True
    with trace_Cons show ?thesis by (auto simp: si_step_simps)
  next
    case False
    then obtain c where c: "calls_of [e] = [c]" "calls_of (e # es) = c # calls_of es" by (cases e) auto
    with trace_Cons.prems(1) obtain k t' where t: "t = (c, k) # t'" "calls_of es = map fst t'" by (cases t) auto
    from trace_Cons.prems(2) have "\<not> unpersisted e" "\<forall>e\<in>set es. \<not> unpersisted e" by simp_all
    from si_outcome [OF trace_Cons.hyps(1) c(1) this(1)] trace_Cons.prems(3) t(1)
      have ok: "list_all (satisfied k) (result_of e)" "si_check t' b" by (auto simp: list_all_iff)
    from trace_Cons.IH [OF t(2) \<open>\<forall>e\<in>set es. \<not> unpersisted e\<close> ok(2)] ok(1) call_results [OF c(1)] show ?thesis
      by (auto simp: t(1) length_Suc_conv)
  qed
qed (auto)

text \<open>
  A test as a predicate that evaluates: proper use of its transactions, every outcome checked, and too short
  to exhaust the numbers.
\<close>

definition green :: "unit_test \<Rightarrow> bool" where
  "green t \<longleftrightarrow> length t < 1000 \<and> proper {} (map fst t) \<and> si_check t SI_new"

lemma green_passes:
  assumes "new_with_options opts (Some unix) clk = Some db" and "unix < 2 ^ 63" and "green t"
  shows "passes db t"
proof -
  have inv: "sys_inv \<lparr>sys_db = db, live = []\<rparr>" by (rule reachable_inv [OF reachable_new [OF assms(1)]])
  have "unix + length t < 2 ^ 64 - 1" using assms(2,3) by (simp add: green_def)
  moreover have "unat (of_nat unix :: u64) = unix" using assms(2) by (simp add: unat_of_nat)
  ultimately have "room (length (map fst t)) \<lparr>sys_db = db, live = []\<rparr>"
    using inv by (simp add: room_def new_inner [OF assms(1)])
  from program_runs [OF this] assms(3)
  have "\<exists>es s'. trace step \<lparr>sys_db = db, live = []\<rparr> es s' \<and> calls_of es = map fst t" by (simp add: green_def)
  moreover have "list_all2 satisfied (checks_of t) (results_of es)"
    if "trace step \<lparr>sys_db = db, live = []\<rparr> es s'" "calls_of es = map fst t" for es s'
  proof -
    from si.trace_sim [OF that(1) inv] have "trace si_step SI_new es (abs_sys s')" by (simp add: new_abs [OF assms(1)])
    from si_check_sound [OF this that(2)] no_files_trace [OF that(1) inv] new_inner(2) [OF assms(1)] assms(3)
    show ?thesis by (simp add: green_def)
  qed
  ultimately show ?thesis by (auto simp: passes_def)
qed

section \<open>Commit numbers\<close>

text \<open>
  Two tests also look at private fields: the commit number and the snapshot of fresh transactions, and the
  counter of commit numbers.  A commit takes a number when it has something to write, whether it passes or not.
\<close>

fun takes_number :: "call \<Rightarrow> SI \<Rightarrow> bool" where
  "takes_number (CallCommit i) a \<longleftrightarrow> (case txs a i of None \<Rightarrow> False | Some t \<Rightarrow> \<not> si_closed t \<and> buffer t \<noteq> Map.empty)"
| "takes_number _ a \<longleftrightarrow> False"

fun numbers_taken :: "call list \<Rightarrow> SI \<Rightarrow> nat" where
  "numbers_taken [] a = 0"
| "numbers_taken (c # cs) a =
     (if takes_number c a then 1 else 0)
     + (case si_outcomes c a of [] \<Rightarrow> 0 | (_, a') # _ \<Rightarrow> numbers_taken cs a')"

lemma gc_dirty_numbers:
  "transaction_commit_id (gc_dirty_loop seen keys ts inner) = transaction_commit_id inner
    \<and> ts_oracle (gc_dirty_loop seen keys ts inner) = ts_oracle inner"
  by (induction seen keys ts inner rule: gc_dirty_loop.induct) (simp_all add: gc_key_def)

lemma compute_cleanup_numbers: "compute_cleanup_ts clk inner = (ts, inner') \<Longrightarrow>
    transaction_commit_id inner' = transaction_commit_id inner \<and> ts_oracle inner' = ts_oracle inner"
  by (auto simp: compute_cleanup_ts_def Let_def)

lemma internal_numbers:
  "step s Internal s' \<Longrightarrow> transaction_commit_id (sys_inner s') = transaction_commit_id (sys_inner s)
    \<and> timestamp (ts_oracle (sys_inner s')) = timestamp (ts_oracle (sys_inner s)) \<and> live s' = live s"
  by (erule step.cases) (auto simp: persistence_simps gc_dirty_numbers resync_round_def
    split: option.splits prod.splits if_splits dest!: compute_cleanup_numbers)

lemma step_commit_id:
  assumes "step s e s'" and "sys_inv s" and "calls_of [e] = [c]"
  shows "transaction_commit_id (sys_inner s') = transaction_commit_id (sys_inner s) + (if takes_number c (abs_sys s) then 1 else 0)"
  using assms(1)
proof (cases rule: step.cases)
  case (step_begin wr tx db' i)
  obtain tv tc where "db_inner db' = (sys_inner s)\<lparr>counter_by_oracle := tv, counter_by_commit := tc\<rparr>"
    by (rule begin_effect [OF assms(2) step_begin(3,5)])
  with step_begin assms(3) show ?thesis by auto
next
  case (step_commit i tx w r tx' inner')
  have a: "txs (abs_sys s) i = Some (abs_tx (sys_inner s) tx)" using step_commit by (simp add: abs_sys_def)
  have b: "c = CallCommit i" using assms(3) step_commit by auto
  show ?thesis
    using assms(2) step_commit(3,5,6)
    by (cases rule: commit_effect [where w = w])
      (use step_commit in \<open>simp_all add: a b abs_tx_def committed_state_def\<close>)
next
  case (step_drop i tx db')
  obtain tv tc db'' where "Transaction_drop tx (sys_db s) = Some db''"
    "db_inner db'' = (sys_inner s)\<lparr>counter_by_commit := tc, counter_by_oracle := tv\<rparr>"
    by (rule drop_effect [OF assms(2) step_drop(3)])
  with step_drop assms(3) show ?thesis by auto
qed (use assms(3) in auto)

lemma si_outcomes_state: "x \<in> set (si_outcomes c a) \<Longrightarrow> snd x = snd (hd (si_outcomes c a))"
  by (cases c) (auto simp: one_outcome_def split: option.splits if_splits)

lemma commit_id_counts:
  "trace step s es s' \<Longrightarrow> sys_inv s \<Longrightarrow> persistence (sys_inner s) = None \<Longrightarrow>
    transaction_commit_id (sys_inner s') = transaction_commit_id (sys_inner s) + of_nat (numbers_taken (calls_of es) (abs_sys s))"
proof (induction rule: trace.induct)
  case (trace_Cons s e s1 es s2)
  note inv = si.inv_step [OF trace_Cons.prems(1) trace_Cons.hyps(1)]
  note nf = no_files_step [OF trace_Cons.hyps(1) trace_Cons.prems]
  note sim = si.sim_step [OF trace_Cons.prems(1) trace_Cons.hyps(1)]
  show ?case
  proof (cases "e = Internal")
    case True
    with trace_Cons inv nf internal_numbers [of s s1] sim show ?thesis by (auto simp: si_step_simps)
  next
    case False
    then obtain c where c: "calls_of [e] = [c]" "calls_of (e # es) = c # calls_of es" by (cases e) auto
    have "(result_of e, abs_sys s1) \<in> set (si_outcomes c (abs_sys s))" using si_outcome [OF sim c(1)] nf by simp
    with si_outcomes_state [OF this] obtain r rest where "si_outcomes c (abs_sys s) = (r, abs_sys s1) # rest"
      by (cases "si_outcomes c (abs_sys s)") auto
    with trace_Cons inv nf step_commit_id [OF trace_Cons.hyps(1) trace_Cons.prems(1) c(1)] show ?thesis by (simp add: c(2))
  qed
qed simp

lemma commit_id_of_run:
  assumes "new_with_options opts unix clk = Some db" and "trace step \<lparr>sys_db = db, live = []\<rparr> es s'"
  shows "transaction_commit_id (sys_inner s') = of_nat (numbers_taken (calls_of es) SI_new)"
  using commit_id_counts [OF assms(2) reachable_inv [OF reachable_new [OF assms(1)]]]
  by (simp add: new_inner [OF assms(1)] new_abs [OF assms(1)])

text \<open>Before the first commit every transaction has the number 0 and the same snapshot.\<close>

lemma uncommitted_step:
  assumes "step s e s'" and "\<forall>i r. e \<noteq> Committed i r" and "sys_inv s"
  shows "transaction_commit_id (sys_inner s') = transaction_commit_id (sys_inner s)
    \<and> timestamp (ts_oracle (sys_inner s')) = timestamp (ts_oracle (sys_inner s))
    \<and> (\<forall>i tx. map_of (live s') i = Some tx \<longrightarrow>
         tx_commit tx = transaction_commit_id (sys_inner s) \<and> tx_version tx = timestamp (ts_oracle (sys_inner s))
         \<or> (\<exists>tx0. map_of (live s) i = Some tx0 \<and> tx_commit tx = tx_commit tx0 \<and> tx_version tx = tx_version tx0))"
  using assms(1)
proof (cases rule: step.cases)
  case (step_begin wr tx db' i)
  obtain tv tc where "db_inner db' = (sys_inner s)\<lparr>counter_by_oracle := tv, counter_by_commit := tc\<rparr>"
    "tx_version tx = timestamp (ts_oracle (sys_inner s))" "tx_commit tx = transaction_commit_id (sys_inner s)"
    by (rule begin_effect [OF assms(3) step_begin(3,5)])
  with step_begin show ?thesis by (auto simp: map_of_om_insert)
next
  case (step_op i tx op r tx')
  have "tx_commit tx' = tx_commit tx \<and> tx_version tx' = tx_version tx"
    using run_op_wf [OF step_op(4)] sys_inv_live(1) [OF assms(3) step_op(3)] by (simp add: live_ok_def same_snapshot_def)
  with step_op show ?thesis by (auto simp: map_of_om_insert)
next
  case (step_drop i tx db')
  obtain tv tc db'' where "Transaction_drop tx (sys_db s) = Some db''"
    "db_inner db'' = (sys_inner s)\<lparr>counter_by_commit := tc, counter_by_oracle := tv\<rparr>"
    by (rule drop_effect [OF assms(3) step_drop(3)])
  with step_drop show ?thesis by (auto simp: map_of_om_remove)
qed (use assms(1,2) internal_numbers [of s s'] in auto)

lemma uncommitted_numbers:
  assumes "new_with_options opts unix clk = Some db" and "trace step \<lparr>sys_db = db, live = []\<rparr> es s'"
    and "\<forall>i. CallCommit i \<notin> set (calls_of es)"
  shows "transaction_commit_id (sys_inner s') = 0
    \<and> (\<forall>i tx. map_of (live s') i = Some tx \<longrightarrow> tx_commit tx = 0 \<and> tx_version tx = timestamp (ts_oracle (db_inner db)))"
proof -
  let ?ok = "\<lambda>s. sys_inv s \<and> transaction_commit_id (sys_inner s) = 0
    \<and> timestamp (ts_oracle (sys_inner s)) = timestamp (ts_oracle (db_inner db))
    \<and> (\<forall>i tx. map_of (live s) i = Some tx \<longrightarrow> tx_commit tx = 0 \<and> tx_version tx = timestamp (ts_oracle (db_inner db)))"
  have "?ok \<lparr>sys_db = db, live = []\<rparr>"
    using reachable_inv [OF reachable_new [OF assms(1)]] by (simp add: new_inner [OF assms(1)])
  with assms(2,3) have "?ok s'"
  proof (induction rule: trace.induct)
    case (trace_Cons s e s1 es s2)
    have e: "\<forall>i r. e \<noteq> Committed i r" "\<forall>i. CallCommit i \<notin> set (calls_of es)"
      using trace_Cons.prems(1) by (cases e; auto)+
    from uncommitted_step [OF trace_Cons.hyps(1) e(1)] trace_Cons.prems si.inv_step [OF _ trace_Cons.hyps(1)]
    have "?ok s1" by metis
    with trace_Cons.IH e(2) show ?case by blast
  qed
  then show ?thesis by simp
qed

section \<open>Writing tests\<close>

abbreviation rw :: "nat \<Rightarrow> call \<times> check" where "rw i \<equiv> (CallBegin i True, NoCheck)"
abbreviation ro :: "nat \<Rightarrow> call \<times> check" where "ro i \<equiv> (CallBegin i False, NoCheck)"
abbreviation at_si :: "nat \<Rightarrow> call \<times> check" where "at_si i \<equiv> (CallOp i (OpMode SnapshotIsolation), NoCheck)"
abbreviation at_ssi :: "nat \<Rightarrow> call \<times> check" where "at_ssi i \<equiv> (CallOp i (OpMode SerializableSnapshotIsolation), NoCheck)"
abbreviation dropped :: "nat \<Rightarrow> call \<times> check" where "dropped i \<equiv> (CallDrop i, NoCheck)"
abbreviation gets :: "nat \<Rightarrow> string \<Rightarrow> check \<Rightarrow> call \<times> check" where "gets i k c \<equiv> (CallOp i (OpGet (str_bytes k)), c)"
abbreviation asks :: "nat \<Rightarrow> string \<Rightarrow> check \<Rightarrow> call \<times> check" where "asks i k c \<equiv> (CallOp i (OpExists (str_bytes k)), c)"
abbreviation sets :: "nat \<Rightarrow> string \<Rightarrow> string \<Rightarrow> check \<Rightarrow> call \<times> check" where
  "sets i k v c \<equiv> (CallOp i (OpSet (str_bytes k) (str_bytes v)), c)"
abbreviation puts :: "nat \<Rightarrow> string \<Rightarrow> string \<Rightarrow> check \<Rightarrow> call \<times> check" where
  "puts i k v c \<equiv> (CallOp i (OpPut (str_bytes k) (str_bytes v)), c)"
abbreviation dels :: "nat \<Rightarrow> string \<Rightarrow> check \<Rightarrow> call \<times> check" where "dels i k c \<equiv> (CallOp i (OpDel (str_bytes k)), c)"
abbreviation commits :: "nat \<Rightarrow> check \<Rightarrow> call \<times> check" where "commits i c \<equiv> (CallCommit i, c)"
abbreviation cancels :: "nat \<Rightarrow> check \<Rightarrow> call \<times> check" where "cancels i c \<equiv> (CallOp i OpCancel, c)"
abbreviation yields :: "string \<Rightarrow> check" where "yields v \<equiv> Yields (Some (str_bytes v))"

text \<open>Locals of a Rust function are dropped in the reverse order of their declaration at the end of their block.\<close>

lemmas test_eval = si_eval green_def both_conflicts_def one_outcome_def

section \<open>\<open>src/tx/transaction.rs\<close>\<close>

definition mvcc_non_conflicting_keys_should_succeed :: unit_test where
  "mvcc_non_conflicting_keys_should_succeed =
     [rw 0, rw 1, gets 0 ''key1'' (Yields None), sets 0 ''key1'' ''value1'' IsOk, commits 0 IsOk,
      gets 1 ''key2'' (Yields None), sets 1 ''key2'' ''value2'' IsOk, commits 1 IsOk, dropped 1,
      dropped 0]"

definition mvcc_conflicting_blind_writes_should_error :: unit_test where
  "mvcc_conflicting_blind_writes_should_error =
     [rw 0, rw 1, gets 0 ''key1'' (Yields None), sets 0 ''key1'' ''value1'' IsOk,
      gets 1 ''key1'' (Yields None), sets 1 ''key1'' ''value2'' IsOk, commits 0 IsOk,
      commits 1 (FailsWith KeyWriteConflict), rw 2, gets 2 ''key1'' (yields ''value1''),
      sets 2 ''key1'' ''value3'' IsOk, commits 2 IsOk, dropped 2, dropped 1, dropped 0]"

definition mvcc_si_conflicting_read_keys_should_succeed :: unit_test where
  "mvcc_si_conflicting_read_keys_should_succeed =
     [rw 0, at_si 0, rw 1, at_si 1, gets 0 ''key1'' (Yields None), sets 0 ''key1'' ''value1'' IsOk,
      commits 0 IsOk, gets 1 ''key1'' (Yields None), sets 1 ''key2'' ''value2'' IsOk, commits 1 IsOk,
      dropped 1, dropped 0]"

definition mvcc_conflicting_read_deleted_keys_should_error :: unit_test where
  "mvcc_conflicting_read_deleted_keys_should_error =
     [rw 0, sets 0 ''key'' ''value1'' IsOk, commits 0 IsOk, rw 1, rw 2, gets 1 ''key'' IsSome,
      dels 1 ''key'' IsOk, commits 1 IsOk, gets 2 ''key'' (yields ''value1''),
      sets 2 ''key'' ''value2'' IsOk, commits 2 (FailsWith KeyWriteConflict), dropped 2, dropped 1,
      dropped 0]"

definition mvcc_transaction_queue_correctness :: unit_test where
  "mvcc_transaction_queue_correctness =
     [rw 0, sets 0 ''key1'' ''value1'' IsOk, commits 0 IsOk, dropped 0, rw 1,
      sets 1 ''key2'' ''value2'' IsOk, commits 1 IsOk, dropped 1, rw 2, sets 2 ''key'' ''value'' IsOk,
      rw 3, sets 3 ''key'' ''value'' IsOk, commits 2 IsOk, commits 3 IsErr, dropped 2, dropped 3, rw 4,
      sets 4 ''key'' ''other'' IsOk, rw 5, sets 5 ''key'' ''other'' IsOk, commits 4 IsOk,
      commits 5 IsErr, dropped 4, dropped 5, rw 6, sets 6 ''key'' ''change'' IsOk, rw 7,
      sets 7 ''key'' ''change'' IsOk, commits 6 IsOk, commits 6 IsErr, dropped 6, dropped 7]"

definition test_snapshot_isolation :: unit_test where
  "test_snapshot_isolation =
     [rw 0, rw 1, sets 0 ''key1'' ''baz'' IsOk, commits 0 IsOk, gets 1 ''key2'' (Yields None),
      sets 1 ''key2'' ''bar'' IsOk, commits 1 IsOk, dropped 1, dropped 0, rw 2, rw 3,
      sets 2 ''key1'' ''baz'' IsOk, commits 2 IsOk, gets 3 ''key1'' IsOk, sets 3 ''key1'' ''bar'' IsOk,
      commits 3 IsErr, dropped 3, dropped 2, rw 4, rw 5, sets 4 ''key1'' ''baz'' IsOk,
      sets 5 ''key1'' ''bar'' IsOk, commits 4 IsOk, commits 5 IsErr, dropped 5, dropped 4, rw 6, rw 7,
      sets 6 ''key3'' ''baz'' IsOk, commits 6 IsOk, gets 7 ''key3'' (Yields None),
      sets 7 ''key3'' ''baz'' IsOk, commits 7 IsErr, dropped 7, dropped 6]"

definition test_serializable_snapshot_isolation :: unit_test where
  "test_serializable_snapshot_isolation =
     [rw 0, at_ssi 0, rw 1, at_ssi 1, sets 0 ''key1'' ''baz'' IsOk, commits 0 IsOk,
      gets 1 ''key2'' (Yields None), sets 1 ''key2'' ''bar'' IsOk, commits 1 IsOk, dropped 1, dropped 0,
      rw 2, at_ssi 2, rw 3, at_ssi 3, sets 2 ''key1'' ''baz'' IsOk, commits 2 IsOk,
      gets 3 ''key1'' IsOk, sets 3 ''key1'' ''bar'' IsOk, commits 3 IsErr, dropped 3, dropped 2, rw 4,
      at_ssi 4, rw 5, at_ssi 5, sets 4 ''key1'' ''baz'' IsOk, sets 5 ''key1'' ''bar'' IsOk,
      commits 4 IsOk, commits 5 IsErr, dropped 5, dropped 4, rw 6, at_ssi 6, rw 7, at_ssi 7,
      sets 6 ''key3'' ''baz'' IsOk, commits 6 IsOk, gets 7 ''key3'' (Yields None),
      sets 7 ''key3'' ''baz'' IsOk, commits 7 IsErr, dropped 7, dropped 6, rw 8, at_ssi 8,
      sets 8 ''key4'' ''baz'' IsOk, commits 8 IsOk, rw 9, at_ssi 9, rw 10, at_ssi 10,
      dels 9 ''key4'' IsOk, commits 9 IsOk, gets 10 ''key4'' IsOk, sets 10 ''key1'' ''bar'' IsOk,
      commits 10 IsErr, dropped 10, dropped 9, dropped 8]"

definition new_db :: unit_test where
  "new_db =
     [rw 0, sets 0 ''k1'' ''v1'' IsOk, sets 0 ''k2'' ''v2'' IsOk, commits 0 IsOk, dropped 0]"

definition test_anomaly_g0 :: unit_test where
  "test_anomaly_g0 =
     new_db @
     [rw 1, rw 2, gets 1 ''k1'' (yields ''v1''), gets 1 ''k2'' (yields ''v2''), gets 2 ''k1'' IsOk,
      gets 2 ''k2'' IsOk, sets 1 ''k1'' ''v3'' IsOk, sets 2 ''k1'' ''v4'' IsOk,
      sets 1 ''k2'' ''v5'' IsOk, commits 1 IsOk, sets 2 ''k2'' ''v6'' IsOk, commits 2 IsErr, dropped 2,
      dropped 1, rw 3, gets 3 ''k1'' (yields ''v3''), gets 3 ''k2'' (yields ''v5''), dropped 3]"

section \<open>\<open>src/db/db.rs\<close>\<close>

definition begin_tx :: unit_test where
  "begin_tx = [ro 0, dropped 0]"

definition finished_tx_not_writeable :: unit_test where
  "finished_tx_not_writeable =
     [rw 0, cancels 0 IsOk, puts 0 ''test'' ''something'' IsErr, sets 0 ''test'' ''something'' IsErr,
      dels 0 ''test'' IsErr, commits 0 IsErr, cancels 0 IsErr, dropped 0]"

definition cancelled_tx_is_cancelled :: unit_test where
  "cancelled_tx_is_cancelled =
     [rw 0, puts 0 ''test'' ''something'' IsOk, asks 0 ''test'' (Answers True),
      gets 0 ''test'' (yields ''something''), cancels 0 IsOk, ro 1, asks 1 ''test'' (Answers False),
      gets 1 ''test'' (Yields None), cancels 1 IsOk, dropped 1, dropped 0]"

definition committed_tx_is_committed :: unit_test where
  "committed_tx_is_committed =
     [rw 0, puts 0 ''test'' ''something'' IsOk, asks 0 ''test'' (Answers True),
      gets 0 ''test'' (yields ''something''), commits 0 IsOk, ro 1, asks 1 ''test'' (Answers True),
      gets 1 ''test'' (yields ''something''), cancels 1 IsOk, dropped 1, dropped 0]"

section \<open>\<open>tests/isolations.rs\<close>\<close>

definition snapshot_isolation_read_sees_consistent_snapshot :: unit_test where
  "snapshot_isolation_read_sees_consistent_snapshot =
     [rw 0, sets 0 ''key1'' ''value1'' IsOk, sets 0 ''key2'' ''value2'' IsOk, commits 0 IsOk, ro 1,
      rw 2, sets 2 ''key1'' ''modify1'' IsOk, sets 2 ''key2'' ''modify2'' IsOk, commits 2 IsOk,
      gets 1 ''key1'' (yields ''value1''), gets 1 ''key2'' (yields ''value2''), cancels 1 IsOk, ro 3,
      gets 3 ''key1'' (yields ''modify1''), cancels 3 IsOk, dropped 3, dropped 2, dropped 1, dropped 0]"

definition snapshot_isolation_allows_concurrent_writes_to_different_keys :: unit_test where
  "snapshot_isolation_allows_concurrent_writes_to_different_keys =
     [rw 0, sets 0 ''key1'' ''value1'' IsOk, sets 0 ''key2'' ''value2'' IsOk, commits 0 IsOk, rw 1,
      rw 2, sets 1 ''key1'' ''tx1_value'' IsOk, sets 2 ''key2'' ''tx2_value'' IsOk, commits 1 IsOk,
      commits 2 IsOk, ro 3, gets 3 ''key1'' (yields ''tx1_value''),
      gets 3 ''key2'' (yields ''tx2_value''), cancels 3 IsOk, dropped 3, dropped 2, dropped 1,
      dropped 0]"

definition ssi_detects_write_write_confict_on_same_key :: unit_test where
  "ssi_detects_write_write_confict_on_same_key =
     [rw 0, at_ssi 0, rw 1, at_ssi 1, sets 0 ''key'' ''value1'' IsOk, sets 1 ''key'' ''value2'' IsOk,
      commits 0 IsOk, commits 1 IsErr, ro 2, gets 2 ''key'' (yields ''value1''), cancels 2 IsOk,
      dropped 2, dropped 1, dropped 0]"

definition ssi_detects_read_write_conflict :: unit_test where
  "ssi_detects_read_write_conflict =
     [rw 0, sets 0 ''key1'' ''value1'' IsOk, commits 0 IsOk, rw 1, at_ssi 1,
      gets 1 ''key1'' (yields ''value1''), rw 2, at_ssi 2, sets 2 ''key1'' ''modified'' IsOk,
      commits 2 IsOk, sets 1 ''other_key'' ''value'' IsOk, commits 1 IsErr, dropped 2, dropped 1,
      dropped 0]"

definition ssi_isoloation_concurrent_writes_to_disjoint_keys :: unit_test where
  "ssi_isoloation_concurrent_writes_to_disjoint_keys =
     [rw 0, at_ssi 0, rw 1, at_ssi 1, sets 0 ''key_a'' ''value_a'' IsOk,
      sets 1 ''key_b'' ''value_b'' IsOk, commits 0 IsOk, commits 1 IsOk, ro 2,
      gets 2 ''key_a'' (yields ''value_a''), gets 2 ''key_b'' (yields ''value_b''), cancels 2 IsOk,
      dropped 2, dropped 1, dropped 0]"

definition ssi_read_on_non_existent_key_then_concurrent_insert :: unit_test where
  "ssi_read_on_non_existent_key_then_concurrent_insert =
     [rw 0, at_ssi 0, gets 0 ''empty'' (Yields None), rw 1, at_ssi 1, sets 1 ''empty'' ''value'' IsOk,
      commits 1 IsOk, sets 0 ''other'' ''data'' IsOk, commits 0 IsErr, dropped 1, dropped 0]"

definition ssi_exists_check_creates_read_dependency :: unit_test where
  "ssi_exists_check_creates_read_dependency =
     [rw 0, at_ssi 0, asks 0 ''key'' (Answers False), rw 1, at_ssi 1, sets 1 ''key'' ''value'' IsOk,
      commits 1 IsOk, sets 0 ''other'' ''data'' IsOk, commits 0 IsErr, dropped 1, dropped 0]"

definition ssi_delete_conflict :: unit_test where
  "ssi_delete_conflict =
     [rw 0, sets 0 ''key'' ''value'' IsOk, commits 0 IsOk, rw 1, at_ssi 1, gets 1 ''key'' IsSome, rw 2,
      at_ssi 2, dels 2 ''key'' IsOk, commits 2 IsOk, sets 1 ''key'' ''new_value'' IsOk, commits 1 IsErr,
      dropped 2, dropped 1, dropped 0]"

definition ssi_multiple_readers_one_writer :: unit_test where
  "ssi_multiple_readers_one_writer =
     [rw 0, sets 0 ''key'' ''initial'' IsOk, commits 0 IsOk, rw 1, at_ssi 1, rw 2, at_ssi 2,
      gets 1 ''key'' IsOk, gets 2 ''key'' IsOk, sets 1 ''key'' ''modified'' IsOk, commits 1 IsOk,
      sets 2 ''other'' ''value'' IsOk, commits 2 IsErr, dropped 2, dropped 1, dropped 0]"

definition ssi_detects_phantom_via_read_tracking :: unit_test where
  "ssi_detects_phantom_via_read_tracking =
     [rw 0, at_ssi 0, rw 1, at_ssi 1, gets 0 ''key'' (Yields None), sets 1 ''key'' ''value'' IsOk,
      commits 1 IsOk, sets 0 ''other'' ''data'' IsOk, commits 0 IsErr, dropped 1, dropped 0]"

definition si_mode_allows_read_write_anomaly :: unit_test where
  "si_mode_allows_read_write_anomaly =
     [rw 0, sets 0 ''key'' ''initial'' IsOk, commits 0 IsOk, rw 1, gets 1 ''key'' IsOk, rw 2,
      sets 2 ''key'' ''modified'' IsOk, commits 2 IsOk, sets 1 ''other'' ''value'' IsOk, commits 1 IsOk,
      dropped 2, dropped 1, dropped 0]"

definition concurrent_counter_increment_conflict :: unit_test where
  "concurrent_counter_increment_conflict =
     [rw 0, sets 0 ''counter'' ''0'' IsOk, commits 0 IsOk, rw 1, at_ssi 1, rw 2, at_ssi 2,
      gets 1 ''counter'' (yields ''0''), gets 2 ''counter'' (yields ''0''), sets 1 ''counter'' ''1'' IsOk,
      sets 2 ''counter'' ''1'' IsOk, commits 1 IsOk, commits 2 IsErr, ro 3,
      gets 3 ''counter'' (yields ''1''), cancels 3 IsOk, dropped 3, dropped 2, dropped 1, dropped 0]"

section \<open>\<open>tests/gc.rs\<close>\<close>

text \<open>
  The manual collections of these tests and the pauses that wait for the background threads are internal
  steps, which a run may take anywhere; the options only set intervals.  \<open>format!\<close> prints a number in decimal.
\<close>

definition write_each :: "nat list \<Rightarrow> (nat \<Rightarrow> string) \<Rightarrow> (nat \<Rightarrow> string) \<Rightarrow> unit_test" where
  "write_each ns k v = concat (map (\<lambda>i. [rw i, sets i (k i) (v i) IsOk, commits i IsOk, dropped i]) ns)"

definition manual_gc_reove_stale_versions :: unit_test where
  "manual_gc_reove_stale_versions =
     write_each [0..<10] (\<lambda>_. ''key'') (\<lambda>i. ''v'' @ show_nat i) @
     [ro 10, gets 10 ''key'' (yields ''v9''), cancels 10 IsOk, dropped 10]"

definition manual_gc_respects_active_transactions :: unit_test where
  "manual_gc_respects_active_transactions =
     [rw 0, sets 0 ''key'' ''v1'' IsOk, commits 0 IsOk, ro 1, gets 1 ''key'' (yields ''v1'')] @
     write_each [2..<10] (\<lambda>_. ''key'') (\<lambda>i. ''v'' @ show_nat i) @
     [gets 1 ''key'' (yields ''v1''), dropped 1, dropped 0]"

definition manual_gc_removes_deleted_keys :: unit_test where
  "manual_gc_removes_deleted_keys =
     [rw 0, sets 0 ''deleted_key'' ''value'' IsOk, commits 0 IsOk, rw 1, dels 1 ''deleted_key'' IsOk, commits 1 IsOk,
      ro 2, gets 2 ''deleted_key'' (Yields None), cancels 2 IsOk, dropped 2, dropped 1, dropped 0]"

definition background_gc_runs_automatically :: unit_test where
  "background_gc_runs_automatically =
     write_each [0..<20] (\<lambda>_. ''gc_key'') (\<lambda>i. ''value_'' @ show_nat i) @
     [ro 20, gets 20 ''gc_key'' IsSome, cancels 20 IsOk, dropped 20]"

definition gc_handles_multiple_keys :: unit_test where
  "gc_handles_multiple_keys =
     write_each [0..<50] (\<lambda>i. ''key_'' @ show_nat (i div 5)) (\<lambda>i. ''v'' @ show_nat (i mod 5)) @
     [ro 50] @ map (\<lambda>i. gets 50 (''key_'' @ show_nat i) (yields ''v4'')) [0..<10] @ [cancels 50 IsOk, dropped 50]"

definition gc_with_mixed_deletes :: unit_test where
  "gc_with_mixed_deletes =
     [rw 0, sets 0 ''keep1'' ''value1'' IsOk, sets 0 ''keep2'' ''value2'' IsOk, sets 0 ''delete1'' ''value'' IsOk,
      sets 0 ''delete2'' ''value'' IsOk, commits 0 IsOk,
      rw 1, dels 1 ''delete1'' IsOk, dels 1 ''delete2'' IsOk, commits 1 IsOk,
      ro 2, gets 2 ''keep1'' (yields ''value1''), gets 2 ''keep2'' (yields ''value2''),
      gets 2 ''delete1'' (Yields None), gets 2 ''delete2'' (Yields None), cancels 2 IsOk, dropped 2, dropped 1, dropped 0]"

definition manual_cleanup :: unit_test where
  "manual_cleanup =
     write_each [0..<20] (\<lambda>i. ''key_'' @ show_nat i) (\<lambda>_. ''value'') @
     [ro 20] @ map (\<lambda>i. asks 20 (''key_'' @ show_nat i) (Answers True)) [0..<20] @ [cancels 20 IsOk, dropped 20]"

definition gc_with_only_deleted_keys :: unit_test where
  "gc_with_only_deleted_keys =
     [rw 0] @ map (\<lambda>i. sets 0 (''temp_'' @ show_nat i) ''value'' IsOk) [0..<10] @ [commits 0 IsOk] @
     [rw 1] @ map (\<lambda>i. dels 1 (''temp_'' @ show_nat i) IsOk) [0..<10] @ [commits 1 IsOk] @
     [ro 2] @ map (\<lambda>i. gets 2 (''temp_'' @ show_nat i) (Yields None)) [0..<10] @
     [cancels 2 IsOk, dropped 2, dropped 1, dropped 0]"

definition gc_empty_database :: unit_test where
  "gc_empty_database =
     [rw 0, sets 0 ''key'' ''value'' IsOk, commits 0 IsOk, ro 1, gets 1 ''key'' (yields ''value''), cancels 1 IsOk,
      dropped 1, dropped 0]"

definition gc_preserves_tombstones_for_active_readers :: unit_test where
  "gc_preserves_tombstones_for_active_readers =
     [rw 0, sets 0 ''key'' ''original'' IsOk, commits 0 IsOk, ro 1, gets 1 ''key'' (yields ''original''),
      rw 2, dels 2 ''key'' IsOk, commits 2 IsOk, gets 1 ''key'' (yields ''original''),
      ro 3, gets 3 ''key'' (Yields None), dropped 3, dropped 2, dropped 1, dropped 0]"

text \<open>A loop of writing transactions with no other one open.\<close>

definition write_all :: "nat list \<Rightarrow> (nat \<Rightarrow> string) \<Rightarrow> (nat \<Rightarrow> string) \<Rightarrow> (bytes \<rightharpoonup> bytes) \<Rightarrow> bytes \<rightharpoonup> bytes" where
  "write_all ns k v m = fold (\<lambda>i m. m(str_bytes (k i) \<mapsto> str_bytes (v i))) ns m"

lemma si_check_writes:
  assumes "txs a = Map.empty"
  shows "si_check (write_each ns k v @ t) a
    \<longleftrightarrow> si_check t (a\<lparr>now := write_all ns k v (now a)\<rparr>)"
  using assms
proof (induction ns arbitrary: a)
  case (Cons i ns)
  have m: "si_install [str_bytes (k i) \<mapsto> Some (str_bytes (v i))] (now a) = (now a)(str_bytes (k i) \<mapsto> str_bytes (v i))"
    by (auto simp: si_install_def)
  have e: "(map_option f \<circ> [i \<mapsto> u])(i := None) = Map.empty" for f :: "SItx \<Rightarrow> SItx" and u by (auto simp: fun_eq_iff)
  have one: "si_check ([rw i, sets i (k i) (v i) IsOk, commits i IsOk, dropped i] @ t') a
    \<longleftrightarrow> si_check t' (a\<lparr>now := (now a)(str_bytes (k i) \<mapsto> str_bytes (v i))\<rparr>)" for t'
    using Cons.prems m e
    by (cases a) (simp add: si_ww_def si_rw_def si_new_def si_guarded_def si_close_def both_conflicts_def one_outcome_def)
  have split: "write_each (i # ns) k v @ t = [rw i, sets i (k i) (v i) IsOk, commits i IsOk, dropped i] @ (write_each ns k v @ t)"
    by (simp add: write_each_def)
  show ?case unfolding split one using Cons by (simp add: write_all_def)
qed (simp add: write_all_def write_each_def)

lemma proper_writes:
  "set ns \<inter> held = {} \<Longrightarrow>
    proper held (map fst (write_each ns k v) @ cs) = proper held cs"
  by (induction ns) (auto simp: write_each_def insert_Diff_if)

lemma length_write_each [simp]: "length (write_each ns k v) = 4 * length ns"
  by (induction ns) (simp_all add: write_each_def)

lemmas gc_eval = show_nat_digits si_check_writes proper_writes write_all_def upt_rec

section \<open>The tests are green\<close>

lemma mvcc_non_conflicting_keys_should_succeed_green: "green mvcc_non_conflicting_keys_should_succeed"
  by (simp add: mvcc_non_conflicting_keys_should_succeed_def test_eval)

lemma mvcc_conflicting_blind_writes_should_error_green: "green mvcc_conflicting_blind_writes_should_error"
  by (simp add: mvcc_conflicting_blind_writes_should_error_def test_eval)

lemma mvcc_si_conflicting_read_keys_should_succeed_green: "green mvcc_si_conflicting_read_keys_should_succeed"
  by (simp add: mvcc_si_conflicting_read_keys_should_succeed_def test_eval)

lemma mvcc_conflicting_read_deleted_keys_should_error_green: "green mvcc_conflicting_read_deleted_keys_should_error"
  by (simp add: mvcc_conflicting_read_deleted_keys_should_error_def test_eval)

lemma mvcc_transaction_queue_correctness_green: "green mvcc_transaction_queue_correctness"
  by (simp add: mvcc_transaction_queue_correctness_def test_eval)

lemma test_snapshot_isolation_green: "green test_snapshot_isolation"
  by (simp add: test_snapshot_isolation_def test_eval)

lemma test_serializable_snapshot_isolation_green: "green test_serializable_snapshot_isolation"
  by (simp add: test_serializable_snapshot_isolation_def test_eval)

lemma test_anomaly_g0_green: "green test_anomaly_g0"
  by (simp add: test_anomaly_g0_def new_db_def test_eval)

lemma begin_tx_green: "green begin_tx"
  by (simp add: begin_tx_def test_eval)

lemma finished_tx_not_writeable_green: "green finished_tx_not_writeable"
  by (simp add: finished_tx_not_writeable_def test_eval)

lemma cancelled_tx_is_cancelled_green: "green cancelled_tx_is_cancelled"
  by (simp add: cancelled_tx_is_cancelled_def test_eval)

lemma committed_tx_is_committed_green: "green committed_tx_is_committed"
  by (simp add: committed_tx_is_committed_def test_eval)

lemma snapshot_isolation_read_sees_consistent_snapshot_green: "green snapshot_isolation_read_sees_consistent_snapshot"
  by (simp add: snapshot_isolation_read_sees_consistent_snapshot_def test_eval)

lemma snapshot_isolation_allows_concurrent_writes_to_different_keys_green: "green snapshot_isolation_allows_concurrent_writes_to_different_keys"
  by (simp add: snapshot_isolation_allows_concurrent_writes_to_different_keys_def test_eval)

lemma ssi_detects_write_write_confict_on_same_key_green: "green ssi_detects_write_write_confict_on_same_key"
  by (simp add: ssi_detects_write_write_confict_on_same_key_def test_eval)

lemma ssi_detects_read_write_conflict_green: "green ssi_detects_read_write_conflict"
  by (simp add: ssi_detects_read_write_conflict_def test_eval)

lemma ssi_isoloation_concurrent_writes_to_disjoint_keys_green: "green ssi_isoloation_concurrent_writes_to_disjoint_keys"
  by (simp add: ssi_isoloation_concurrent_writes_to_disjoint_keys_def test_eval)

lemma ssi_read_on_non_existent_key_then_concurrent_insert_green: "green ssi_read_on_non_existent_key_then_concurrent_insert"
  by (simp add: ssi_read_on_non_existent_key_then_concurrent_insert_def test_eval)

lemma ssi_exists_check_creates_read_dependency_green: "green ssi_exists_check_creates_read_dependency"
  by (simp add: ssi_exists_check_creates_read_dependency_def test_eval)

lemma ssi_delete_conflict_green: "green ssi_delete_conflict"
  by (simp add: ssi_delete_conflict_def test_eval)

lemma ssi_multiple_readers_one_writer_green: "green ssi_multiple_readers_one_writer"
  by (simp add: ssi_multiple_readers_one_writer_def test_eval)

lemma ssi_detects_phantom_via_read_tracking_green: "green ssi_detects_phantom_via_read_tracking"
  by (simp add: ssi_detects_phantom_via_read_tracking_def test_eval)

lemma si_mode_allows_read_write_anomaly_green: "green si_mode_allows_read_write_anomaly"
  by (simp add: si_mode_allows_read_write_anomaly_def test_eval)

lemma concurrent_counter_increment_conflict_green: "green concurrent_counter_increment_conflict"
  by (simp add: concurrent_counter_increment_conflict_def test_eval)

lemma manual_gc_reove_stale_versions_green: "green manual_gc_reove_stale_versions"
  by (simp add: manual_gc_reove_stale_versions_def gc_eval test_eval)

lemma manual_gc_respects_active_transactions_green: "green manual_gc_respects_active_transactions"
  by (simp add: manual_gc_respects_active_transactions_def write_each_def upt_rec show_nat_digits test_eval)

lemma manual_gc_removes_deleted_keys_green: "green manual_gc_removes_deleted_keys"
  by (simp add: manual_gc_removes_deleted_keys_def gc_eval test_eval)

lemma background_gc_runs_automatically_green: "green background_gc_runs_automatically"
  by (simp add: background_gc_runs_automatically_def gc_eval test_eval)

lemma gc_handles_multiple_keys_green: "green gc_handles_multiple_keys"
  by (simp add: gc_handles_multiple_keys_def gc_eval test_eval)

lemma gc_with_mixed_deletes_green: "green gc_with_mixed_deletes"
  by (simp add: gc_with_mixed_deletes_def gc_eval test_eval)

lemma manual_cleanup_green: "green manual_cleanup"
  by (simp add: manual_cleanup_def gc_eval test_eval)

lemma gc_with_only_deleted_keys_green: "green gc_with_only_deleted_keys"
  by (simp add: gc_with_only_deleted_keys_def gc_eval test_eval)

lemma gc_empty_database_green: "green gc_empty_database"
  by (simp add: gc_empty_database_def gc_eval test_eval)

lemma gc_preserves_tombstones_for_active_readers_green: "green gc_preserves_tombstones_for_active_readers"
  by (simp add: gc_preserves_tombstones_for_active_readers_def gc_eval test_eval)

lemma mvcc_si_numbers: "numbers_taken (map fst (take 10 mvcc_si_conflicting_read_keys_should_succeed)) SI_new = 2"
  by (simp add: mvcc_si_conflicting_read_keys_should_succeed_def test_eval)

section \<open>The suites\<close>

definition transaction_tests :: "unit_test list" where
  "transaction_tests =
     [mvcc_non_conflicting_keys_should_succeed, mvcc_conflicting_blind_writes_should_error,
      mvcc_si_conflicting_read_keys_should_succeed, mvcc_conflicting_read_deleted_keys_should_error,
      mvcc_transaction_queue_correctness, test_snapshot_isolation, test_serializable_snapshot_isolation,
      test_anomaly_g0]"

definition database_tests :: "unit_test list" where
  "database_tests =
     [begin_tx, finished_tx_not_writeable, cancelled_tx_is_cancelled, committed_tx_is_committed]"

definition isolation_tests :: "unit_test list" where
  "isolation_tests =
     [snapshot_isolation_read_sees_consistent_snapshot,
      snapshot_isolation_allows_concurrent_writes_to_different_keys,
      ssi_detects_write_write_confict_on_same_key, ssi_detects_read_write_conflict,
      ssi_isoloation_concurrent_writes_to_disjoint_keys, ssi_read_on_non_existent_key_then_concurrent_insert,
      ssi_exists_check_creates_read_dependency, ssi_delete_conflict, ssi_multiple_readers_one_writer,
      ssi_detects_phantom_via_read_tracking, si_mode_allows_read_write_anomaly,
      concurrent_counter_increment_conflict]"

definition gc_tests :: "unit_test list" where
  "gc_tests =
     [manual_gc_reove_stale_versions, manual_gc_respects_active_transactions, manual_gc_removes_deleted_keys,
      background_gc_runs_automatically, gc_handles_multiple_keys, gc_with_mixed_deletes, manual_cleanup,
      gc_with_only_deleted_keys, gc_empty_database, gc_preserves_tombstones_for_active_readers]"

lemma transaction_tests_green: "list_all green transaction_tests"
  by (simp add: transaction_tests_def mvcc_non_conflicting_keys_should_succeed_green mvcc_conflicting_blind_writes_should_error_green mvcc_si_conflicting_read_keys_should_succeed_green mvcc_conflicting_read_deleted_keys_should_error_green mvcc_transaction_queue_correctness_green test_snapshot_isolation_green test_serializable_snapshot_isolation_green test_anomaly_g0_green)

lemma database_tests_green: "list_all green database_tests"
  by (simp add: database_tests_def begin_tx_green finished_tx_not_writeable_green cancelled_tx_is_cancelled_green committed_tx_is_committed_green)

lemma isolation_tests_green: "list_all green isolation_tests"
  by (simp add: isolation_tests_def snapshot_isolation_read_sees_consistent_snapshot_green snapshot_isolation_allows_concurrent_writes_to_different_keys_green ssi_detects_write_write_confict_on_same_key_green ssi_detects_read_write_conflict_green ssi_isoloation_concurrent_writes_to_disjoint_keys_green ssi_read_on_non_existent_key_then_concurrent_insert_green ssi_exists_check_creates_read_dependency_green ssi_delete_conflict_green ssi_multiple_readers_one_writer_green ssi_detects_phantom_via_read_tracking_green si_mode_allows_read_write_anomaly_green concurrent_counter_increment_conflict_green)

lemma gc_tests_green: "list_all green gc_tests"
  by (simp add: gc_tests_def manual_gc_reove_stale_versions_green manual_gc_respects_active_transactions_green manual_gc_removes_deleted_keys_green background_gc_runs_automatically_green gc_handles_multiple_keys_green gc_with_mixed_deletes_green manual_cleanup_green gc_with_only_deleted_keys_green gc_empty_database_green gc_preserves_tombstones_for_active_readers_green)

end
