(* ===== verification/Component_Tests.thy ===== *)
theory Component_Tests
  imports Client_Programs
begin

text \<open>
  The unit tests of the version chains (\<open>src/versions/versions.rs\<close>) and of the Bloom filter
  (\<open>src/bloom/bloom.rs\<close>), run on the model.  A test of chains is a list of the operations and assertions it
  makes on one chain.
\<close>

section \<open>Tests of a version chain\<close>

text \<open>
  The operations \<open>push\<close> and \<open>gc_older_versions\<close>, and the assertions on the length, on the version at an index, on
  \<open>fetch_version\<close>, \<open>exists_version\<close>, \<open>find_index_lt_version\<close>, \<open>find_index_lte_version\<close> and on what a compaction leaves.
\<close>

datatype chain_step =
    Push u64 "string option"
  | Compact u64
  | LenIs nat
  | VersionAt nat u64
  | Fetches u64 "string option"
  | ExistsIs u64 bool
  | FirstFrom u64 nat
  | FirstAfter u64 nat
  | CompactTo u64 nat

definition make_version :: "u64 \<Rightarrow> string option \<Rightarrow> Version" where
  "make_version ver v = \<lparr>version = ver, value_of = map_option str_bytes v\<rparr>"

fun chain_test :: "chain_step list \<Rightarrow> Versions \<Rightarrow> bool" where
  "chain_test [] vs \<longleftrightarrow> True"
| "chain_test (Push ver v # t) vs \<longleftrightarrow> chain_test t (push vs (make_version ver v))"
| "chain_test (Compact ver # t) vs \<longleftrightarrow> chain_test t (fst (gc_older_versions vs ver))"
| "chain_test (LenIs n # t) vs \<longleftrightarrow> length vs = n \<and> chain_test t vs"
| "chain_test (VersionAt i ver # t) vs \<longleftrightarrow> i < length vs \<and> version (vs ! i) = ver \<and> chain_test t vs"
| "chain_test (Fetches ver v # t) vs \<longleftrightarrow> fetch_version vs ver = map_option str_bytes v \<and> chain_test t vs"
| "chain_test (ExistsIs ver b # t) vs \<longleftrightarrow> exists_version vs ver = b \<and> chain_test t vs"
| "chain_test (FirstFrom ver n # t) vs \<longleftrightarrow> find_index_lt_version vs ver = n \<and> chain_test t vs"
| "chain_test (FirstAfter ver n # t) vs \<longleftrightarrow> find_index_lte_version vs ver = n \<and> chain_test t vs"
| "chain_test (CompactTo ver n # t) vs \<longleftrightarrow>
     snd (gc_older_versions vs ver) = n \<and> chain_test t (fst (gc_older_versions vs ver))"

abbreviation chain_green :: "chain_step list \<Rightarrow> bool" where
  "chain_green t \<equiv> chain_test t Versions_new"

text \<open>A test that calls \<open>make_versions\<close> begins with the pushes of its list.\<close>

definition make_versions :: "(u64 \<times> string option) list \<Rightarrow> chain_step list" where
  "make_versions vs = map (\<lambda>(ver, v). Push ver v) vs"

definition test_find_index_lt_version_empty :: "chain_step list" where
  "test_find_index_lt_version_empty =
     make_versions [] @
     [FirstFrom 10 0]"

definition test_find_index_lt_version_single_element :: "chain_step list" where
  "test_find_index_lt_version_single_element =
     make_versions [(5, Some ''val'')] @
     [FirstFrom 3 0, FirstFrom 5 0, FirstFrom 10 1]"

definition test_find_index_lt_version_multiple_elements :: "chain_step list" where
  "test_find_index_lt_version_multiple_elements =
     make_versions [(1, Some ''a''), (3, Some ''b''), (5, Some ''c''), (7, Some ''d'')] @
     [FirstFrom 0 0, FirstFrom 2 1, FirstFrom 4 2, FirstFrom 6 3, FirstFrom 3 1, FirstFrom 5 2,
      FirstFrom 10 4]"

definition test_find_index_lt_version_duplicate_versions :: "chain_step list" where
  "test_find_index_lt_version_duplicate_versions =
     make_versions [(5, Some ''a''), (5, Some ''b''), (10, Some ''c'')] @
     [FirstFrom 5 0, FirstFrom 8 1, FirstFrom 10 1, FirstFrom 12 2]"

definition test_find_index_lte_version_empty :: "chain_step list" where
  "test_find_index_lte_version_empty =
     [FirstAfter 0 0, FirstAfter 1 0, FirstAfter 100 0]"

definition test_find_index_lte_version_single_version :: "chain_step list" where
  "test_find_index_lte_version_single_version =
     make_versions [(10, Some ''value'')] @
     [FirstAfter 5 0, FirstAfter 9 0, FirstAfter 10 1, FirstAfter 11 1, FirstAfter 100 1]"

definition test_find_index_lte_version_multiple_versions :: "chain_step list" where
  "test_find_index_lte_version_multiple_versions =
     make_versions [(10, Some ''v1''), (20, Some ''v2''), (30, Some ''v3''), (40, Some ''v4''), (50, Some ''v5'')] @
     [FirstAfter 0 0, FirstAfter 5 0, FirstAfter 10 1, FirstAfter 15 1, FirstAfter 20 2, FirstAfter 25 2,
      FirstAfter 30 3, FirstAfter 35 3, FirstAfter 40 4, FirstAfter 45 4, FirstAfter 50 5, FirstAfter 51 5,
      FirstAfter 100 5]"

definition test_find_index_lte_version_with_deletes :: "chain_step list" where
  "test_find_index_lte_version_with_deletes =
     make_versions [(10, Some ''v1''), (20, None), (30, Some ''v3''), (40, None)] @
     [FirstAfter 10 1, FirstAfter 15 1, FirstAfter 20 2, FirstAfter 25 2, FirstAfter 30 3, FirstAfter 35 3,
      FirstAfter 40 4, FirstAfter 50 4]"

definition test_find_index_lt_vs_lte_difference :: "chain_step list" where
  "test_find_index_lt_vs_lte_difference =
     make_versions [(10, Some ''v1''), (20, Some ''v2''), (30, Some ''v3''), (40, Some ''v4''), (50, Some ''v5'')] @
     [FirstFrom 10 0, FirstAfter 10 1, FirstFrom 15 1, FirstAfter 15 1, FirstFrom 20 1, FirstAfter 20 2,
      FirstFrom 30 2, FirstAfter 30 3, FirstFrom 35 3, FirstAfter 35 3]"

definition test_push_to_empty_list :: "chain_step list" where
  "test_push_to_empty_list =
     [Push 10 (Some ''v1''), LenIs 1, Fetches 10 (Some ''v1'')]"

definition test_push_delete_to_empty_list :: "chain_step list" where
  "test_push_delete_to_empty_list =
     [Push 10 None, LenIs 0]"

definition test_push_in_order :: "chain_step list" where
  "test_push_in_order =
     [Push 10 (Some ''v1''), Push 20 (Some ''v2''), Push 30 (Some ''v3''), LenIs 3, Fetches 10 (Some ''v1''),
      Fetches 20 (Some ''v2''), Fetches 30 (Some ''v3'')]"

definition test_push_duplicate_values :: "chain_step list" where
  "test_push_duplicate_values =
     [Push 10 (Some ''v1''), LenIs 1, Push 20 (Some ''v1''), LenIs 1, Push 30 (Some ''v2''), LenIs 2,
      Push 40 (Some ''v2''), LenIs 2]"

definition test_push_out_of_order :: "chain_step list" where
  "test_push_out_of_order =
     [Push 30 (Some ''v3''), Push 10 (Some ''v1''), Push 20 (Some ''v2''), LenIs 3, VersionAt 0 10,
      VersionAt 1 20, VersionAt 2 30]"

definition test_push_with_deletes :: "chain_step list" where
  "test_push_with_deletes =
     [Push 10 (Some ''v1''), LenIs 1, Push 20 None, LenIs 2, ExistsIs 20 False, Push 30 (Some ''v3''),
      LenIs 3, ExistsIs 30 True]"

definition test_push_same_version_different_value :: "chain_step list" where
  "test_push_same_version_different_value =
     [Push 10 (Some ''v1''), LenIs 1, Push 10 (Some ''v2''), LenIs 1, Fetches 10 (Some ''v2'')]"

definition test_push_same_version_same_value :: "chain_step list" where
  "test_push_same_version_same_value =
     [Push 10 (Some ''v1''), LenIs 1, Push 10 (Some ''v1''), LenIs 1, Fetches 10 (Some ''v1'')]"

definition test_push_fast_path_append_different_value :: "chain_step list" where
  "test_push_fast_path_append_different_value =
     [Push 10 (Some ''v1''), Push 20 (Some ''v2''), Push 30 (Some ''v3''), LenIs 3, VersionAt 2 30,
      Fetches 30 (Some ''v3'')]"

definition test_push_fast_path_append_same_value :: "chain_step list" where
  "test_push_fast_path_append_same_value =
     [Push 10 (Some ''v1''), Push 20 (Some ''v2''), Push 30 (Some ''v2''), LenIs 2, Fetches 30 (Some ''v2'')]"

definition test_push_fast_path_update_last_different_value :: "chain_step list" where
  "test_push_fast_path_update_last_different_value =
     [Push 10 (Some ''v1''), Push 20 (Some ''v2''), Push 20 (Some ''v2_updated''), LenIs 2,
      Fetches 20 (Some ''v2_updated'')]"

definition test_push_fast_path_update_last_same_value :: "chain_step list" where
  "test_push_fast_path_update_last_same_value =
     [Push 10 (Some ''v1''), Push 20 (Some ''v2''), Push 20 (Some ''v2''), LenIs 2, Fetches 20 (Some ''v2'')]"

definition test_push_fast_path_multiple_updates_to_last :: "chain_step list" where
  "test_push_fast_path_multiple_updates_to_last =
     [Push 10 (Some ''v1''), Push 10 (Some ''v2''), Push 10 (Some ''v3''), Push 10 (Some ''v4''), LenIs 1,
      Fetches 10 (Some ''v4'')]"

definition test_push_fast_path_alternating_append_update :: "chain_step list" where
  "test_push_fast_path_alternating_append_update =
     [Push 10 (Some ''v1''), Push 20 (Some ''v2''), Push 20 (Some ''v2_updated''), Push 30 (Some ''v3''),
      Push 30 (Some ''v3_updated''), LenIs 3, Fetches 10 (Some ''v1''), Fetches 20 (Some ''v2_updated''),
      Fetches 30 (Some ''v3_updated'')]"

definition test_push_slow_path_insert_middle :: "chain_step list" where
  "test_push_slow_path_insert_middle =
     [Push 10 (Some ''v1''), Push 30 (Some ''v3''), Push 20 (Some ''v2''), LenIs 3, VersionAt 0 10,
      VersionAt 1 20, VersionAt 2 30]"

definition test_push_slow_path_insert_beginning :: "chain_step list" where
  "test_push_slow_path_insert_beginning =
     [Push 20 (Some ''v2''), Push 30 (Some ''v3''), Push 10 (Some ''v1''), LenIs 3, VersionAt 0 10,
      VersionAt 1 20, VersionAt 2 30]"

definition test_push_slow_path_update_middle :: "chain_step list" where
  "test_push_slow_path_update_middle =
     [Push 10 (Some ''v1''), Push 20 (Some ''v2''), Push 30 (Some ''v3''), Push 20 (Some ''v2_updated''),
      LenIs 3, Fetches 20 (Some ''v2_updated'')]"

definition test_push_with_delete_at_end :: "chain_step list" where
  "test_push_with_delete_at_end =
     [Push 10 (Some ''v1''), Push 20 (Some ''v2''), Push 30 None, LenIs 3, ExistsIs 30 False,
      Fetches 30 None]"

definition test_push_delete_then_value_same_version :: "chain_step list" where
  "test_push_delete_then_value_same_version =
     [Push 10 (Some ''v1''), Push 20 None, ExistsIs 20 False, Push 20 (Some ''v2''), LenIs 2,
      ExistsIs 20 True, Fetches 20 (Some ''v2'')]"

definition test_push_value_then_delete_same_version :: "chain_step list" where
  "test_push_value_then_delete_same_version =
     [Push 10 (Some ''v1''), Push 20 (Some ''v2''), Push 20 None, LenIs 2, ExistsIs 20 False,
      Fetches 20 None]"

definition test_push_consecutive_deletes :: "chain_step list" where
  "test_push_consecutive_deletes =
     [Push 10 (Some ''v1''), Push 20 None, Push 30 None, LenIs 2, VersionAt 0 10, VersionAt 1 20,
      ExistsIs 20 False, ExistsIs 30 False]"

definition test_push_stress_many_appends :: "chain_step list" where
  "test_push_stress_many_appends =
     map (\<lambda>i. Push (of_nat (i * 10)) (Some (''v'' @ show_nat i))) [0..<100] @ [LenIs 100, VersionAt 0 0, VersionAt 99 990]"

definition test_push_stress_many_updates :: "chain_step list" where
  "test_push_stress_many_updates =
     [Push 10 (Some ''v1'')] @ map (\<lambda>i. Push 10 (Some (''v'' @ show_nat i))) [0..<100] @ [LenIs 1, Fetches 10 (Some ''v99'')]"

definition test_gc_keeps_version_visible_at_floor :: "chain_step list" where
  "test_gc_keeps_version_visible_at_floor =
     make_versions [(10, Some ''v1''), (40, None)] @
     [Compact 30, Fetches 30 (Some ''v1''), Fetches 35 (Some ''v1''), Fetches 40 None]"

definition test_gc_keeps_value_before_newer_version_in_gap :: "chain_step list" where
  "test_gc_keeps_value_before_newer_version_in_gap =
     make_versions [(10, Some ''v1''), (50, Some ''v2'')] @
     [Compact 30, Fetches 30 (Some ''v1''), Fetches 49 (Some ''v1''), Fetches 50 (Some ''v2'')]"

definition test_gc_drops_versions_below_visible :: "chain_step list" where
  "test_gc_drops_versions_below_visible =
     make_versions [(10, Some ''v1''), (30, Some ''v2'')] @
     [Fetches 10 (Some ''v1''), CompactTo 30 1, Fetches 10 None, Fetches 30 (Some ''v2''),
      Fetches 35 (Some ''v2'')]"

definition test_gc_collapses_fully_deleted_key :: "chain_step list" where
  "test_gc_collapses_fully_deleted_key =
     make_versions [(10, Some ''v1''), (30, None)] @
     [CompactTo 40 0, Fetches 10 None, Fetches 40 None]"

definition test_gc_retains_all_when_floor_below_everything :: "chain_step list" where
  "test_gc_retains_all_when_floor_below_everything =
     make_versions [(10, Some ''v1''), (20, Some ''v2'')] @
     [CompactTo 5 2, Fetches 10 (Some ''v1''), Fetches 20 (Some ''v2'')]"

definition version_tests :: "chain_step list list" where
  "version_tests =
     [test_find_index_lt_version_empty, test_find_index_lt_version_single_element,
      test_find_index_lt_version_multiple_elements, test_find_index_lt_version_duplicate_versions,
      test_find_index_lte_version_empty, test_find_index_lte_version_single_version,
      test_find_index_lte_version_multiple_versions, test_find_index_lte_version_with_deletes,
      test_find_index_lt_vs_lte_difference, test_push_to_empty_list, test_push_delete_to_empty_list,
      test_push_in_order, test_push_duplicate_values, test_push_out_of_order, test_push_with_deletes,
      test_push_same_version_different_value, test_push_same_version_same_value,
      test_push_fast_path_append_different_value, test_push_fast_path_append_same_value,
      test_push_fast_path_update_last_different_value, test_push_fast_path_update_last_same_value,
      test_push_fast_path_multiple_updates_to_last, test_push_fast_path_alternating_append_update,
      test_push_slow_path_insert_middle, test_push_slow_path_insert_beginning,
      test_push_slow_path_update_middle, test_push_with_delete_at_end,
      test_push_delete_then_value_same_version, test_push_value_then_delete_same_version,
      test_push_consecutive_deletes, test_push_stress_many_appends, test_push_stress_many_updates,
      test_gc_keeps_version_visible_at_floor, test_gc_keeps_value_before_newer_version_in_gap,
      test_gc_drops_versions_below_visible, test_gc_collapses_fully_deleted_key,
      test_gc_retains_all_when_floor_below_everything]"

section \<open>They pass\<close>

lemmas chain_eval = make_versions_def Versions_new_def make_version_def push_def push_slow_def fetch_index_or_update_def
  insert_at_def find_index_lt_version_def find_index_lte_version_def rposition_def partition_point_def bisect.simps
  fetch_version_def exists_version_def gc_older_versions_def drain_to_def Let_def

lemma test_find_index_lt_version_empty_green: "chain_green test_find_index_lt_version_empty"
  by (simp add: test_find_index_lt_version_empty_def chain_eval)

lemma test_find_index_lt_version_single_element_green: "chain_green test_find_index_lt_version_single_element"
  by (simp add: test_find_index_lt_version_single_element_def chain_eval)

lemma test_find_index_lt_version_multiple_elements_green: "chain_green test_find_index_lt_version_multiple_elements"
  by (simp add: test_find_index_lt_version_multiple_elements_def chain_eval)

lemma test_find_index_lt_version_duplicate_versions_green: "chain_green test_find_index_lt_version_duplicate_versions"
  by (simp add: test_find_index_lt_version_duplicate_versions_def chain_eval)

lemma test_find_index_lte_version_empty_green: "chain_green test_find_index_lte_version_empty"
  by (simp add: test_find_index_lte_version_empty_def chain_eval)

lemma test_find_index_lte_version_single_version_green: "chain_green test_find_index_lte_version_single_version"
  by (simp add: test_find_index_lte_version_single_version_def chain_eval)

lemma test_find_index_lte_version_multiple_versions_green: "chain_green test_find_index_lte_version_multiple_versions"
  by (simp add: test_find_index_lte_version_multiple_versions_def chain_eval)

lemma test_find_index_lte_version_with_deletes_green: "chain_green test_find_index_lte_version_with_deletes"
  by (simp add: test_find_index_lte_version_with_deletes_def chain_eval)

lemma test_find_index_lt_vs_lte_difference_green: "chain_green test_find_index_lt_vs_lte_difference"
  by (simp add: test_find_index_lt_vs_lte_difference_def chain_eval)

lemma test_push_to_empty_list_green: "chain_green test_push_to_empty_list"
  by (simp add: test_push_to_empty_list_def chain_eval)

lemma test_push_delete_to_empty_list_green: "chain_green test_push_delete_to_empty_list"
  by (simp add: test_push_delete_to_empty_list_def chain_eval)

lemma test_push_in_order_green: "chain_green test_push_in_order"
  by (simp add: test_push_in_order_def chain_eval)

lemma test_push_duplicate_values_green: "chain_green test_push_duplicate_values"
  by (simp add: test_push_duplicate_values_def chain_eval)

lemma test_push_out_of_order_green: "chain_green test_push_out_of_order"
  by (simp add: test_push_out_of_order_def chain_eval)

lemma test_push_with_deletes_green: "chain_green test_push_with_deletes"
  by (simp add: test_push_with_deletes_def chain_eval)

lemma test_push_same_version_different_value_green: "chain_green test_push_same_version_different_value"
  by (simp add: test_push_same_version_different_value_def chain_eval)

lemma test_push_same_version_same_value_green: "chain_green test_push_same_version_same_value"
  by (simp add: test_push_same_version_same_value_def chain_eval)

lemma test_push_fast_path_append_different_value_green: "chain_green test_push_fast_path_append_different_value"
  by (simp add: test_push_fast_path_append_different_value_def chain_eval)

lemma test_push_fast_path_append_same_value_green: "chain_green test_push_fast_path_append_same_value"
  by (simp add: test_push_fast_path_append_same_value_def chain_eval)

lemma test_push_fast_path_update_last_different_value_green: "chain_green test_push_fast_path_update_last_different_value"
  by (simp add: test_push_fast_path_update_last_different_value_def chain_eval)

lemma test_push_fast_path_update_last_same_value_green: "chain_green test_push_fast_path_update_last_same_value"
  by (simp add: test_push_fast_path_update_last_same_value_def chain_eval)

lemma test_push_fast_path_multiple_updates_to_last_green: "chain_green test_push_fast_path_multiple_updates_to_last"
  by (simp add: test_push_fast_path_multiple_updates_to_last_def chain_eval)

lemma test_push_fast_path_alternating_append_update_green: "chain_green test_push_fast_path_alternating_append_update"
  by (simp add: test_push_fast_path_alternating_append_update_def chain_eval)

lemma test_push_slow_path_insert_middle_green: "chain_green test_push_slow_path_insert_middle"
  by (simp add: test_push_slow_path_insert_middle_def chain_eval)

lemma test_push_slow_path_insert_beginning_green: "chain_green test_push_slow_path_insert_beginning"
  by (simp add: test_push_slow_path_insert_beginning_def chain_eval)

lemma test_push_slow_path_update_middle_green: "chain_green test_push_slow_path_update_middle"
  by (simp add: test_push_slow_path_update_middle_def chain_eval)

lemma test_push_with_delete_at_end_green: "chain_green test_push_with_delete_at_end"
  by (simp add: test_push_with_delete_at_end_def chain_eval)

lemma test_push_delete_then_value_same_version_green: "chain_green test_push_delete_then_value_same_version"
  by (simp add: test_push_delete_then_value_same_version_def chain_eval)

lemma test_push_value_then_delete_same_version_green: "chain_green test_push_value_then_delete_same_version"
  by (simp add: test_push_value_then_delete_same_version_def chain_eval)

lemma test_push_consecutive_deletes_green: "chain_green test_push_consecutive_deletes"
  by (simp add: test_push_consecutive_deletes_def chain_eval)

lemma test_gc_keeps_version_visible_at_floor_green: "chain_green test_gc_keeps_version_visible_at_floor"
  by (simp add: test_gc_keeps_version_visible_at_floor_def chain_eval)

lemma test_gc_keeps_value_before_newer_version_in_gap_green: "chain_green test_gc_keeps_value_before_newer_version_in_gap"
  by (simp add: test_gc_keeps_value_before_newer_version_in_gap_def chain_eval)

lemma test_gc_drops_versions_below_visible_green: "chain_green test_gc_drops_versions_below_visible"
  by (simp add: test_gc_drops_versions_below_visible_def chain_eval)

lemma test_gc_collapses_fully_deleted_key_green: "chain_green test_gc_collapses_fully_deleted_key"
  by (simp add: test_gc_collapses_fully_deleted_key_def chain_eval)

lemma test_gc_retains_all_when_floor_below_everything_green: "chain_green test_gc_retains_all_when_floor_below_everything"
  by (simp add: test_gc_retains_all_when_floor_below_everything_def chain_eval)

text \<open>The two stress tests, by induction on their loops.\<close>

lemma updates_of_one:
  "chain_test (map (\<lambda>i. Push ver (f i)) ns @ t) [make_version ver v]
    \<longleftrightarrow> chain_test t [make_version ver (if ns = [] then v else f (last ns))]"
proof (induction ns arbitrary: v)
  case (Cons i ns)
  have "push [make_version ver v] (make_version ver (f i)) = [make_version ver (f i)]"
    by (simp add: push_def make_version_def Let_def)
  with Cons show ?case by simp
qed simp

lemma test_push_stress_many_updates_green: "chain_green test_push_stress_many_updates"
proof -
  have "push [] (make_version 10 (Some ''v1'')) = [make_version 10 (Some ''v1'')]" by (simp add: push_def make_version_def)
  then show ?thesis
    by (simp add: test_push_stress_many_updates_def Versions_new_def updates_of_one del: upt_rec_numeral)
      (simp add: make_version_def fetch_version_def find_index_lte_version_def show_nat_digits)
qed

definition stress_version :: "nat \<Rightarrow> Version" where
  "stress_version i = make_version (of_nat (i * 10)) (Some (''v'' @ show_nat i))"

lemma push_stress_version:
  assumes "n \<le> 100"
  shows "push (map stress_version [0..<n]) (stress_version n) = map stress_version [0..<Suc n]"
proof (cases n)
  case (Suc m)
  have "(of_nat (m * 10) :: u64) < of_nat (n * 10)"
    using assms by (subst word_of_nat_less_iff) (simp add: Suc take_bit_nat_eq_self)
  then show ?thesis by (simp add: Suc push_def stress_version_def make_version_def)
qed (simp add: push_def stress_version_def make_version_def)

lemma appends_in_order:
  "m \<le> n \<Longrightarrow> n \<le> 100 \<Longrightarrow>
    chain_test (map (\<lambda>i. Push (of_nat (i * 10)) (Some (''v'' @ show_nat i))) [m..<n] @ t) (map stress_version [0..<m])
    \<longleftrightarrow> chain_test t (map stress_version [0..<n])"
proof (induction "n - m" arbitrary: m)
  case (Suc d)
  then have m: "m < n" by simp
  have "push (map stress_version [0..<m]) (make_version (of_nat (m * 10)) (Some (''v'' @ show_nat m)))
      = map stress_version [0..<Suc m]"
    using push_stress_version [of m] Suc m by (simp add: stress_version_def)
  with Suc(1) [of "Suc m"] Suc(2-) m show ?case by (simp add: upt_conv_Cons [OF m])
qed simp

lemma test_push_stress_many_appends_green: "chain_green test_push_stress_many_appends"
  using appends_in_order [of 0 100]
  by (simp add: test_push_stress_many_appends_def Versions_new_def stress_version_def make_version_def del: upt_rec_numeral)

lemma version_tests_green: "list_all chain_green version_tests"
  by (simp add: version_tests_def test_find_index_lt_version_empty_green
    test_find_index_lt_version_single_element_green
    test_find_index_lt_version_multiple_elements_green
    test_find_index_lt_version_duplicate_versions_green test_find_index_lte_version_empty_green
    test_find_index_lte_version_single_version_green
    test_find_index_lte_version_multiple_versions_green
    test_find_index_lte_version_with_deletes_green test_find_index_lt_vs_lte_difference_green
    test_push_to_empty_list_green test_push_delete_to_empty_list_green test_push_in_order_green
    test_push_duplicate_values_green test_push_out_of_order_green test_push_with_deletes_green
    test_push_same_version_different_value_green test_push_same_version_same_value_green
    test_push_fast_path_append_different_value_green test_push_fast_path_append_same_value_green
    test_push_fast_path_update_last_different_value_green
    test_push_fast_path_update_last_same_value_green
    test_push_fast_path_multiple_updates_to_last_green
    test_push_fast_path_alternating_append_update_green test_push_slow_path_insert_middle_green
    test_push_slow_path_insert_beginning_green test_push_slow_path_update_middle_green
    test_push_with_delete_at_end_green test_push_delete_then_value_same_version_green
    test_push_value_then_delete_same_version_green test_push_consecutive_deletes_green
    test_push_stress_many_appends_green test_push_stress_many_updates_green
    test_gc_keeps_version_visible_at_floor_green
    test_gc_keeps_value_before_newer_version_in_gap_green test_gc_drops_versions_below_visible_green
    test_gc_collapses_fully_deleted_key_green test_gc_retains_all_when_floor_below_everything_green)

section \<open>Tests of the Bloom filter\<close>

definition empty_filter_contains_nothing :: bool where
  "empty_filter_contains_nothing \<longleftrightarrow>
     (let bf = BloomFilter_new
      in bloom_is_empty bf \<and> \<not> may_contain bf (str_bytes ''hello'') \<and> \<not> may_contain bf (str_bytes ''world''))"

definition inserted_keys_are_found :: bool where
  "inserted_keys_are_found \<longleftrightarrow>
     (let bf = bloom_insert (bloom_insert BloomFilter_new (str_bytes ''hello'')) (str_bytes ''world'')
      in \<not> bloom_is_empty bf \<and> may_contain bf (str_bytes ''hello'') \<and> may_contain bf (str_bytes ''world''))"

definition clear_resets_filter :: bool where
  "clear_resets_filter \<longleftrightarrow>
     (let bf = bloom_insert BloomFilter_new (str_bytes ''hello''); bf' = bloom_clear bf
      in may_contain bf (str_bytes ''hello'') \<and> bloom_is_empty bf' \<and> \<not> may_contain bf' (str_bytes ''hello''))"

lemma may_contain_new: "\<not> may_contain BloomFilter_new key"
  by (simp add: may_contain_zero BloomFilter_new_def)

lemma bloom_tests_green: "empty_filter_contains_nothing \<and> inserted_keys_are_found \<and> clear_resets_filter"
  by (simp add: empty_filter_contains_nothing_def inserted_keys_are_found_def clear_resets_filter_def may_contain_new
    bloom_is_empty_new bloom_is_empty_insert bloom_clear_new may_contain_insert_same may_contain_insert_mono
    bloom_wf_new bloom_wf_insert)

end
