(* ===== verification/Server_Tests.thy ===== *)
theory Server_Tests
  imports Server Client_Programs
begin

text \<open>
  Sessions of the server: requests one after another on one database, with the background threads taking
  steps in between, refine sessions of a map.  The tests of \<open>server/src/main.rs\<close> are such sessions.
\<close>

section \<open>Sessions\<close>

type_synonym http_request = "http_method \<times> string \<times> Request"

inductive session :: "(bytes \<Rightarrow> bytes) \<Rightarrow> System \<Rightarrow> http_request list \<Rightarrow> ApiResult list \<Rightarrow> System \<Rightarrow> bool"
  for lossy where
  session_end: "session lossy s [] [] s"
| session_request: "session lossy s ((m, path, req) # reqs) (r # rs) s'"
    if "serving s" "make_app lossy w (sys_db s) m path req = Some (Some (r, db'))" "session lossy (s\<lparr>sys_db := db'\<rparr>) reqs rs s'"
| session_background: "session lossy s reqs rs s'" if "step s Internal s1" "session lossy s1 reqs rs s'"

fun map_session :: "(bytes \<Rightarrow> bytes) \<Rightarrow> http_request list \<Rightarrow> (bytes \<Rightarrow> bytes option) \<Rightarrow>
    (ApiResult list \<times> (bytes \<Rightarrow> bytes option)) option" where
  "map_session lossy [] c = Some ([], c)"
| "map_session lossy ((m, path, req) # reqs) c =
     (case map_server lossy m path req c of
        None \<Rightarrow> None
      | Some (r, c') \<Rightarrow> (case map_session lossy reqs c' of None \<Rightarrow> None | Some (rs, c'') \<Rightarrow> Some (r # rs, c'')))"

lemma internal_contents:
  assumes "step s Internal s1" and "reachable s"
  shows "reachable s1 \<and> contents s1 = contents s"
proof -
  from si.sim_step [OF reachable_inv [OF assms(2)] assms(1)] have "abs_sys s1 = abs_sys s" by (auto simp: si_step_simps)
  with reachable_step [OF assms(2,1)] show ?thesis by simp
qed

lemma request_answer:
  assumes "serving s" and "make_app lossy w (sys_db s) m path req = Some (Some (r, db'))"
  shows "map_server lossy m path req (contents s) = Some (r, contents (s\<lparr>sys_db := db'\<rparr>)) \<and> reachable (s\<lparr>sys_db := db'\<rparr>)"
  using make_app_serves [OF assms(1), where lossy = lossy and m = m and path = path and req = req and w = w] assms(2) by (auto split: option.splits)

lemma session_answers:
  "session lossy s reqs rs s' \<Longrightarrow> reachable s \<Longrightarrow>
    reachable s' \<and> map_session lossy reqs (contents s) = Some (rs, contents s')"
proof (induction rule: session.induct)
  case (session_request s w m path req r db' reqs rs s')
  from request_answer [OF session_request(1,2)] session_request.IH show ?case by simp
next
  case (session_background s s1 reqs rs s')
  from internal_contents [OF session_background(1,4)] session_background.IH show ?case by simp
qed simp

lemma session_append:
  "session lossy s reqs rs s1 \<Longrightarrow> session lossy s1 reqs' rs' s' \<Longrightarrow> session lossy s (reqs @ reqs') (rs @ rs') s'"
  by (induction rule: session.induct) (auto intro: session.intros)

lemma session_continues:
  fixes w :: world
  assumes "session lossy s reqs rs s1" and "serving s1" and "map_server lossy m path req (contents s1) \<noteq> None"
  shows "\<exists>r s'. session lossy s (reqs @ [(m, path, req)]) (rs @ [r]) s'"
proof -
  obtain r c where "map_server lossy m path req (contents s1) = Some (r, c)" using assms(3) by auto
  with make_app_serves [OF assms(2), where lossy = lossy and m = m and path = path and req = req and w = w] obtain db' where
    "make_app lossy w (sys_db s1) m path req = Some (Some (r, db'))" by fastforce
  from session_request [OF assms(2) this session_end] session_append [OF assms(1)] show ?thesis by blast
qed

section \<open>Tests\<close>

datatype reply_check = StatusOk | StatusConflict | ErrorSays string | KeyIs string | ValueIs "string option" | ExistsFlag bool

definition contains :: "string \<Rightarrow> string \<Rightarrow> bool" where
  "contains s needle \<longleftrightarrow> list_ex (\<lambda>i. take (length needle) (drop i s) = needle) [0..<Suc (length s)]"

fun reply_ok :: "ApiResult \<Rightarrow> reply_check \<Rightarrow> bool" where
  "reply_ok (Inr r) StatusOk \<longleftrightarrow> True"
| "reply_ok (Inl (status, msg)) StatusConflict \<longleftrightarrow> status = CONFLICT"
| "reply_ok (Inl (status, msg)) (ErrorSays needle) \<longleftrightarrow> contains msg needle"
| "reply_ok (Inr (GetResponse key v)) (KeyIs k) \<longleftrightarrow> key = str_bytes k"
| "reply_ok (Inr (ExistsResponse key b)) (KeyIs k) \<longleftrightarrow> key = str_bytes k"
| "reply_ok (Inr (WriteResponse key v)) (KeyIs k) \<longleftrightarrow> key = str_bytes k"
| "reply_ok (Inr (GetResponse key v)) (ValueIs x) \<longleftrightarrow> v = map_option str_bytes x"
| "reply_ok (Inr (WriteResponse key v)) (ValueIs x) \<longleftrightarrow> x \<noteq> None \<and> v = str_bytes (the x)"
| "reply_ok (Inr (ExistsResponse key b)) (ExistsFlag c) \<longleftrightarrow> b = c"
| "reply_ok _ _ \<longleftrightarrow> False"

type_synonym server_test = "(http_request \<times> reply_check list) list"

abbreviation get_req :: "string \<Rightarrow> http_request" where "get_req k \<equiv> (GET, ''/get'', KeyQuery (str_bytes k))"
abbreviation exists_req :: "string \<Rightarrow> http_request" where "exists_req k \<equiv> (GET, ''/exists'', KeyQuery (str_bytes k))"
abbreviation delete_req :: "string \<Rightarrow> http_request" where "delete_req k \<equiv> (DELETE, ''/delete'', KeyQuery (str_bytes k))"
abbreviation insert_req :: "string \<Rightarrow> string \<Rightarrow> http_request" where
  "insert_req k v \<equiv> (POST, ''/insert'', WriteRequest (str_bytes k) (str_bytes v))"
abbreviation update_req :: "string \<Rightarrow> string \<Rightarrow> http_request" where
  "update_req k v \<equiv> (POST, ''/update'', WriteRequest (str_bytes k) (str_bytes v))"

text \<open>A test passes when every session of its requests on a fresh database satisfies its assertions.\<close>

definition server_passes :: "(bytes \<Rightarrow> bytes) \<Rightarrow> Database \<Rightarrow> server_test \<Rightarrow> bool" where
  "server_passes lossy db t \<longleftrightarrow>
     (\<forall>rs s'. session lossy \<lparr>sys_db = db, live = []\<rparr> (map fst t) rs s' \<longrightarrow>
        list_all2 (\<lambda>r cs. list_all (reply_ok r) cs) rs (map snd t))"

definition server_green :: "(bytes \<Rightarrow> bytes) \<Rightarrow> server_test \<Rightarrow> bool" where
  "server_green lossy t \<longleftrightarrow>
     (case map_session lossy (map fst t) Map.empty of
        None \<Rightarrow> False
      | Some (rs, c) \<Rightarrow> list_all2 (\<lambda>r cs. list_all (reply_ok r) cs) rs (map snd t))"

text \<open>\<open>String::from_utf8_lossy\<close> leaves UTF-8 text as it is.\<close>

definition lossy_law :: "(bytes \<Rightarrow> bytes) \<Rightarrow> bool" where
  "lossy_law lossy \<longleftrightarrow> (\<forall>cs. (\<forall>c\<in>set cs. scalar c) \<longrightarrow> lossy (as_bytes cs) = as_bytes cs)"

lemma lossy_str [simp]: "lossy_law lossy \<Longrightarrow> lossy (str_bytes s) = str_bytes s"
  by (simp add: lossy_law_def str_bytes_def copy_from_slice_def literal_scalar)

lemma server_green_passes:
  assumes "new_with_options opts unix clk = Some db" and "server_green lossy t"
  shows "server_passes lossy db t"
proof -
  have "contents \<lparr>sys_db = db, live = []\<rparr> = Map.empty" by (simp add: new_abs [OF assms(1)] SI_new_def)
  then show ?thesis
    using session_answers [OF _ reachable_new [OF assms(1)], of lossy "map fst t"] assms(2)
    by (auto simp: server_passes_def server_green_def)
qed

section \<open>\<open>server/src/main.rs\<close>\<close>

definition test_insert_key_successfully :: server_test where
  "test_insert_key_successfully =
     [(insert_req ''hello'' ''world'', [StatusOk, KeyIs ''hello'', ValueIs (Some ''world'')])]"

definition test_insert_duplicate_key_returns_conflict :: server_test where
  "test_insert_duplicate_key_returns_conflict =
     [(insert_req ''dup'' ''first'', [StatusOk]),
      (insert_req ''dup'' ''second'', [StatusConflict, ErrorSays ''Key already exists''])]"

definition test_update_non_existing_key :: server_test where
  "test_update_non_existing_key =
     [(update_req ''newkey'' ''newvalue'', [StatusOk, KeyIs ''newkey'', ValueIs (Some ''newvalue'')]),
      (get_req ''newkey'', [StatusOk, ValueIs (Some ''newvalue'')])]"

definition test_update_existing_key :: server_test where
  "test_update_existing_key =
     [(insert_req ''update'' ''v1'', []),
      (update_req ''update'' ''v2'', [StatusOk, ValueIs (Some ''v2'')]),
      (get_req ''update'', [StatusOk, ValueIs (Some ''v2'')])]"

definition test_get_existing_key :: server_test where
  "test_get_existing_key =
     [(insert_req ''existing'' ''data'', []),
      (get_req ''existing'', [StatusOk, KeyIs ''existing'', ValueIs (Some ''data'')])]"

definition test_get_non_existing_key_returns_null :: server_test where
  "test_get_non_existing_key_returns_null =
     [(get_req ''nonexistent'', [StatusOk, KeyIs ''nonexistent'', ValueIs None])]"

definition test_exists_true_for_existing_key :: server_test where
  "test_exists_true_for_existing_key =
     [(insert_req ''exists_key'' ''check'', []),
      (exists_req ''exists_key'', [StatusOk, KeyIs ''exists_key'', ExistsFlag True])]"

definition test_exists_false_for_non_existing_key :: server_test where
  "test_exists_false_for_non_existing_key =
     [(exists_req ''no_key'', [StatusOk, KeyIs ''no_key'', ExistsFlag False])]"

definition test_delete_existing_key :: server_test where
  "test_delete_existing_key =
     [(insert_req ''del_key'' ''remove_me'', []),
      (delete_req ''del_key'', [StatusOk, KeyIs ''del_key'', ValueIs (Some ''remove_me'')]),
      (get_req ''del_key'', [StatusOk, ValueIs None])]"

definition test_delete_non_existing_key :: server_test where
  "test_delete_non_existing_key =
     [(delete_req ''no_such_key'', [StatusOk, KeyIs ''no_such_key'', ValueIs None])]"

definition test_full_crud_flow :: server_test where
  "test_full_crud_flow =
     [(insert_req ''flow'' ''initial'', [StatusOk]),
      (get_req ''flow'', [StatusOk, ValueIs (Some ''initial'')]),
      (update_req ''flow'' ''updated'', [StatusOk]),
      (get_req ''flow'', [StatusOk, ValueIs (Some ''updated'')]),
      (exists_req ''flow'', [StatusOk, ExistsFlag True]),
      (delete_req ''flow'', [StatusOk]),
      (exists_req ''flow'', [StatusOk, ExistsFlag False]),
      (get_req ''flow'', [StatusOk, ValueIs None])]"

definition test_mixed_keys_isolation :: server_test where
  "test_mixed_keys_isolation =
     map (\<lambda>key. (insert_req key (''val_'' @ key), [StatusOk])) [''alpha'', ''beta'', ''gamma''] @
     map (\<lambda>key. (get_req key, [StatusOk, ValueIs (Some (''val_'' @ key))])) [''alpha'', ''beta'', ''gamma''] @
     [(update_req ''beta'' ''val_beta_updated'', [StatusOk]),
      (get_req ''alpha'', [StatusOk, ValueIs (Some ''val_alpha'')]),
      (get_req ''beta'', [StatusOk, ValueIs (Some ''val_beta_updated'')])]"

definition server_tests :: "server_test list" where
  "server_tests =
     [test_insert_key_successfully, test_insert_duplicate_key_returns_conflict,
      test_update_non_existing_key, test_update_existing_key, test_get_existing_key,
      test_get_non_existing_key_returns_null, test_exists_true_for_existing_key,
      test_exists_false_for_non_existing_key, test_delete_existing_key,
      test_delete_non_existing_key, test_full_crud_flow, test_mixed_keys_isolation]"

section \<open>They pass\<close>

lemma already_exists_message: "contains (error_message KeyAlreadyExists) ''Key already exists''"
  by code_simp

lemma test_insert_key_successfully_green: "lossy_law lossy \<Longrightarrow> server_green lossy test_insert_key_successfully"
  by (simp add: test_insert_key_successfully_def server_green_def already_exists_message [simplified])

lemma test_insert_duplicate_key_returns_conflict_green: "lossy_law lossy \<Longrightarrow> server_green lossy test_insert_duplicate_key_returns_conflict"
  by (simp add: test_insert_duplicate_key_returns_conflict_def server_green_def already_exists_message [simplified])

lemma test_update_non_existing_key_green: "lossy_law lossy \<Longrightarrow> server_green lossy test_update_non_existing_key"
  by (simp add: test_update_non_existing_key_def server_green_def already_exists_message [simplified])

lemma test_update_existing_key_green: "lossy_law lossy \<Longrightarrow> server_green lossy test_update_existing_key"
  by (simp add: test_update_existing_key_def server_green_def already_exists_message [simplified])

lemma test_get_existing_key_green: "lossy_law lossy \<Longrightarrow> server_green lossy test_get_existing_key"
  by (simp add: test_get_existing_key_def server_green_def already_exists_message [simplified])

lemma test_get_non_existing_key_returns_null_green: "lossy_law lossy \<Longrightarrow> server_green lossy test_get_non_existing_key_returns_null"
  by (simp add: test_get_non_existing_key_returns_null_def server_green_def already_exists_message [simplified])

lemma test_exists_true_for_existing_key_green: "lossy_law lossy \<Longrightarrow> server_green lossy test_exists_true_for_existing_key"
  by (simp add: test_exists_true_for_existing_key_def server_green_def already_exists_message [simplified])

lemma test_exists_false_for_non_existing_key_green: "lossy_law lossy \<Longrightarrow> server_green lossy test_exists_false_for_non_existing_key"
  by (simp add: test_exists_false_for_non_existing_key_def server_green_def already_exists_message [simplified])

lemma test_delete_existing_key_green: "lossy_law lossy \<Longrightarrow> server_green lossy test_delete_existing_key"
  by (simp add: test_delete_existing_key_def server_green_def already_exists_message [simplified])

lemma test_delete_non_existing_key_green: "lossy_law lossy \<Longrightarrow> server_green lossy test_delete_non_existing_key"
  by (simp add: test_delete_non_existing_key_def server_green_def already_exists_message [simplified])

lemma test_full_crud_flow_green: "lossy_law lossy \<Longrightarrow> server_green lossy test_full_crud_flow"
  by (simp add: test_full_crud_flow_def server_green_def already_exists_message [simplified])

lemma test_mixed_keys_isolation_green: "lossy_law lossy \<Longrightarrow> server_green lossy test_mixed_keys_isolation"
  by (simp add: test_mixed_keys_isolation_def server_green_def already_exists_message [simplified])

lemma server_tests_green: "lossy_law lossy \<Longrightarrow> list_all (server_green lossy) server_tests"
  by (simp add: server_tests_def test_insert_key_successfully_green test_insert_duplicate_key_returns_conflict_green
    test_update_non_existing_key_green test_update_existing_key_green test_get_existing_key_green
    test_get_non_existing_key_returns_null_green test_exists_true_for_existing_key_green
    test_exists_false_for_non_existing_key_green test_delete_existing_key_green
    test_delete_non_existing_key_green test_full_crud_flow_green test_mixed_keys_isolation_green)

end
