(* ===== verification/Python_Interface.thy ===== *)
theory Python_Interface
  imports System
begin

text \<open>
  The Python interface (\<open>stupid-kv-py/src/lib.rs\<close>): the exceptions, the transaction object with its
  context manager, and the option objects.  A transaction object wraps an optional engine
  transaction; a method that mutates its object returns the new object.
\<close>

section \<open>Exceptions\<close>

datatype py_exception =
    PyKeyWriteConflict
  | PyKeyReadConflict
  | PyKeyAlreadyExists
  | PyTxClosed
  | PyTxNotWritable
  | PyOSError

type_synonym PyErr = "py_exception \<times> string"

text \<open>The classes an \<open>except\<close> clause can name; every exception of the module derives from \<open>StupidKvError\<close>.\<close>

datatype py_class = PyException | StupidKvError | OSError | PyClass py_exception

fun py_base :: "py_class \<Rightarrow> py_class option" where
  "py_base PyException = None"
| "py_base StupidKvError = Some PyException"
| "py_base OSError = Some PyException"
| "py_base (PyClass PyOSError) = Some OSError"
| "py_base (PyClass _) = Some StupidKvError"

definition py_catches :: "py_class \<Rightarrow> py_exception \<Rightarrow> bool" where
  "py_catches c x =
     (c = PyClass x \<or> py_base (PyClass x) = Some c \<or> c = PyException)"

fun tx_err_to_py :: "Error \<Rightarrow> PyErr" where
  "tx_err_to_py KeyWriteConflict = (PyKeyWriteConflict, ''write-write conflict detected'')"
| "tx_err_to_py KeyReadConflict =
     (PyKeyReadConflict, ''read-write conflict detected (Serializable Snapshot Isolation)'')"
| "tx_err_to_py KeyAlreadyExists = (PyKeyAlreadyExists, ''key already exists'')"
| "tx_err_to_py TxClosed = (PyTxClosed, ''transaction is closed'')"
| "tx_err_to_py TxNotWritable = (PyTxNotWritable, ''transaction is read-only'')"
| "tx_err_to_py (TxCommitNotPersisted p) = (PyOSError, persistence_error_message p)"

section \<open>Databases\<close>

type_synonym PyTransaction = "TransactionInner option"

text \<open>A panic of the engine (the clock before the epoch) or a call that does not return is \<open>None\<close>.\<close>

definition PyDatabase_new :: "nat option \<Rightarrow> nat \<Rightarrow> Database option" where
  "PyDatabase_new unix now = new_with_options DatabaseOptions_default unix now"

definition PyDatabase_with_options :: "DatabaseOptions \<Rightarrow> nat option \<Rightarrow> nat \<Rightarrow> Database option" where
  "PyDatabase_with_options opts unix now = new_with_options opts unix now"

definition PyDatabase_with_persistence :: "world \<Rightarrow> DatabaseOptions \<Rightarrow> PersistenceOptions \<Rightarrow> (string \<Rightarrow> bytes option) \<Rightarrow>
    nat option \<Rightarrow> nat \<Rightarrow> (PyErr + Database) option" where
  "PyDatabase_with_persistence w opts persist disk unix now =
     map_option (map_sum (\<lambda>e. (PyOSError, persistence_error_message e)) id)
       (new_with_persistence (w_codec w) (w_io w) opts persist disk unix now)"

definition PyDatabase_transaction :: "Database \<Rightarrow> bool \<Rightarrow> (PyTransaction \<times> Database) option" where
  "PyDatabase_transaction db write = map_option (apfst Some) (transaction db write)"

definition PyDatabase_repr :: "Database \<Rightarrow> string" where
  "PyDatabase_repr self = ''<stupid_kv.Database>''"

definition PyDatabase_enter :: "Database \<Rightarrow> Database" where
  "PyDatabase_enter slf = slf"

definition PyDatabase_exit :: "Database \<Rightarrow> bool" where
  "PyDatabase_exit self = False"

section \<open>Transactions\<close>

definition py_with_snapshot_isolation :: "PyTransaction \<Rightarrow> PyTransaction" where
  "py_with_snapshot_isolation self = map_option with_snapshot_isolation self"

definition py_with_serializable_snapshot_isolation :: "PyTransaction \<Rightarrow> PyTransaction" where
  "py_with_serializable_snapshot_isolation self = map_option with_serializable_snapshot_isolation self"

definition py_version :: "PyTransaction \<Rightarrow> u64" where
  "py_version self = (case self of Some t \<Rightarrow> tx_version t | None \<Rightarrow> 0)"

definition py_closed :: "PyTransaction \<Rightarrow> bool" where
  "py_closed self = (case self of Some t \<Rightarrow> tx_done t | None \<Rightarrow> True)"

text \<open>The shape of every method: \<open>TxClosed\<close> without a transaction, else the engine's result.\<close>

definition py_call :: "(TransactionInner \<Rightarrow> (Error + 'a) \<times> TransactionInner) \<Rightarrow> PyTransaction \<Rightarrow> (PyErr + 'a) \<times> PyTransaction" where
  "py_call f self =
     (case self of
        None \<Rightarrow> (Inl (PyTxClosed, ''transaction is closed''), None)
      | Some t \<Rightarrow> (case f t of (r, t') \<Rightarrow> (map_sum tx_err_to_py id r, Some t')))"

definition py_commit :: "world \<Rightarrow> PyTransaction \<Rightarrow> Inner \<Rightarrow> ((PyErr + unit) \<times> PyTransaction \<times> Inner) option" where
  "py_commit w self db =
     (case self of
        None \<Rightarrow> Some (Inl (PyTxClosed, ''transaction is closed''), None, db)
      | Some t \<Rightarrow> map_option (\<lambda>(r, t', db'). (map_sum tx_err_to_py id r, Some t', db')) (commit w t db))"

definition py_cancel :: "PyTransaction \<Rightarrow> (PyErr + unit) \<times> PyTransaction" where
  "py_cancel self = py_call cancel self"

definition py_exists :: "Inner \<Rightarrow> bytes \<Rightarrow> PyTransaction \<Rightarrow> (PyErr + bool) \<times> PyTransaction" where
  "py_exists db key self = py_call (exists db key) self"

definition py_get :: "Inner \<Rightarrow> bytes \<Rightarrow> PyTransaction \<Rightarrow> (PyErr + bytes option) \<times> PyTransaction" where
  "py_get db key self = py_call (get db key) self"

definition py_set :: "bytes \<Rightarrow> bytes \<Rightarrow> PyTransaction \<Rightarrow> (PyErr + unit) \<times> PyTransaction" where
  "py_set key val self = py_call (set_value key val) self"

definition py_put :: "Inner \<Rightarrow> bytes \<Rightarrow> bytes \<Rightarrow> PyTransaction \<Rightarrow> (PyErr + unit) \<times> PyTransaction" where
  "py_put db key val self = py_call (put db key val) self"

definition py_delete :: "bytes \<Rightarrow> PyTransaction \<Rightarrow> (PyErr + unit) \<times> PyTransaction" where
  "py_delete key self = py_call (del key) self"

definition py_enter :: "PyTransaction \<Rightarrow> PyTransaction" where
  "py_enter slf = slf"

text \<open>
  \<open>__exit__\<close>: the result \<open>False\<close> lets an exception of the block through; commit and roll-back errors are
  dropped.
\<close>

definition py_exit :: "world \<Rightarrow> bool \<Rightarrow> PyTransaction \<Rightarrow> Inner \<Rightarrow> (bool \<times> PyTransaction \<times> Inner) option" where
  "py_exit w exc_is_none self db =
     (if py_closed self then Some (False, self, db)
      else
        (case self of
           None \<Rightarrow> None
         | Some t \<Rightarrow>
             if exc_is_none
             then map_option (\<lambda>(r, t', db'). (False, Some t', db')) (commit w t db)
             else Some (False, Some (snd (cancel t)), db)))"

definition show_bool :: "bool \<Rightarrow> string" where
  "show_bool b = (if b then ''true'' else ''false'')"

definition py_repr :: "PyTransaction \<Rightarrow> string" where
  "py_repr self =
     ''<stupid_kv.Transaction version='' @ show_nat (unat (py_version self)) @ '' closed='' @ show_bool (py_closed self) @ ''>''"

section \<open>Options\<close>

definition PyDatabaseOptions_new :: DatabaseOptions where
  "PyDatabaseOptions_new = DatabaseOptions_default"

definition PyDatabaseOptions_with_gc_interval :: "DatabaseOptions \<Rightarrow> nat \<Rightarrow> DatabaseOptions" where
  "PyDatabaseOptions_with_gc_interval self ms = with_gc_interval self (from_millis ms)"

definition PyDatabaseOptions_with_cleanup_interval :: "DatabaseOptions \<Rightarrow> nat \<Rightarrow> DatabaseOptions" where
  "PyDatabaseOptions_with_cleanup_interval self ms = with_cleanup_interval self (from_millis ms)"

text \<open>The properties: a getter and a setter for each of five fields.\<close>

definition py_pool_size :: "DatabaseOptions \<Rightarrow> nat" where
  "py_pool_size self = opt_pool_size self"

definition py_set_pool_size :: "DatabaseOptions \<Rightarrow> nat \<Rightarrow> DatabaseOptions" where
  "py_set_pool_size self v = self\<lparr>opt_pool_size := v\<rparr>"

definition py_enable_cleanup :: "DatabaseOptions \<Rightarrow> bool" where
  "py_enable_cleanup self = opt_enable_cleanup self"

definition py_set_enable_cleanup :: "DatabaseOptions \<Rightarrow> bool \<Rightarrow> DatabaseOptions" where
  "py_set_enable_cleanup self v = self\<lparr>opt_enable_cleanup := v\<rparr>"

definition py_enable_gc :: "DatabaseOptions \<Rightarrow> bool" where
  "py_enable_gc self = opt_enable_gc self"

definition py_set_enable_gc :: "DatabaseOptions \<Rightarrow> bool \<Rightarrow> DatabaseOptions" where
  "py_set_enable_gc self v = self\<lparr>opt_enable_gc := v\<rparr>"

definition py_gc_full_scan_frequency :: "DatabaseOptions \<Rightarrow> u64" where
  "py_gc_full_scan_frequency self = opt_gc_full_scan_frequency self"

definition py_set_gc_full_scan_frequency :: "DatabaseOptions \<Rightarrow> u64 \<Rightarrow> DatabaseOptions" where
  "py_set_gc_full_scan_frequency self v = self\<lparr>opt_gc_full_scan_frequency := v\<rparr>"

definition py_reset_threshold :: "DatabaseOptions \<Rightarrow> nat" where
  "py_reset_threshold self = opt_reset_threshold self"

definition py_set_reset_threshold :: "DatabaseOptions \<Rightarrow> nat \<Rightarrow> DatabaseOptions" where
  "py_set_reset_threshold self v = self\<lparr>opt_reset_threshold := v\<rparr>"

definition PyDatabaseOptions_repr :: "DatabaseOptions \<Rightarrow> string" where
  "PyDatabaseOptions_repr self =
     ''<stupid_kv.DatabaseOptions pool_size='' @ show_nat (opt_pool_size self) @ '' cleanup='' @ show_bool (opt_enable_cleanup self)
       @ '' gc='' @ show_bool (opt_enable_gc self) @ ''>''"

text \<open>Paths come from Python text, so \<open>to_string_lossy\<close> and \<open>display\<close> lose nothing.\<close>

definition PyPersistenceOptions_new :: "string \<Rightarrow> PersistenceOptions" where
  "PyPersistenceOptions_new path = PersistenceOptions_new path"

definition PyPersistenceOptions_with_pure_snapshot :: "PersistenceOptions \<Rightarrow> nat \<Rightarrow> PersistenceOptions" where
  "PyPersistenceOptions_with_pure_snapshot self interval_sec = with_pure_snapshot self (from_secs interval_sec)"

definition PyPersistenceOptions_with_async_aol :: "PersistenceOptions \<Rightarrow> nat \<Rightarrow> PersistenceOptions" where
  "PyPersistenceOptions_with_async_aol self interval_sec = with_async_aol self (from_secs interval_sec)"

definition PyPersistenceOptions_with_sync_aol :: "PersistenceOptions \<Rightarrow> nat \<Rightarrow> PersistenceOptions" where
  "PyPersistenceOptions_with_sync_aol self interval_sec = with_sync_aol self (from_secs interval_sec)"

definition PyPersistenceOptions_with_snapshot_path :: "PersistenceOptions \<Rightarrow> string \<Rightarrow> PersistenceOptions" where
  "PyPersistenceOptions_with_snapshot_path self path = with_snapshot_path self (Some path)"

definition PyPersistenceOptions_with_aol_path :: "PersistenceOptions \<Rightarrow> string \<Rightarrow> PersistenceOptions" where
  "PyPersistenceOptions_with_aol_path self path = with_aol_path self (Some path)"

definition py_base_path :: "PersistenceOptions \<Rightarrow> string" where
  "py_base_path self = base_path self"

definition py_set_base_path :: "PersistenceOptions \<Rightarrow> string \<Rightarrow> PersistenceOptions" where
  "py_set_base_path self v = self\<lparr>base_path := v\<rparr>"

definition PyPersistenceOptions_repr :: "PersistenceOptions \<Rightarrow> string" where
  "PyPersistenceOptions_repr self = ''<stupid_kv.PersistenceOptions base_path='' @ [CHR 0x27] @ base_path self @ [CHR 0x27] @ ''>''"

section \<open>Options written from Python are the options the engine reads\<close>

text \<open>
  The five properties are independent lenses of the option record: a write is read back, the last write
  wins, and writes of different properties commute.
\<close>

locale lens =
  fixes view :: "'s \<Rightarrow> 'v" and upd :: "'s \<Rightarrow> 'v \<Rightarrow> 's"
  assumes read_back: "view (upd s v) = v"
    and last_wins: "upd (upd s v) v' = upd s v'"
    and unchanged: "upd s (view s) = s"
begin

lemma upd_cong: "upd s v = upd s v' \<longleftrightarrow> v = v'"
  by (metis read_back)

lemma upd_determined: "upd s (view t) = t \<longleftrightarrow> (\<exists>v. upd s v = t)"
  by (metis read_back)

end

interpretation pool_size: lens py_pool_size py_set_pool_size
  by unfold_locales (simp_all add: py_pool_size_def py_set_pool_size_def)

interpretation enable_cleanup: lens py_enable_cleanup py_set_enable_cleanup
  by unfold_locales (simp_all add: py_enable_cleanup_def py_set_enable_cleanup_def)

interpretation enable_gc: lens py_enable_gc py_set_enable_gc
  by unfold_locales (simp_all add: py_enable_gc_def py_set_enable_gc_def)

interpretation full_scan: lens py_gc_full_scan_frequency py_set_gc_full_scan_frequency
  by unfold_locales (simp_all add: py_gc_full_scan_frequency_def py_set_gc_full_scan_frequency_def)

interpretation reset_threshold: lens py_reset_threshold py_set_reset_threshold
  by unfold_locales (simp_all add: py_reset_threshold_def py_set_reset_threshold_def)

interpretation base_path: lens py_base_path py_set_base_path
  by unfold_locales (simp_all add: py_base_path_def py_set_base_path_def)

section \<open>Methods are engine operations\<close>

lemma py_catches_all: "py_catches PyException x"
  by (simp add: py_catches_def)

lemma py_catches_own: "py_catches StupidKvError x \<longleftrightarrow> x \<noteq> PyOSError"
  by (cases x) (simp_all add: py_catches_def)

lemma py_call_engine: "py_call f (Some t) = (map_sum tx_err_to_py id (fst (f t)), Some (snd (f t)))"
  by (simp add: py_call_def split: prod.splits)

lemma tx_err_to_py_inj: "fst (tx_err_to_py e) = fst (tx_err_to_py e') \<longleftrightarrow>
    e = e' \<or> (\<exists>p p'. e = TxCommitNotPersisted p \<and> e' = TxCommitNotPersisted p')"
  by (cases e; cases e') simp_all

text \<open>Leaving the block: the transaction is closed, by commit or by cancel, and nothing is raised.\<close>

lemma py_exit_closes: "py_exit w b self db = Some (r, self', db') \<Longrightarrow> \<not> r \<and> py_closed self'"
  by (auto simp: py_exit_def py_closed_def commit_done cancel_def clear_readset_def clear_writeset_def Let_def
      split: if_splits option.splits)

end
