(* ===== verification/Spec2Isabelle.thy ===== *)
theory Spec2Isabelle
  imports Samples Registration Undisturbed Collecting_Progress Client_Tests Component_Tests Server_Tests
    Python_Interface
begin

text \<open>
  \<^bold>\<open>stupid-kv: a multi-version key-value store.\<close>

  \<^bold>\<open>The program.\<close>  A database (\<open>src/src/db/db.rs\<close>) owns the shared engine (\<open>src/src/db/inner.rs\<close>): a
  map from keys to version chains, a queue of commit entries for conflict detection, a queue of
  merges being installed, two families of reference counters that tell which snapshots are open, and
  a timestamp oracle.  Clients open transactions, which read a fixed snapshot and buffer their
  writes; commit publishes an entry in the commit queue, checks the entries published since the
  snapshot, takes a fresh version, writes the chains and appends to the log.  Background threads
  clean the commit queue, collect versions, resynchronise the clock, take snapshots, write queued
  log records and sync the log.  An HTTP server and bindings for C and Python expose the store.

  \<^bold>\<open>Theories and sources.\<close>
  \<^item> \<open>Prelude\<close>: types, word and list lemmas, traces of a labelled step relation and the locale of forward
    simulations.  \<open>Ordered_Map\<close>: the ordered maps the code takes from crossbeam and the standard
    library, as sorted association lists, with their contract as a locale.
  \<^item> \<open>Versions\<close> (\<open>src/src/versions\<close>): one key's chain: push, searches, reads, compaction.
  \<^item> \<open>Bloom\<close> (\<open>src/src/bloom/bloom.rs\<close>), \<open>Commit_Queue\<close> (\<open>src/src/queue\<close>): the conflict checks.
  \<^item> \<open>Counters\<close> (\<open>register_counter\<close>, \<open>release_counter\<close>, \<open>earliest_active\<close>): who holds which snapshot.
    \<open>Oracle\<close> (\<open>src/src/oracle\<close>): clock, resync, choice of a commit version.
  \<^item> \<open>Options\<close>, \<open>Errors\<close>, \<open>Compression\<close>: option records and builders, the error enums with their
    messages, the compressed stream.
  \<^item> \<open>Persistence\<close> (\<open>src/src/persistence/persistence.rs\<close>): snapshot, truncation, load, append, the three
    threads, construction and drop, over an explicit map of files with their durable contents.
  \<^item> \<open>Engine\<close> (\<open>src/src/db/inner.rs\<close>): the record \<open>Inner\<close>, watermarks and collectors.
  \<^item> \<open>Transaction\<close> (\<open>src/src/tx/transaction_inner.rs\<close>): every operation; \<open>Database\<close> (\<open>src/src/db/db.rs\<close>,
    \<open>src/src/pool/pool.rs\<close>, \<open>src/src/tx/transaction.rs\<close>): the handles, the pool, construction, worker
    rounds, shutdown.
  \<^item> \<open>System\<close>: a database with its open transactions as the step relation \<open>step\<close>; the invariant
    \<open>sys_inv\<close> and its preservation by every step.
  \<^item> \<open>Isolation_Spec\<close>: the abstract machine \<open>si_step\<close> (contents, snapshots, buffered writes; no versions,
    no queues), the abstraction \<open>abs_sys\<close> and the simulation.  \<open>Recovery\<close>: what the files describe.
  \<^item> \<open>Registration\<close>: the protocol between registering transactions and the two collectors at the grain of
    single atomic accesses, any number of threads interleaved.  \<open>Interleaving\<close>: a commit in its two
    halves, with a call of another thread in between.
  \<^item> \<open>Thread_Pool\<close>: threads over a shared memory, the runs of a pool, and the locale of invariants that are
    local to one thread or a pair.  \<open>Publishing\<close>: the first half of \<open>commit\<close> with \<open>auto_commit\<close>, one access
    at a time; \<open>Publishing_Progress\<close>: every commit can be decided, and the race that uses a number twice.
    \<open>Merging\<close>, \<open>Merging_Reads\<close>: the second half with \<open>atomic_merge\<close> and the reads of
    \<open>fetch_in_datastore\<close>, and the two races between them.  \<open>Collecting\<close>: the loop of a commit over its write
    set, the collection of a key (\<open>gc_key\<close>) and the read of a chain, over entries with locks;
    \<open>Collecting_Progress\<close>: every write can finish, and the race that revives a deleted key.  \<open>Undisturbed\<close>:
    these machines, run alone, are the functions of \<open>Transaction\<close>.
  \<^item> \<open>Kv\<close> (\<open>src/src/kv/kv.rs\<close>): keys and values from text and bytes, with UTF-8.  \<open>Client_Programs\<close>
    (\<open>src/examples\<close>): programs as sequences of calls, an interpreter of the abstract machine, and that every
    proper program runs.  \<open>Client_Tests\<close>, \<open>Component_Tests\<close>, \<open>Server_Tests\<close>: the tests of the repository
    (\<open>src/src/tx/transaction.rs\<close>, \<open>src/src/db/db.rs\<close>, \<open>src/tests\<close>; \<open>versions.rs\<close> and \<open>bloom.rs\<close>;
    \<open>main.rs\<close>) as programs with assertions, and sessions of the server.
  \<^item> \<open>Server\<close> (\<open>src/server/src/main.rs\<close>): handlers, routes, port.  \<open>C_Interface\<close> and \<open>C_Refinement\<close>
    (\<open>src/stupid-kv-c/src/lib.rs\<close>): codes, option structs, every entry point over a heap of handles; every
    call as a step of \<open>System\<close>.  \<open>Python_Interface\<close> (\<open>src/stupid-kv-py/src/lib.rs\<close>): exceptions, objects,
    context managers, options and their properties as lenses.
  \<^item> \<open>Samples\<close>: a concrete codec and concrete states for the witnesses.

  \<^bold>\<open>Correspondence.\<close>  A struct is a record with the code's field names, prefixed where two structs share
  one.  \<open>Result\<close> is a sum with the error on the left.  Numbers the code keeps in 64 bits are
  \<open>64 word\<close> and wrap; times and lengths are \<open>nat\<close>.  A loop that may spin is a
  \<open>partial_function\<close> in the option type, \<open>None\<close> being a call that never returns, and the theorems about
  it show that it returns.  What such a loop reads from shared memory in later rounds is an
  argument.  Libraries are arguments with named laws: bincode and LZ4 (\<open>codec\<close>, \<open>codec_law\<close>,
  \<open>lz4_law\<close>), the clocks, and the outcome of each I/O call (\<open>io_env\<close>); files, paths and queues of the
  standard library are modelled.

  \<^bold>\<open>What the theorems show.\<close>  Isolation: the engine refines the snapshot-isolation machine, with no lost
  update, validated reads at the serializable level, atomic visibility, stable snapshots, conflicts
  that are real, and calls that return.  Collection: neither collector can be observed by an open
  transaction.  Data structures: push against a reference insertion, the searches against the
  history, exactness of both conflict checks, no false negatives.  Registration and watermarks.
  Persistence: snapshot and load are inverse, acknowledged commits survive a restart, appends are
  durable, a torn log replays.  Interfaces: sessions of the server are sessions of a map, a C call is an engine step and owns the
  memory it hands out.  Concurrency: a registered snapshot is never below the watermark of a running
  collection; in tidy runs concurrent commits that overlap are ordered, concurrent reads repeat, and the version
  collector loses no write; every commit can be decided and every chain write can finish in every run.
  Programs: the examples return the same results in every run, and the repository's tests pass in every run.
  Divergences: behaviour that a comment or a name contradicts, among them six races: opening a
  transaction inside a commit, the clean-up of the commit queue, a commit number used twice, a merge that
  enters below an open snapshot, an older merge that hides a newer one, and an older write that revives a
  key whose deletion was collected.

  \<^bold>\<open>Bounds.\<close>  A step of \<open>System\<close> runs one call, or one round of a background thread, to completion; a call
  can be preceded and followed by any other.  The steps that begin and commit assume that 64-bit
  numbers are not exhausted: fewer open transactions than the tombstone, a timestamp and a commit
  number below the largest word.  \<open>Registration\<close> has no such grain: its threads interleave after every
  load, store, exchange and map access, in a sequentially consistent order, and its only bound is on
  the number of threads.  So do the threads of \<open>Publishing\<close>, \<open>Merging\<close> and \<open>Collecting\<close>.  Their safety theorems
  are about tidy runs, a condition on the run and not on the code: no commit entry goes into a free slot
  behind the current number; no merge enters at or below the timestamp or beside a queued merge of the same
  key; the writes of a key enter its chain in the order of their versions and above the snapshots that are
  reading it, a collection is not above such a snapshot, and no read begins below what was collected.
  The theorems on the races show that each condition is needed.  The clean-up removes entries by its
  contract, which \<open>Registration\<close> and \<open>cleanup_can_overtake_registration\<close> examine.

  \<^bold>\<open>Not modelled.\<close>  Interleaving inside a call other than registration, the watermarks, commits, collections
  and reads: the parts of a commit (publishing, merging, writing the chains) are interleaved with their own
  kind and not with each other.  Weak memory (the fences are taken to give sequential
  consistency); back-off; the Go wrapper (\<open>src/stupid-kv-go\<close>), which only forwards to the C interface; axum,
  tokio, serde and PyO3; logging and printing; the tests that measure the rate of false positives of the Bloom filter, write
  more than twenty keys and read them all back, or run several client threads.
\<close>

section \<open>Isolation\<close>

text \<open>
  C1: Every run of the engine (transactions, their operations, commits, drops, both collectors, the
  oracle's resync, snapshots and the background threads, in any order) is, event by event and result
  by result, a run of the abstract snapshot-isolation machine, which has no versions and no queues.
\<close>
theorem engine_implements_snapshot_isolation:
  assumes "reachable s" and "trace step s es s'"
  shows "trace si_step (abs_sys s) es (abs_sys s')"
  using si.trace_sim [OF assms(2) reachable_inv [OF assms(1)]] by simp

theorem engine_implements_snapshot_isolation_witness:
  "trace si_step (abs_sys sample_s0)
     [Begin 0 True, Op 0 (OpSet sample_key sample_value) (RUnit (Inr ())), Committed 0 (Inr ())] (abs_sys sample_s3)"
  by (rule engine_implements_snapshot_isolation [OF sample_reachable0 sample_run])

text \<open>
  C2: No lost update.  When a commit is acknowledged, every key it wrote still had, at the commit,
  the value the transaction's own snapshot shows.
\<close>
theorem no_lost_update:
  assumes "reachable s" and "step s (Committed i (Inr ())) s'"
    and "map_of (live s) i = Some tx" and "\<not> tx_done tx" and "k \<in> fst ` set (tx_writeset tx)"
  shows "fetch_in_datastore (sys_inner s) k (timestamp (ts_oracle (sys_inner s)))
    = fetch_in_datastore (sys_inner s) k (tx_version tx)"
  using si_commit_validated(1) [OF reachable_fresh [OF assms(1)], of i _ "abs_tx (sys_inner s) tx" k]
    step_simulates [OF reachable_inv [OF assms(1)] assms(2)] reachable_snap [OF assms(1,3)]
    reachable_now [OF assms(1)] assms(4,5)
  by (auto simp: abs_tx_def dom_map_of_conv_image_fst)

theorem no_lost_update_witness:
  "fetch_in_datastore (sys_inner sample_s2) sample_key (timestamp (ts_oracle (sys_inner sample_s2)))
    = fetch_in_datastore (sys_inner sample_s2) sample_key (tx_version sample_tx2)"
proof (rule sample_effect)
  assume "\<not> tx_done sample_tx"
  then show ?thesis
    using no_lost_update [OF sample_reachable2 sample_step3, of sample_tx2 sample_key]
    by (simp add: sample_s2_def sample_tx2_def)
qed

text \<open>
  C3: Under serializable snapshot isolation an acknowledged commit that wrote something also had all
  the keys of its read set unchanged since its snapshot, so it could have run at its commit point.
\<close>
theorem serializable_reads_validated:
  assumes "reachable s" and "step s (Committed i (Inr ())) s'"
    and "map_of (live s) i = Some tx" and "\<not> tx_done tx" and "tx_writeset tx \<noteq> []"
    and "tx_mode tx = SerializableSnapshotIsolation" and "k \<in> tx_readset tx"
  shows "fetch_in_datastore (sys_inner s) k (timestamp (ts_oracle (sys_inner s)))
    = fetch_in_datastore (sys_inner s) k (tx_version tx)"
  using si_commit_validated(2) [OF reachable_fresh [OF assms(1)], of i _ "abs_tx (sys_inner s) tx" k]
    step_simulates [OF reachable_inv [OF assms(1)] assms(2)] reachable_snap [OF assms(1,3)]
    reachable_now [OF assms(1)] assms(4-7)
  by (auto simp: abs_tx_def)

theorem serializable_reads_validated_witness:
  "fetch_in_datastore (sys_inner sample_ssi) [1] (timestamp (ts_oracle (sys_inner sample_ssi)))
    = fetch_in_datastore (sys_inner sample_ssi) [1] (tx_version sample_ssi_tx)"
proof -
  from sample_ssi_step obtain s' where st: "step sample_ssi (Committed 0 (Inr ())) s'" by blast
  show ?thesis
    by (rule serializable_reads_validated [OF sample_ssi_reachable st]) simp_all
qed

text \<open>
  C4: Atomic visibility.  A commit that is acknowledged, and one whose log append failed, installs its
  whole write set at once: a transaction begun next reads exactly the buffered values at the keys
  written and the previous current values elsewhere.
\<close>
theorem commit_visible_to_next:
  assumes "reachable s" and "step s (Committed i r) s'"
    and "r = Inr () \<or> (\<exists>e. r = Inl (TxCommitNotPersisted e))"
    and "map_of (live s) i = Some tx" and "\<not> tx_done tx"
    and "transaction (sys_db s') wr = Some (tx2, db2)" and "Suc (length (live s')) < 2 ^ 64 - 1"
  shows "fst (get (db_inner db2) k tx2)
    = Inr (case map_of (tx_writeset tx) k of Some v \<Rightarrow> v
           | None \<Rightarrow> fetch_in_datastore (sys_inner s) k (timestamp (ts_oracle (sys_inner s))))"
proof -
  have inv': "sys_inv s'" and st: "si_step (abs_sys s) (Committed i r) (abs_sys s')"
    using step_simulates [OF reachable_inv [OF assms(1)] assms(2)] by simp_all
  obtain tv tc where b: "db_inner db2 = (sys_inner s')\<lparr>counter_by_oracle := tv, counter_by_commit := tc\<rparr>"
    "tx_version tx2 = timestamp (ts_oracle (sys_inner s'))" "\<not> tx_done tx2" "tx_writeset tx2 = []"
    by (rule begin_effect [OF inv' assms(6,7)])
  have "inner_wf (db_inner db2)" using inv' by (simp add: b(1) sys_inv_def inner_wf_def)
  then have "fst (get (db_inner db2) k tx2) = Inr (now (abs_sys s') k)"
    using b by (simp add: get_def fetch_in_datastore_quiet abs_sys_def)
  moreover have "now (abs_sys s') k = si_install (map_of (tx_writeset tx)) (now (abs_sys s)) k"
    using st reachable_snap [OF assms(1,4)] assms(3,5)
    by (cases rule: si_step.cases) (auto simp: abs_tx_def si_install_def)
  ultimately show ?thesis by (simp add: si_install_def reachable_now [OF assms(1)] split: option.splits)
qed

theorem commit_visible_to_next_witness:
  "\<exists>tx2 db2. transaction (sys_db sample_s3) False = Some (tx2, db2)
    \<and> fst (get (db_inner db2) sample_key tx2) = Inr (Some sample_value)"
proof -
  have cap: "Suc (length (live sample_s3)) < 2 ^ 64 - 1" by simp
  obtain tx2 db2 where t: "transaction (sys_db sample_s3) False = Some (tx2, db2)"
    using begin_returns [OF reachable_inv [OF sample_reachable3] cap] by blast
  moreover have "\<not> tx_done sample_tx2" "tx_writeset sample_tx2 = [(sample_key, Some sample_value)]"
    by (simp_all add: sample_tx2_def)
  ultimately show ?thesis
    using commit_visible_to_next [OF sample_reachable2 sample_step3 _ _ _ t cap, of sample_tx2 sample_key] by simp
qed

text \<open>
  C5: Repeatable reads.  Whatever happens while a transaction is open (commits of others, both
  collectors, resyncs, snapshots, shutdown), a read of its snapshot gives the same value.
\<close>
theorem snapshot_reads_stable:
  assumes "reachable s" and "trace step s es s'" and "Dropped i \<notin> set es"
    and "map_of (live s) i = Some tx" and "map_of (live s') i = Some tx'"
  shows "fetch_in_datastore (sys_inner s') k (tx_version tx') = fetch_in_datastore (sys_inner s) k (tx_version tx)"
proof -
  have "trace si_step (abs_sys s) es (abs_sys s')"
    using si.trace_sim [OF assms(2) reachable_inv [OF assms(1)]] by simp
  from si_snap_trace [OF this _ assms(3)] reachable_snap [OF assms(1,4)]
    reachable_snap [OF reachable_trace [OF assms(2,1)] assms(5)]
  show ?thesis by (metis option.inject)
qed

theorem snapshot_reads_stable_witness:
  "fetch_in_datastore (sys_inner sample_s3) sample_key (tx_version (closed_tx sample_tx2))
    = fetch_in_datastore (sys_inner sample_s1) sample_key (tx_version sample_tx)"
proof (rule snapshot_reads_stable)
  show "trace step sample_s1 [Op 0 (OpSet sample_key sample_value) (RUnit (Inr ())), Committed 0 (Inr ())] sample_s3"
    using sample_step2 sample_step3 by auto
  show "reachable sample_s1" by (rule sample_reachable1)
qed (simp_all add: sample_s1_def sample_s3_def)

text \<open>
  C20: A conflict error is never spurious and never leaves a trace: some commit published after the
  transaction's snapshot wrote a key of its write set (or, for a read conflict, a key it read under
  the serializable level), and the data store is untouched.
\<close>
theorem conflict_is_real:
  assumes "reachable s" and "step s (Committed i (Inl e)) s'" and "map_of (live s) i = Some tx"
    and "e = KeyWriteConflict \<or> e = KeyReadConflict"
  shows "(\<exists>j c. (j, c) \<in> set (transaction_commit_queue (sys_inner s)) \<and> tx_commit tx < j
      \<and> (if e = KeyWriteConflict then fst ` set (tx_writeset tx) \<inter> written c \<noteq> {}
         else tx_mode tx = SerializableSnapshotIsolation \<and> tx_readset tx \<inter> written c \<noteq> {}))
    \<and> datastore (sys_inner s') = datastore (sys_inner s)"
proof -
  obtain w tx' inner' where st: "commit w tx (sys_inner s) = Some (Inl e, tx', inner')"
    "timestamp (ts_oracle (sys_inner s)) < u64_MAX" "transaction_commit_id (sys_inner s) < u64_MAX"
    "sys_inner s' = inner'"
    using assms(2,3) by (auto elim: step.cases)
  have inv: "sys_inv s" by (rule reachable_inv [OF assms(1)])
  have ok: "tx_wf tx" "tx_commit tx \<le> transaction_commit_id (sys_inner s)"
    using sys_inv_live(1) [OF inv assms(3)] by (simp_all add: live_ok_def)
  from inv assms(3) st(2,3) have res: "\<not> tx_done tx \<and> tx_writeset tx \<noteq> [] \<and> commit_conflict tx (sys_inner s) = Some e
      \<and> datastore inner' = datastore (sys_inner s)"
    by (cases rule: commit_effect [where w = w]) (use st(1) assms(4) in auto)
  with commit_conflict_cases [OF reachable_inner_wf [OF assms(1)] ok(1) _ st(3) ok(2)] st(4)
  show ?thesis by (auto simp: changed_since_meets)
qed

theorem conflict_is_real_witness:
  "\<exists>s s' tx. reachable s \<and> step s (Committed 1 (Inl KeyWriteConflict)) s' \<and> map_of (live s) 1 = Some tx
    \<and> (\<exists>j c. (j, c) \<in> set (transaction_commit_queue (sys_inner s)) \<and> tx_commit tx < j
         \<and> fst ` set (tx_writeset tx) \<inter> written c \<noteq> {})
    \<and> datastore (sys_inner s') = datastore (sys_inner s)"
proof -
  from sample_conflict obtain s s' tx where "reachable s" "step s (Committed 1 (Inl KeyWriteConflict)) s'"
    "map_of (live s) 1 = Some tx" by blast
  with conflict_is_real [OF this] show ?thesis
    by (intro exI [of _ s] exI [of _ s'] exI [of _ tx]) simp
qed

text \<open>
  C22: The shape of every state the engine can reach: the data store is ordered by key, every chain is
  strictly ordered by version and below the oracle's timestamp; the commit queue is ordered, numbered below
  the commit counter, and its entries carry matching key ranges and filters; the merge queue is empty
  between calls; each registered counter holds exactly the number of open transactions with its snapshot
  number and none is left at zero; and every open transaction is above the collector's floor.
\<close>
theorem reachable_states_well_formed:
  assumes "reachable s"
  shows "om_wf (datastore (sys_inner s))
    \<and> (\<forall>(k, vs)\<in>set (datastore (sys_inner s)). versions_wf vs \<and> (\<forall>x\<in>set vs. version x \<le> timestamp (ts_oracle (sys_inner s))))
    \<and> om_wf (transaction_commit_queue (sys_inner s))
    \<and> (\<forall>(n, e)\<in>set (transaction_commit_queue (sys_inner s)). n \<le> transaction_commit_id (sys_inner s) \<and> commit_wf e)
    \<and> transaction_merge_queue (sys_inner s) = []
    \<and> (\<forall>(v, c)\<in>set (slots (counter_by_oracle (sys_inner s))).
         cells (counter_by_oracle (sys_inner s)) ! c = of_nat (open_at tx_version s v) \<and> 0 < open_at tx_version s v)
    \<and> (\<forall>(v, c)\<in>set (slots (counter_by_commit (sys_inner s))).
         cells (counter_by_commit (sys_inner s)) ! c = of_nat (open_at tx_commit s v) \<and> 0 < open_at tx_commit s v)
    \<and> (\<forall>(i, tx)\<in>set (live s). tx_wf tx \<and> gc_floor (sys_inner s) \<le> tx_version tx
         \<and> tx_version tx \<le> timestamp (ts_oracle (sys_inner s)) \<and> tx_commit tx \<le> transaction_commit_id (sys_inner s))"
proof -
  have inv: "sys_inv s" by (rule reachable_inv [OF assms])
  then have wf: "inner_wf (sys_inner s)" and t: "counters_inv (counter_by_oracle (sys_inner s)) (version_handles (live s))"
    and c: "counters_inv (counter_by_commit (sys_inner s)) (commit_handles (live s))" by (simp_all add: sys_inv_def)
  note counter_of_open [OF t [unfolded version_handles_def]] counter_of_open [OF c [unfolded commit_handles_def]]
  with inv wf show ?thesis
    by (auto simp: sys_inv_def inner_wf_def store_wf_def store_newest_le_def versions_newest_le_def queue_wf_def live_ok_def)
qed

theorem reachable_states_well_formed_witness:
  "om_wf (datastore (sys_inner sample_s3)) \<and> om_wf (transaction_commit_queue (sys_inner sample_s3))
    \<and> transaction_merge_queue (sys_inner sample_s3) = [] \<and> tx_wf (closed_tx sample_tx2)"
  using reachable_states_well_formed [OF sample_reachable3] by simp

text \<open>
  C21: Every call returns.  From a reachable state, below the bounds of 64-bit numbers, opening a
  transaction, committing and dropping one all terminate; the retry loops cannot spin.
\<close>
theorem calls_return:
  assumes "reachable s" and "map_of (live s) i = Some tx" and "Suc (length (live s)) < 2 ^ 64 - 1"
    and "timestamp (ts_oracle (sys_inner s)) < u64_MAX" and "transaction_commit_id (sys_inner s) < u64_MAX"
  shows "(\<exists>tx' db'. transaction (sys_db s) wr = Some (tx', db'))
    \<and> (\<exists>r tx' inner'. commit w tx (sys_inner s) = Some (r, tx', inner'))
    \<and> (\<exists>db'. Transaction_drop tx (sys_db s) = Some db')"
proof (intro conjI)
  have inv: "sys_inv s" by (rule reachable_inv [OF assms(1)])
  show "\<exists>tx' db'. transaction (sys_db s) wr = Some (tx', db')" by (rule begin_returns [OF inv assms(3)])
  show "\<exists>r tx' inner'. commit w tx (sys_inner s) = Some (r, tx', inner')"
    using inv assms(2,4,5) by (cases rule: commit_effect [where w = w]) auto
  show "\<exists>db'. Transaction_drop tx (sys_db s) = Some db'" by (rule drop_effect [OF inv assms(2)]) blast
qed

theorem calls_return_witness:
  "(\<exists>tx' db'. transaction (sys_db sample_s2) False = Some (tx', db'))
    \<and> (\<exists>r tx' inner'. commit sample_world sample_tx2 (sys_inner sample_s2) = Some (r, tx', inner'))
    \<and> (\<exists>db'. Transaction_drop sample_tx2 (sys_db sample_s2) = Some db')"
  by (rule calls_return [OF sample_reachable2, of 0])
    (simp_all add: sample_s2_inner word_less_nat_alt unat_u64_MAX)

text \<open>
  Version collection is invisible to every open transaction: after a full collection a live
  snapshot reads what it read before, and so does the newest state.
\<close>
theorem collection_keeps_live_snapshots:
  assumes "reachable s" and "map_of (live s) i = Some tx \<and> v = tx_version tx \<or> v = timestamp (ts_oracle (sys_inner s))"
  shows "fetch_in_datastore (db_inner (run_gc clk (sys_db s))) k v = fetch_in_datastore (sys_inner s) k v"
proof -
  have sil: "silent (live s) (sys_inner s) (db_inner (run_gc clk (sys_db s)))"
    by (rule silent_run_gc [OF reachable_inv [OF assms(1)]])
  then have wf: "inner_wf (db_inner (run_gc clk (sys_db s)))" by (simp add: silent_def)
  note q = fetch_in_datastore_quiet [OF wf] fetch_in_datastore_quiet [OF reachable_inner_wf [OF assms(1)]]
  show ?thesis using assms(2)
  proof
    assume "map_of (live s) i = Some tx \<and> v = tx_version tx"
    with sil map_of_SomeD [of "live s" i tx] show ?thesis by (fastforce simp: q silent_def)
  next
    assume "v = timestamp (ts_oracle (sys_inner s))"
    with sil show ?thesis by (simp add: q silent_def)
  qed
qed

theorem collection_keeps_live_snapshots_witness:
  "fetch_in_datastore (db_inner (run_gc 5 (sys_db sample_s3))) sample_key (tx_version (closed_tx sample_tx2))
    = fetch_in_datastore (sys_inner sample_s3) sample_key (tx_version (closed_tx sample_tx2))"
  by (rule collection_keeps_live_snapshots [OF sample_reachable3, of 0 "closed_tx sample_tx2"]) simp

text \<open>
  C23: Cleaning the commit queue never changes the verdict on an open transaction: the entries its
  commit will be checked against are all still there.
\<close>
theorem cleanup_keeps_conflict_window:
  assumes "reachable s" and "map_of (live s) i = Some tx" and "transaction_commit_id (sys_inner s) < u64_MAX"
  shows "commit_conflict tx (db_inner (run_cleanup (sys_db s))) = commit_conflict tx (sys_inner s)"
proof -
  let ?oldest = "earliest_active_commit (sys_inner s) (transaction_commit_id (sys_inner s))"
  have inv: "sys_inv s" by (rule reachable_inv [OF assms(1)])
  have "?oldest \<le> tx_commit tx"
    using reg.watermark_le sys_inv_live(3) [OF inv assms(2)] inv
    by (auto simp: earliest_active_commit_def sys_inv_def)
  moreover have "tx_commit tx < tx_commit tx + 1"
    using sys_inv_live(1) [OF inv assms(2)] assms(3)
    by (intro u64_less_Suc) (auto simp: live_ok_def)
  ultimately have "\<not> j < ?oldest" if "tx_commit tx + 1 \<le> j" for j
    using that by (meson leD less_le_trans order_trans less_imp_le not_le)
  then have "commit_range (tx_commit tx + 1) hi (filter (\<lambda>e. \<not> fst e < ?oldest) q)
      = commit_range (tx_commit tx + 1) hi q" for hi and q :: "(u64, Commit) omap"
    by (simp add: commit_range_def) (metis (mono_tags, lifting) filter_cong)
  then show ?thesis
    by (simp add: commit_conflict_def run_cleanup_def run_cleanup_inner_def Let_def)
qed

theorem cleanup_keeps_conflict_window_witness:
  "commit_conflict sample_tx2 (db_inner (run_cleanup (sys_db sample_s2))) = commit_conflict sample_tx2 (sys_inner sample_s2)"
  by (rule cleanup_keeps_conflict_window [OF sample_reachable2, of 0]) (simp_all add: sample_s2_inner)


section \<open>Version chains\<close>

text \<open>
  C24: The optimised push (append and overwrite fast paths, binary search, insertion) computes the
  reference insertion: split the chain at the version, overwrite an equal version, drop a repeated
  value, refuse a deletion in front of everything.
\<close>
theorem push_computes_reference:
  assumes "versions_wf inner"
  shows "push inner val = push_reference inner val \<and> versions_wf (push inner val)"
  using push_eq_reference [OF assms] push_versions_wf [OF assms] by simp

theorem push_computes_reference_witness:
  "push [\<lparr>version = 1, value_of = Some [1]\<rparr>, \<lparr>version = 5, value_of = None\<rparr>] \<lparr>version = 3, value_of = Some [2]\<rparr>
    = push_reference [\<lparr>version = 1, value_of = Some [1]\<rparr>, \<lparr>version = 5, value_of = None\<rparr>] \<lparr>version = 3, value_of = Some [2]\<rparr>"
  using push_computes_reference [of "[\<lparr>version = 1, value_of = Some [1]\<rparr>, \<lparr>version = 5, value_of = None\<rparr>]"]
  by (simp add: versions_wf_def)

text \<open>
  C25: Reads find the right entry.  The two index searches (backward scan up to four entries, binary
  search beyond) return the number of entries below, respectively not above, the version asked for,
  so a read returns the value of the newest entry that is not newer than the snapshot.
\<close>
theorem searches_find_history:
  assumes "versions_wf inner"
  shows "find_index_lt_version inner w = length (filter (\<lambda>v. version v < w) inner)
    \<and> find_index_lte_version inner w = length (filter (\<lambda>v. version v \<le> w) inner)
    \<and> fetch_version inner w = value_at inner w
    \<and> (exists_version inner w \<longleftrightarrow> value_at inner w \<noteq> None)"
proof -
  have "takeWhile (\<lambda>v. version v < w) inner = filter (\<lambda>v. version v < w) inner"
    using assms downward_less by (auto simp: versions_wf_def intro: takeWhile_eq_filter_sorted)
  then show ?thesis
    using assms by (simp add: find_index_lt_takeWhile find_index_lte_takeWhile versions_split(1)
        fetch_version_value_at exists_version_fetch)
qed

theorem searches_find_history_witness:
  "fetch_version (map (\<lambda>n. \<lparr>version = of_nat n, value_of = Some [of_nat n]\<rparr>) [1, 3, 5, 7, 9, 11]) 8 = Some [7]"
  using searches_find_history [of "map (\<lambda>n. \<lparr>version = of_nat n, value_of = Some [of_nat n]\<rparr>) [1, 3, 5, 7, 9, 11]" 8]
  by (simp add: versions_wf_def value_at_def)

text \<open>
  Compacting a chain at a watermark keeps every read at or above it, leaves at most one entry at
  or below it, and keeps the chain sorted; it reports the number of entries left.
\<close>
theorem compaction_keeps_reads:
  assumes "versions_wf inner" and "gc_older_versions inner c = (inner', n)"
  shows "versions_wf inner' \<and> n = length inner' \<and> length (filter (\<lambda>v. version v \<le> c) inner') \<le> 1
    \<and> (\<forall>w. c \<le> w \<longrightarrow> fetch_version inner' w = fetch_version inner w)"
  using assms(2) gc_versions_wf [OF assms(1), of c] gc_older_versions_length [of inner c]
    gc_bounded [OF assms(1), of c] vc.fetch_gc [OF assms(1), of c] by simp

theorem compaction_keeps_reads_witness:
  "fetch_version [\<lparr>version = 5, value_of = Some [2]\<rparr>, \<lparr>version = 9, value_of = None\<rparr>] 7
    = fetch_version [\<lparr>version = 1, value_of = Some [1]\<rparr>, \<lparr>version = 5, value_of = Some [2]\<rparr>, \<lparr>version = 9, value_of = None\<rparr>] 7"
proof -
  let ?c = "[\<lparr>version = 1, value_of = Some [1]\<rparr>, \<lparr>version = 5, value_of = Some [2]\<rparr>, \<lparr>version = 9, value_of = None\<rparr>]"
  have "gc_older_versions ?c 6 = ([\<lparr>version = 5, value_of = Some [2]\<rparr>, \<lparr>version = 9, value_of = None\<rparr>], 2)"
    by code_simp
  from compaction_keeps_reads [OF _ this] show ?thesis by (simp add: versions_wf_def)
qed

section \<open>Conflict checks\<close>

text \<open>
  C29: The write-conflict check (key ranges, Bloom filter, merge walk) answers exactly whether two
  write sets have a key in common.
\<close>
theorem writeset_check_exact:
  assumes "om_wf ws1" "ws1 \<noteq> []" "om_wf ws2" "ws2 \<noteq> []"
  shows "is_disjoint_writeset_bloom (build_commit i ws1) (build_commit j ws2)
    \<longleftrightarrow> fst ` set ws1 \<inter> fst ` set ws2 = {}"
  using writeset_bloom_iff [OF build_commit_wf build_commit_wf, of ws1 ws2 i j] assms by simp

theorem writeset_check_exact_witness:
  "\<not> is_disjoint_writeset_bloom (build_commit 1 [([1], None), ([3], Some [9])]) (build_commit 2 [([2], None), ([3], None)])"
  using writeset_check_exact [of "[([1], None), ([3], Some [9])]" "[([2], None), ([3], None)]" 1 2]
  by (simp add: om_wf_def)

text \<open>
  The read-conflict check answers exactly whether the commit wrote a key the transaction read, for
  every read set built by recording keys one by one.
\<close>
theorem readset_check_exact:
  assumes "om_wf ws" "ws \<noteq> []"
  shows "is_disjoint_readset_bloom (build_commit i ws) (set ks) (foldl bloom_insert BloomFilter_new ks)
    \<longleftrightarrow> fst ` set ws \<inter> set ks = {}"
proof -
  have "readset_wf (set ks) (foldl bloom_insert BloomFilter_new ks)"
    using bf.covers_foldl [of ks] bf.wf_foldl [OF bloom_wf_new, of ks] bf.is_empty_foldl [of ks]
    by (simp add: readset_wf_def)
  from readset_bloom_iff [OF build_commit_wf [OF assms] this, of i] show ?thesis by simp
qed

theorem readset_check_exact_witness:
  "\<not> is_disjoint_readset_bloom (build_commit 1 [([3], None)]) (set [[3], [4]]) (foldl bloom_insert BloomFilter_new [[3], [4]])"
  using readset_check_exact [of "[([3], None)]" 1 "[[3], [4]]"] by (simp add: om_wf_def)

text \<open>
  The Bloom filter never denies a key it was given, is in bounds for every key, and says empty
  only when nothing was inserted.
\<close>
theorem bloom_no_false_negative:
  "(\<forall>k\<in>set ks. may_contain (foldl bloom_insert BloomFilter_new ks) k)
    \<and> length (bits (foldl bloom_insert BloomFilter_new ks)) = BLOOM_BYTES
    \<and> (\<forall>k n. hash_position k n div 8 < BLOOM_BYTES)
    \<and> (bloom_is_empty (foldl bloom_insert BloomFilter_new ks) \<longleftrightarrow> ks = [])"
  using bf.no_false_negative [OF bloom_wf_new, of _ ks] bf.wf_foldl [OF bloom_wf_new, of ks]
    hash_position_byte bf.is_empty_foldl [of ks] by (simp add: bloom_wf_def)

theorem bloom_no_false_negative_witness:
  "may_contain (foldl bloom_insert BloomFilter_new [[1], [2, 3]]) [2, 3]"
  using bloom_no_false_negative [of "[[1], [2, 3]]"] by simp


section \<open>Snapshot registration and watermarks\<close>

text \<open>
  C30: Registration ends and registers what it returns.  Whatever the two loads and the collector's
  floor show in the earlier rounds, the loop returns no later than the first round in which the two
  loads agree and the floor is not above them, with that round's number, and the counters then count
  the new handle beside all the others.
\<close>
theorem registration_returns:
  assumes "counters_inv t hs" and "Suc (size hs) < 2 ^ 64 - 1" and "round_ok loads fl n"
  shows "\<exists>j c t'. j \<le> n \<and> round_ok loads fl j
    \<and> register_counter loads fl 0 t = Some (fst (loads j), c, t')
    \<and> counters_inv t' (add_mset (fst (loads j), c) hs)"
  using register_counter_returns [OF assms(1,2), where i = 0 and n = n and loads = loads] assms(3) by auto

theorem registration_returns_witness:
  "\<exists>j c t'. j \<le> 1 \<and> round_ok (\<lambda>i. (of_nat i, 1)) (Some (\<lambda>_. 1)) j
    \<and> register_counter (\<lambda>i. (of_nat i, 1)) (Some (\<lambda>_. 1)) 0 Counters_new = Some (of_nat j, c, t')
    \<and> counters_inv t' {#(of_nat j, c)#}"
  using registration_returns [OF counters_inv_new, where loads = "\<lambda>i. (of_nat i, 1)" and fl = "Some (\<lambda>_. 1)" and n = 1]
  by simp

text \<open>
  The scan of the counter table returns the least snapshot that is registered (the fallback when
  none is), and dropping a handle returns and unregisters exactly that handle.
\<close>
theorem watermark_is_minimum:
  assumes "counters_inv t hs" and "(v, c) \<in># hs"
  shows "earliest_active t fallback = Min (fst ` set_mset hs)
    \<and> (\<exists>t'. drop_counter t v c = Some t' \<and> counters_inv t' (hs - {#(v, c)#})
        \<and> earliest_active t' fallback
          = (if hs - {#(v, c)#} = {#} then fallback else Min (fst ` set_mset (hs - {#(v, c)#}))))"
  using assms reg.watermark_Min reg.unregister_ok [OF assms] by fastforce

theorem watermark_is_minimum_witness:
  "\<exists>c t. register_now Counters_new 7 = Some (7, c, t) \<and> earliest_active t 9 = 7
    \<and> (\<exists>t'. drop_counter t 7 c = Some t' \<and> earliest_active t' 9 = 9)"
proof -
  obtain c t where t: "register_now Counters_new 7 = Some (7, c, t)" "counters_inv t {#(7, c)#}"
    using reg.register_ok [OF counters_inv_new, of 7] by auto
  with watermark_is_minimum [OF t(2), of 7 c 9] show ?thesis by auto
qed

text \<open>
  C31: The version of a commit is fresh: it is above every version issued so far, whatever the clock
  says, and the oracle's high-water mark moves to it.
\<close>
theorem merge_version_fresh:
  assumes "transaction_merge_queue db = []" and "timestamp (ts_oracle db) < u64_MAX"
  shows "\<exists>ver db'. atomic_merge others clk 0 m db = Some (ver, m, db') \<and> timestamp (ts_oracle db) < ver
    \<and> timestamp (ts_oracle db') = ver \<and> current_time_ns (ts_oracle db) (clk 0) \<le> ver"
proof -
  let ?v = "candidate_version (ts_oracle db) (clk 0)"
  have "timestamp (ts_oracle db) < ?v" by (rule candidate_above [OF assms(2)])
  moreover have "current_time_ns (ts_oracle db) (clk 0) \<le> ?v"
    using u64_less_Suc [OF assms(2)] by (auto simp: candidate_version_def Let_def)
  ultimately show ?thesis
    using assms(1) by (simp add: atomic_merge_free Let_def max_absorb2 less_imp_le)
qed

theorem merge_version_fresh_witness:
  "\<exists>ver db'. atomic_merge (\<lambda>_ s. s) (\<lambda>_. 0) 0 \<lparr>mg_id = 1, mg_writeset = []\<rparr> (db_inner sample_db)
      = Some (ver, \<lparr>mg_id = 1, mg_writeset = []\<rparr>, db') \<and> 1000 < ver"
proof -
  have "transaction_merge_queue (db_inner sample_db) = []"
    using sample_inv0 by (simp add: sys_inv_def inner_wf_def sample_s0_def)
  from merge_version_fresh [OF this, of "\<lambda>_ s. s" "\<lambda>_. 0" "\<lparr>mg_id = 1, mg_writeset = []\<rparr>"] show ?thesis
    by (auto simp: word_less_nat_alt unat_u64_MAX)
qed

section \<open>Transactions\<close>

text \<open>
  The object pool is invisible: a recycled transaction is, field by field, the transaction that
  would have been created, and the shared state is the same.
\<close>
theorem pool_is_invisible:
  "Pool_get db write =
     map_option (\<lambda>(tx, inner). (tx, db\<lparr>db_pool := tl (db_pool db), db_inner := inner\<rparr>))
       (TransactionInner_new (db_inner db) write)"
  by (rule Pool_get_eq_new)

text \<open>
  C32: A closed transaction refuses every operation with \<open>TxClosed\<close> and changes nothing; commit and
  cancel close it.
\<close>
theorem closed_transaction_is_inert:
  "(tx_done tx \<longrightarrow> get db k tx = (Inl TxClosed, tx) \<and> exists db k tx = (Inl TxClosed, tx)
      \<and> set_value k v tx = (Inl TxClosed, tx) \<and> put db k v tx = (Inl TxClosed, tx) \<and> del k tx = (Inl TxClosed, tx)
      \<and> cancel tx = (Inl TxClosed, tx) \<and> commit w tx db = Some (Inl TxClosed, tx, db))
    \<and> tx_done (snd (cancel tx)) \<and> (\<forall>r tx' db'. commit w tx db = Some (r, tx', db') \<longrightarrow> tx_done tx')"
proof -
  have "tx_done (clear_writeset (clear_readset t)) = tx_done t" for t
    by (simp add: clear_writeset_def clear_readset_def)
  then show ?thesis
    by (auto simp: get_def exists_def set_value_def put_def del_def cancel_def commit_def commit_apply_def Let_def
        split: if_splits option.splits prod.splits sum.splits)
qed

theorem closed_transaction_is_inert_witness:
  "get (db_inner sample_db) [1] (snd (cancel sample_tx)) = (Inl TxClosed, snd (cancel sample_tx))"
  using closed_transaction_is_inert [of "snd (cancel sample_tx)" "db_inner sample_db" "[1]" "[]" sample_world]
    closed_transaction_is_inert [of sample_tx "db_inner sample_db" "[1]" "[]" sample_world]
  by simp

text \<open>
  \<open>put\<close> inserts exactly when the key is neither buffered nor visible in the snapshot, and reports
  \<open>KeyAlreadyExists\<close> without a change otherwise; on a read-only transaction it and the other writes
  are refused.
\<close>
theorem put_inserts_only_new_keys:
  assumes "reachable s" and "map_of (live s) i = Some tx" and "\<not> tx_done tx"
  shows "put (sys_inner s) k v tx =
    (if \<not> tx_write tx then (Inl TxNotWritable, tx)
     else if map_of (tx_writeset tx) k \<noteq> None \<or> fetch_in_datastore (sys_inner s) k (tx_version tx) \<noteq> None
     then (Inl KeyAlreadyExists, tx)
     else (Inr (), tx\<lparr>tx_writeset := om_insert k (Some v) (tx_writeset tx)\<rparr>))"
  using assms(3) exists_in_datastore_quiet [OF reachable_inner_wf [OF assms(1)]]
    fetch_in_datastore_quiet [OF reachable_inner_wf [OF assms(1)]]
  by (auto simp: put_def split: option.splits)

theorem put_inserts_only_new_keys_witness:
  "put (sys_inner sample_s1) [1] [2] sample_tx = (Inr (), sample_tx\<lparr>tx_writeset := [([1], Some [2])]\<rparr>)"
proof -
  have "fetch_in_datastore (sys_inner sample_s1) [1] 1000 = None"
    by (simp add: fetch_in_datastore_quiet [OF reachable_inner_wf [OF sample_reachable1]] store_fetch_def)
  with put_inserts_only_new_keys [OF sample_reachable1, of 0 sample_tx "[1]" "[2]"] show ?thesis by simp
qed


section \<open>Persistence\<close>








text \<open>
  C27: Replaying a log ends, applies every whole record in order, and ignores a last record that was
  cut short by a crash (one on which the decoder runs into the end of the file).
\<close>
theorem torn_log_replays_whole_records:
  assumes "codec_law cdc" and "dec_log cdc torn = UnexpectedEof"
  shows "decode_loop (dec_log cdc) replay_log (encode_log cdc es @ torn) ds = Some (Inr (fold replay_log es ds))"
  unfolding encode_log_def using assms by (intro decode_loop_torn) (auto simp: codec_law_def)

theorem torn_log_replays_whole_records_witness:
  "decode_loop (dec_log sample_codec) replay_log (encode_log sample_codec [([1], 3, Some [9])] @ [1, 1]) []
    = Some (Inr [([1], [\<lparr>version = 3, value_of = Some [9]\<rparr>])])"
proof -
  have "dec_log sample_codec [1, 1] = UnexpectedEof" by (simp add: sample_codec_def or_eof_def dec_bytes_def)
  from torn_log_replays_whole_records [OF sample_codec_law this, of "[([1], 3, Some [9])]" "[]"] show ?thesis
    by (simp add: replay_log_def Versions_from_def)
qed

text \<open>
  The compression layer gives back what was written, in either mode, unless an uncompressed stream
  happens to start with the four bytes of the LZ4 magic number.
\<close>
theorem compression_roundtrip:
  assumes "lz4_law lib" and "mode = CompressionNone \<longrightarrow> take 4 data \<noteq> LZ4_MAGIC"
  shows "CompressedReader_new lib (CompressedWriter_finish (CompressedWriter_output lib mode data)) = Inr data"
  by (rule compressed_roundtrip [OF assms])

theorem compression_roundtrip_witness:
  "CompressedReader_new (lz4_lib sample_codec)
     (CompressedWriter_finish (CompressedWriter_output (lz4_lib sample_codec) Lz4 [1, 2, 3])) = Inr [1, 2, 3]"
  by (rule compression_roundtrip) (use sample_codec_law in \<open>simp_all add: codec_law_def\<close>)

section \<open>Concurrent registration\<close>

text \<open>
  C7: Registration against collection, at the grain of single atomic accesses: whatever any number of
  registering, dropping and collecting threads do in between, a transaction that holds a snapshot is
  never below the watermark of a collection under way, so compacting any chain at that watermark keeps
  what the snapshot reads.
\<close>
theorem registered_snapshot_survives_collection:
  assumes "n < 2 ^ 64 - 1" and "mstep\<^sup>*\<^sup>* (version_machine n g a) m"
    and "RHeld v c \<in> set (regs m)" and "VDone ts \<in> set (gcs m)" and "versions_wf inner"
  shows "ts \<le> v \<and> fetch_version (fst (gc_older_versions inner ts)) v = fetch_version inner v"
  using registered_above_watermark(1) [OF mstep_reachable_minv [OF assms(2) minv_initial(1) [OF assms(1)]] assms(3,4)]
    vc.fetch_gc [OF assms(5)] by simp

theorem registered_snapshot_survives_collection_witness:
  "fetch_version (fst (gc_older_versions [\<lparr>version = 3, value_of = Some [1]\<rparr>, \<lparr>version = 5, value_of = Some [2]\<rparr>] 5)) 5
    = fetch_version [\<lparr>version = 3, value_of = Some [1]\<rparr>, \<lparr>version = 5, value_of = Some [2]\<rparr>] 5"
proof -
  let ?moves = "replicate 7 (MReg 0) @ replicate 7 (MGc 0 9)"
  obtain m where r: "mrun ?moves (version_machine 1 1 5) = Some m" "regs m = [RHeld 5 0]" "gcs m = [VDone 5]"
    by (rule that [of "the (mrun ?moves (version_machine 1 1 5))"]) code_simp+
  show ?thesis
    using registered_snapshot_survives_collection [OF _ mrun_mstep [OF r(1)], of 5 0 5] r(2,3)
    by (simp add: versions_wf_def)
qed

text \<open>
  C38: The clean-up does not take that smaller number.  There is an interleaving in which the scan passes
  a slot before its registration is counted and then stops at a younger transaction: a transaction
  registered at commit 0 is live while the entries below 2 are removed, and entry 1, which its commit
  must be checked against, is one of them.
\<close>
theorem cleanup_can_overtake_registration:
  "\<exists>m. mstep\<^sup>*\<^sup>* (queue_machine 2 1 0) m \<and> RHeld 0 0 \<in> set (regs m) \<and> QDone 0 2 \<in> set (cleanups m)"
proof -
  let ?moves = "replicate 3 (MReg 0) @ replicate 3 (MCleanup 0) @ replicate 4 (MReg 0) @ [MAdvance 1, MAdvance 2]
    @ replicate 7 (MReg 1) @ replicate 2 (MCleanup 0)"
  obtain m where r: "mrun ?moves (queue_machine 2 1 0) = Some m" "regs m = [RHeld 0 0, RHeld 2 1]" "cleanups m = [QDone 0 2]"
    by (rule that [of "the (mrun ?moves (queue_machine 2 1 0))"]) code_simp+
  show ?thesis using mrun_mstep [OF r(1)] r(2,3) by auto
qed

text \<open>
  Undisturbed, the two collectors of the interleaved protocol compute what the sequential functions
  compute: the number below which the commit queue is cleaned, and the watermark together with the
  published floor.
\<close>
theorem undisturbed_collectors_agree:
  assumes "om_wf (slots (counter_by_commit self))" and "om_wf (slots (counter_by_oracle self))"
  shows "(\<exists>n. fst ((cleanup_alone ^^ n) (QIdle, \<lparr>tbl = counter_by_commit self, atomic = transaction_commit_id self, floor_cell = None\<rparr>))
        = QDone (transaction_commit_id self) (earliest_active_commit self (transaction_commit_id self)))
    \<and> (\<exists>n s. (gc_alone ^^ n) (VScan1 (current_time_ns (ts_oracle self) clk) None,
          \<lparr>tbl = counter_by_oracle self, atomic = timestamp (ts_oracle self), floor_cell = Some (gc_floor self)\<rparr>)
        = (VDone (fst (compute_cleanup_ts clk self)), s)
        \<and> floor_cell s = Some (gc_floor (snd (compute_cleanup_ts clk self))))"
proof
  let ?q = "\<lparr>tbl = counter_by_commit self, atomic = transaction_commit_id self, floor_cell = None\<rparr>"
  obtain n where "(cleanup_alone ^^ n) (QIdle, ?q)
      = (QDone (transaction_commit_id self) (earliest_active (counter_by_commit self) (transaction_commit_id self)), ?q)"
    using cleanup_alone_result [of ?q] assms(1) by auto
  then show "\<exists>n. fst ((cleanup_alone ^^ n) (QIdle, ?q))
      = QDone (transaction_commit_id self) (earliest_active_commit self (transaction_commit_id self))"
    by (intro exI [of _ n]) (simp add: earliest_active_commit_def)
next
  let ?v = "\<lparr>tbl = counter_by_oracle self, atomic = timestamp (ts_oracle self), floor_cell = Some (gc_floor self)\<rparr>"
  let ?now = "current_time_ns (ts_oracle self) clk"
  have "\<exists>n. (gc_alone ^^ n) (VScan1 ?now None, ?v) = (VDone (fst (compute_cleanup_ts clk self)),
      ?v\<lparr>floor_cell := Some (gc_floor (snd (compute_cleanup_ts clk self)))\<rparr>)"
    using gc_alone_result [of ?v, OF _ refl refl, of ?now] assms(2)
    by (simp add: compute_cleanup_ts_def earlist_active_version_def Let_def)
  then show "\<exists>n s. (gc_alone ^^ n) (VScan1 ?now None, ?v) = (VDone (fst (compute_cleanup_ts clk self)), s)
      \<and> floor_cell s = Some (gc_floor (snd (compute_cleanup_ts clk self)))" by fastforce
qed

theorem undisturbed_collectors_agree_witness:
  "\<exists>n. fst ((cleanup_alone ^^ n) (QIdle, \<lparr>tbl = counter_by_commit (sys_inner sample_s1), atomic = 0, floor_cell = None\<rparr>))
    = QDone 0 (earliest_active_commit (sys_inner sample_s1) 0)"
proof -
  have "counters_inv (counter_by_commit (sys_inner sample_s1)) (commit_handles (live sample_s1))"
    "counters_inv (counter_by_oracle (sys_inner sample_s1)) (version_handles (live sample_s1))"
    using reachable_inv [OF sample_reachable1] by (simp_all add: sys_inv_def)
  then have "om_wf (slots (counter_by_commit (sys_inner sample_s1)))" "om_wf (slots (counter_by_oracle (sys_inner sample_s1)))"
    by (simp_all add: counters_inv_def)
  from undisturbed_collectors_agree [OF this] show ?thesis by simp
qed

text \<open>
  C33: Commits are not atomic for a transaction opened while one is under way.  When a transaction is
  opened after a commit published its entry and before that commit merged its version, the commit is
  acknowledged, the new transaction still reads every key as it was before the commit, and its own
  write of any key, one the commit wrote included, is acknowledged too: the update is lost.
\<close>
theorem begin_inside_commit_loses_update:
  assumes "reachable s" "map_of (live s) i = Some tx" "\<not> tx_done tx" "tx_writeset tx \<noteq> []"
    and "commit_conflict tx (sys_inner s) = None" "persistence (sys_inner s) = None"
    and "transaction_commit_id (sys_inner s) + 1 < u64_MAX" "transaction_commit_id (sys_inner s) < u64_MAX"
    and "timestamp (ts_oracle (sys_inner s)) < u64_MAX" "Suc (length (live s)) < 2 ^ 64 - 1"
    and "commit_publish w tx (sys_inner s) = Some (Published ws self inner1)"
    and "transaction ((sys_db s)\<lparr>db_inner := inner1\<rparr>) True = Some (tx', db')"
  shows "\<exists>inner3. commit_apply w ws self (db_inner db') = Some (Inr (), closed_tx tx, inner3)
    \<and> fetch_in_datastore inner3 k (tx_version tx')
        = fetch_in_datastore (sys_inner s) k (timestamp (ts_oracle (sys_inner s)))
    \<and> (\<exists>tx3 inner4. commit w' (snd (set_value k v tx')) inner3 = Some (Inr (), tx3, inner4))"
  by (rule opened_between [OF reachable_inv [OF assms(1)] assms(2-12)])

theorem begin_inside_commit_loses_update_witness:
  "\<exists>tx2 inner3 tx3 inner4. fetch_in_datastore inner3 sample_key (tx_version tx2) = None
    \<and> commit sample_world (snd (set_value sample_key [9] tx2)) inner3 = Some (Inr (), tx3, inner4)"
proof -
  have c: "commit_conflict sample_tx2 (sys_inner sample_s2) = None"
    by (simp add: commit_conflict_def sample_s2_inner commit_range_def)
  have f: "\<not> tx_done sample_tx2" "tx_writeset sample_tx2 \<noteq> []" "transaction_commit_id (sys_inner sample_s2) < u64_MAX"
    "transaction_commit_id (sys_inner sample_s2) + 1 < u64_MAX" "timestamp (ts_oracle (sys_inner sample_s2)) < u64_MAX"
    "persistence (sys_inner sample_s2) = None" "Suc (length (live sample_s2)) < 2 ^ 64 - 1"
    by (simp_all add: sample_tx2_def sample_s2_inner word_less_nat_alt unat_u64_MAX)
  have wf: "sys_inv sample_s2" "inner_wf (sys_inner sample_s2)" "tx_wf sample_tx2"
    using reachable_inv [OF sample_reachable2] by (simp_all add: sys_inv_def live_ok_def)
  let ?s1 = "sample_s2\<lparr>sys_db := (sys_db sample_s2)\<lparr>db_inner := published_state sample_tx2 (sys_inner sample_s2)\<rparr>\<rparr>"
  obtain tx2 db2 where t: "transaction (sys_db ?s1) True = Some (tx2, db2)"
    using begin_returns [OF published_inv [OF wf(1,3) f(2,3)], of True] f(7) by auto
  have "fetch_in_datastore (sys_inner sample_s2) sample_key (timestamp (ts_oracle (sys_inner sample_s2))) = None"
    unfolding fetch_in_datastore_quiet [OF wf(2)] by (simp add: sample_s2_inner store_fetch_def)
  with begin_inside_commit_loses_update [where i = 0 and tx' = tx2 and db' = db2 and k = sample_key and v = "[9]"
      and w = sample_world and w' = sample_world,
      OF sample_reachable2 _ f(1,2) c f(6,4,3,5,7) publish_passing [OF wf(2) f(3,1,2) c]] t
  show ?thesis by auto
qed

section \<open>Concurrent commits\<close>

text \<open>
  C8: First committer wins, at the grain of single atomic accesses: whatever any number of committing
  threads and the clean-up of the queue do in between, two commits that pass the conflict scan have
  different numbers, and when the later one overlaps with what the earlier one wrote (in its writes, or in
  its reads at the serializable level), it started from a number that includes the earlier one.  The run
  is tidy: no entry is put into a free slot behind the current number.
\<close>
theorem concurrent_commits_are_ordered:
  assumes "pool_steps pub_next pub_tidy (pub_start s js) (s', ts)" and "shared_ok s" and "\<forall>j\<in>set js. job_wf j"
    and "i < length ts" and "k < length ts" and "i \<noteq> k"
    and "ts ! i = Committer ji (CPublished ci ei vi)" and "ts ! k = Committer jk (CPublished ck ek vk)"
    and "written ek \<inter> (fst ` set (jb_writeset ji)
        \<union> (if jb_mode ji = SerializableSnapshotIsolation then jb_readset ji else {})) \<noteq> {}"
  shows "vi \<noteq> vk \<and> (vk < vi \<longrightarrow> vk \<le> ci)"
proof -
  note t = tidy_published [OF assms(1-8)]
  have "\<not> compatible ji ek" using assms(9) by (auto simp: compatible_def split: if_splits)
  then show ?thesis using t(1,2) by force
qed

theorem concurrent_commits_are_ordered_witness:
  "\<exists>s e e' v v' c. pool_steps pub_next pub_tidy
      (pub_start empty_shared [single_write [1] (Some [7]), single_write [1] (Some [7])])
      (s, [QueueCleaner, Committer (single_write [1] (Some [7])) (CPublished 0 e v),
        Committer (single_write [1] (Some [7])) (CPublished c e' v')])
    \<and> v' \<noteq> v \<and> v < v' \<and> v \<le> c"
proof -
  let ?j = "single_write [1] (Some [7])"
  let ?sched = "map (\<lambda>i. (i, 0)) [1, 1, 1, 1, 1, 1, 2, 2, 2, 2, 2, 2] :: (nat \<times> u64) list"
  have two: "\<not> (2 :: u64) \<le> 1" by (simp add: word_le_nat_alt)
  have "pool_run pub_next pub_tidy ?sched (pub_start empty_shared [?j, ?j])
      = Some (\<lparr>sh_queue_id = 2, sh_commit_id = 2, sh_commit_queue =
            [(1, build_commit 1 [([1], Some [7])]), (2, build_commit 2 [([1], Some [7])])]\<rparr>,
          [QueueCleaner, Committer ?j (CPublished 0 (build_commit 1 [([1], Some [7])]) 1),
            Committer ?j (CPublished 1 (build_commit 2 [([1], Some [7])]) 2)])"
    by (simp add: pub_start_def empty_shared_def single_write_def pub_tidy_def pub_ok_def om_get_or_insert_def
        range_next_def cm_id_build_commit two)
  note run = pool_run_steps [OF this]
  have ord: "(2 :: u64) \<noteq> 1 \<and> ((1 :: u64) < 2 \<longrightarrow> (1 :: u64) \<le> 1)"
    by (rule concurrent_commits_are_ordered [OF run, where i = 2 and k = 1])
      (simp_all add: empty_shared_def shared_ok_def single_write_def job_wf_def readset_wf_empty om_wf_def, simp)
  show ?thesis by (intro exI conjI, rule run) (use ord two in auto)
qed

text \<open>
  C34: Without that restriction the check can be passed by both.  For any two keys there is a run in which
  two transactions start from the same number, write the same key and both pass: between them a third
  commit withdraws its entry, and its number is used a second time.
\<close>
theorem reused_commit_number_loses_update:
  assumes "a \<noteq> b"
  shows "\<exists>s ts e e' v v'. pool_steps pub_next pub_ok
      (pub_start empty_shared [single_write a va, single_write a vb, single_write b vc, single_write b vd]) (s, ts)
    \<and> Committer (single_write b vc) (CPublished 0 e v) = ts ! 3 \<and> Committer (single_write b vd) (CPublished 0 e' v') = ts ! 4
    \<and> v < v' \<and> b \<in> written e \<and> b \<in> written e'"
proof -
  obtain s where "pool_run pub_next pub_ok reuse_schedule
      (pub_start empty_shared [single_write a va, single_write a vb, single_write b vc, single_write b vd])
    = Some (s, [QueueCleaner, Committer (single_write a va) (CPublished 0 (build_commit 1 [(a, va)]) 1),
        Committer (single_write a vb) (CFailed KeyWriteConflict),
        Committer (single_write b vc) (CPublished 0 (build_commit 3 [(b, vc)]) 2),
        Committer (single_write b vd) (CPublished 0 (build_commit 4 [(b, vd)]) 3)])"
    using reuse_run [OF assms] by blast
  from pool_run_steps [OF this] show ?thesis
    by (intro exI conjI, assumption) (simp, simp, simp+)
qed

theorem reused_commit_number_loses_update_witness:
  "\<exists>s ts e e' v v'. pool_steps pub_next pub_ok
      (pub_start empty_shared [single_write [1] None, single_write [1] None, single_write [2] (Some [5]), single_write [2] (Some [6])]) (s, ts)
    \<and> Committer (single_write [2] (Some [5])) (CPublished 0 e v) = ts ! 3
    \<and> Committer (single_write [2] (Some [6])) (CPublished 0 e' v') = ts ! 4
    \<and> v < v' \<and> [2] \<in> written e \<and> [2] \<in> written e'"
  by (rule reused_commit_number_loses_update) simp

text \<open>
  C14: Progress.  From every state that any number of committing threads and the clean-up can reach, every
  commit can still be decided: some continuation of the run publishes it or refuses it.  The retry loop can
  be held up only by a thread that has taken the next slot, and one access of that thread frees it.
\<close>
theorem every_commit_can_be_decided:
  assumes "pool_steps pub_next pub_ok (pub_start s js) (s', ts)"
    and "\<And>v e. map_of (sh_commit_queue s) v = Some e \<Longrightarrow> v \<le> sh_commit_id s"
    and "i < length ts" and "ts ! i \<noteq> QueueCleaner"
    and "unat (sh_commit_id s') + 2 < 2 ^ 64 - 1" and "unat (sh_queue_id s') + 1 < 2 ^ 64 - 1"
  shows "\<exists>s'' ts'. pool_steps pub_next pub_ok (s', ts) (s'', ts') \<and> decided (ts' ! i)"
proof -
  have q: "sh_queue_id s' < u64_MAX" using assms(6) by (simp add: word_less_nat_alt unat_u64_MAX)
  moreover have "sh_queue_id s' + 1 < u64_MAX"
    using assms(6) unat_u64_Suc [OF q] by (simp add: word_less_nat_alt unat_u64_MAX)
  moreover have "slots_within (s', ts)" by (rule slots_within_steps [OF assms(1) pub_start_within [OF assms(2)]])
  ultimately have "can_decide i (s', ts)"
    using assms(3-5) by (intro any_decides) (simp_all add: numbers_left_def)
  then show ?thesis by (auto simp: can_decide_def)
qed

theorem every_commit_can_be_decided_witness:
  "\<exists>s'' ts'. pool_steps pub_next pub_ok (pub_start empty_shared [single_write [1] (Some [7]), single_write [1] None]) (s'', ts')
    \<and> decided (ts' ! 2)"
  using every_commit_can_be_decided [of empty_shared "[single_write [1] (Some [7]), single_write [1] None]"
      "fst (pub_start empty_shared [single_write [1] (Some [7]), single_write [1] None])"
      "snd (pub_start empty_shared [single_write [1] (Some [7]), single_write [1] None])" 2]
  by (simp add: pub_start_def empty_shared_def)

text \<open>
  C9: Reads against concurrent merges, at the grain of single accesses: a read in any tidy run returns what
  the merges accepted so far leave at the key, in the order of their acceptance and as far as the snapshot
  reaches, and a later read of the same key at the same snapshot returns the same value.  A run is tidy
  when every merge enters above the timestamp and shares no key with a merge that is still in the queue.
\<close>
theorem concurrent_reads_repeat:
  assumes "pool_steps merge_next merge_tidy (merge_start t0 ds wss n) (s, ts)"
    and "pool_steps merge_next merge_tidy (s, ts) (s', ts')"
    and "store_wf ds" and "store_newest_le ds t0" and "\<forall>ws\<in>set wss. om_wf ws"
    and "Reader (RdGot v k x) \<in> set ts" and "Reader (RdGot v k y) \<in> set ts'"
  shows "x = last_value (store_fetch ds k v) (ms_history s) k v \<and> y = x"
proof -
  note x = tidy_read [OF assms(1,3-6)]
  note y = tidy_read [OF rtranclp_trans [OF assms(1,2)] assms(3-5,7)]
  have "merging.pool_ok t0 ds (s, ts)" using merging.steps_ok [OF assms(1) merge_start_ok [OF assms(3-5)]] .
  with tidy_history [OF assms(2), of t0 ds v "store_fetch ds k v" k] x y show ?thesis by simp
qed

theorem concurrent_reads_repeat_witness:
  "Some [7] = last_value (store_fetch [] [1] 8) [(8, \<lparr>mg_id = 1, mg_writeset = [([1], Some [7])]\<rparr>)] [1] 8 \<and> Some [7] = Some [7]"
proof -
  let ?p = "merge_start 5 [] [[([1], Some [7])]] 1"
  let ?m = "\<lparr>mg_id = 1, mg_writeset = [([1], Some [7])]\<rparr>"
  let ?s = "\<lambda>q d. \<lparr>ms_timestamp = 8, ms_merge_id = 1, ms_queue = q, ms_store = d, ms_history = [(8, ?m)]\<rparr>"
  have 1: "pool_run merge_next merge_tidy (asking [1] [(0, 8), (0, 8), (0, 8), (0, 8), (0, 8), (1, 0), (1, 0), (1, 0), (1, 0)]) ?p
      = Some (?s [(8, ?m)] [], [Writer [([1], Some [7])] (WStore ?m 8 [([1], Some [7])]), Reader (RdGot 8 [1] (Some [7]))])"
    by code_simp
  have 2: "pool_run merge_next merge_tidy (asking [1] [(0, 8), (0, 8), (0, 8), (1, 0), (1, 0), (1, 0), (1, 0)])
      (?s [(8, ?m)] [], [Writer [([1], Some [7])] (WStore ?m 8 [([1], Some [7])]), Reader (RdGot 8 [1] (Some [7]))])
      = Some (?s [] [([1], [\<lparr>version = 8, value_of = Some [7]\<rparr>])], [Writer [([1], Some [7])] (WDone 8), Reader (RdGot 8 [1] (Some [7]))])"
    by code_simp
  show ?thesis
    using concurrent_reads_repeat [OF pool_run_steps [OF 1] pool_run_steps [OF 2], of 8 "[1]" "Some [7]" "Some [7]"]
    by (simp add: store_wf_def store_newest_le_def om_wf_def)
qed

text \<open>
  C35: A merge that took its version early can enter late.  Its version is then below a snapshot opened
  meanwhile, and that snapshot reads one value before and another after, with no commit of its own.
\<close>
theorem late_merge_changes_snapshot:
  assumes "k \<noteq> k'"
  shows "\<exists>s ts s' ts'. pool_steps merge_next merge_any
      (merge_start 5 [(k, Versions_from \<lparr>version = 3, value_of = Some x\<rparr>)] [[(k, Some y)], [(k', z)]] 1) (s, ts)
    \<and> pool_steps merge_next merge_any (s, ts) (s', ts')
    \<and> ts ! 2 = Reader (RdGot 8 k (Some x)) \<and> ts' ! 2 = Reader (RdGot 8 k (Some y))"
proof -
  from late_entry_run [OF assms, of x y z] obtain s w s' w' w2 where
    "pool_run merge_next merge_any (asking k until_first_read)
      (merge_start 5 [(k, Versions_from \<lparr>version = 3, value_of = Some x\<rparr>)] [[(k, Some y)], [(k', z)]] 1)
      = Some (s, [w, w2, Reader (RdGot 8 k (Some x))])"
    "pool_run merge_next merge_any (asking k entry_and_second_read) (s, [w, w2, Reader (RdGot 8 k (Some x))])
      = Some (s', [w', w2, Reader (RdGot 8 k (Some y))])" by blast
  from this [THEN pool_run_steps] show ?thesis
    by (intro exI [of _ s] exI [of _ "[w, w2, Reader (RdGot 8 k (Some x))]"] exI [of _ s']
        exI [of _ "[w', w2, Reader (RdGot 8 k (Some y))]"]) simp
qed

theorem late_merge_changes_snapshot_witness:
  "\<exists>s ts s' ts'. pool_steps merge_next merge_any
      (merge_start 5 [([1], Versions_from \<lparr>version = 3, value_of = Some [7]\<rparr>)] [[([1], Some [8])], [([2], None)]] 1) (s, ts)
    \<and> pool_steps merge_next merge_any (s, ts) (s', ts')
    \<and> ts ! 2 = Reader (RdGot 8 [1] (Some [7])) \<and> ts' ! 2 = Reader (RdGot 8 [1] (Some [8]))"
  by (rule late_merge_changes_snapshot) simp

text \<open>
  C36: Two commits of one key in the merge queue: when the newer one leaves first, its value is hidden
  behind the older one, so a snapshot that covers both reads the older value and later the newer one.
\<close>
theorem overtaken_merge_hides_newer:
  "\<exists>s ts s' ts'. pool_steps merge_next merge_any (merge_start 5 [] [[(k, Some x)], [(k, Some y)]] 1) (s, ts)
    \<and> pool_steps merge_next merge_any (s, ts) (s', ts')
    \<and> ts ! 2 = Reader (RdGot 8 k (Some x)) \<and> ts' ! 2 = Reader (RdGot 8 k (Some y))"
proof -
  from overtaking_run [of k x y] obtain s w s' w' w2 where
    "pool_run merge_next merge_any (asking k until_hidden_read) (merge_start 5 [] [[(k, Some x)], [(k, Some y)]] 1)
      = Some (s, [w, w2, Reader (RdGot 8 k (Some x))])"
    "pool_run merge_next merge_any (asking k leave_and_second_read) (s, [w, w2, Reader (RdGot 8 k (Some x))])
      = Some (s', [w', w2, Reader (RdGot 8 k (Some y))])" by blast
  from this [THEN pool_run_steps] show ?thesis
    by (intro exI [of _ s] exI [of _ "[w, w2, Reader (RdGot 8 k (Some x))]"] exI [of _ s']
        exI [of _ "[w', w2, Reader (RdGot 8 k (Some y))]"]) simp
qed

text \<open>
  C18: Undisturbed, the machines of the concurrent commit are the sequential commit: the publishing thread
  ends with the error of a refused commit or published at the next number, the merging thread ends with the
  data store, the timestamp and the queue of the sequential call, and a reading thread returns what the
  sequential read returns.
\<close>
theorem undisturbed_commit_agrees:
  assumes "reachable s" and "map_of (live s) i = Some tx" and "\<not> tx_done tx" and "tx_writeset tx \<noteq> []"
    and "transaction_commit_id (sys_inner s) < u64_MAX" and "timestamp (ts_oracle (sys_inner s)) < u64_MAX"
    and "commit w tx (sys_inner s) = Some (r, tx', db')"
  shows "((\<exists>n x. r = Inl x \<and> merge_memory h db' = merge_memory h (sys_inner s)
          \<and> (commit_alone (job_of_tx tx) ^^ n) (CTakeId (tx_commit tx), commit_memory (sys_inner s)) = (CFailed x, commit_memory db'))
      \<or> (\<exists>n e m v u. (commit_alone (job_of_tx tx) ^^ n) (CTakeId (tx_commit tx), commit_memory (sys_inner s))
            = (CPublished (tx_commit tx) e (transaction_commit_id db'), commit_memory db')
          \<and> (write_alone (current_time_ns (ts_oracle (sys_inner s)) (w_clock w 0)) (tx_writeset tx) ^^ m)
              (WTakeId, merge_memory h (sys_inner s)) = (WDone v, merge_memory (h @ [(v, u)]) db')))
    \<and> (\<exists>n. (read_alone k ^^ n) (RdOpen snapshot_version, merge_memory h db')
          = (RdGot snapshot_version k (fetch_in_datastore db' k snapshot_version), merge_memory h db'))"
proof
  let ?db = "sys_inner s"
  have inv: "sys_inv s" by (rule reachable_inv [OF assms(1)])
  have wf: "inner_wf ?db" "queue_wf (transaction_commit_queue ?db) (transaction_commit_id ?db)" "tx_wf tx"
    using inv sys_inv_live(1) [OF inv assms(2)] by (simp_all add: sys_inv_def inner_wf_def live_ok_def)
  note pub = alone_publish [OF wf(2) assms(5,3,4), of w]
  show "(\<exists>n x. r = Inl x \<and> merge_memory h db' = merge_memory h ?db
          \<and> (commit_alone (job_of_tx tx) ^^ n) (CTakeId (tx_commit tx), commit_memory ?db) = (CFailed x, commit_memory db'))
      \<or> (\<exists>n e m v u. (commit_alone (job_of_tx tx) ^^ n) (CTakeId (tx_commit tx), commit_memory ?db)
            = (CPublished (tx_commit tx) e (transaction_commit_id db'), commit_memory db')
          \<and> (write_alone (current_time_ns (ts_oracle ?db) (w_clock w 0)) (tx_writeset tx) ^^ m)
              (WTakeId, merge_memory h ?db) = (WDone v, merge_memory (h @ [(v, u)]) db'))"
  proof (cases "commit_conflict tx ?db")
    case (Some e)
    note c = commit_conflicting [OF wf(1) assms(5,3,4) Some, of w]
    have "merge_memory h db' = merge_memory h ?db" using c assms(7) by (simp add: merge_memory_def)
    moreover from publish_conflicting [OF wf(1) assms(5,3,4) Some, of w] assms(7)
    obtain self where "commit_publish w tx ?db = Some (Finished r self db')" by (auto simp: commit_split)
    ultimately show ?thesis using pub by auto
  next
    case None
    let ?p = "published_state tx ?db"
    note p = publish_passing [OF wf(1) assms(5,3,4) None, of w]
    have m: "commit_apply w (tx_writeset tx) (tx\<lparr>tx_done := True, tx_writeset := []\<rparr>) ?p = Some (r, tx', db')"
      using assms(7) p by (simp add: commit_split)
    have "inner_wf ?p" using published_inv [OF inv wf(3) assms(4,5)] by (simp add: sys_inv_def)
    note a = alone_apply [OF this m, of h]
    have eq: "merge_memory h ?p = merge_memory h ?db" "ts_oracle ?p = ts_oracle ?db"
      by (simp_all add: merge_memory_def published_state_def)
    have "commit_memory ?p = commit_memory db'" "transaction_commit_id db' = transaction_commit_id ?db + 1"
      using commit_passing [OF wf(1) assms(5,3,4) None, of w] assms(7)
      by (auto simp: commit_memory_def published_state_def committed_state_def)
    with pub p a eq show ?thesis by simp
  qed
  have "inner_wf db'"
    using reachable_inner_wf [OF reachable_step [OF assms(1) step_commit [OF assms(2,7,6,5)]]] by simp
  then show "\<exists>n. (read_alone k ^^ n) (RdOpen snapshot_version, merge_memory h db')
          = (RdGot snapshot_version k (fetch_in_datastore db' k snapshot_version), merge_memory h db')"
    by (intro alone_read) (simp add: inner_wf_def)
qed

theorem undisturbed_commit_agrees_witness:
  "\<exists>n e v. (commit_alone (job_of_tx sample_tx2) ^^ n) (CTakeId (tx_commit sample_tx2), commit_memory (sys_inner sample_s2))
      = (CPublished (tx_commit sample_tx2) e v, commit_memory (sys_inner sample_s3))"
proof -
  have "map_of (live sample_s2) 0 = Some sample_tx2" "\<not> tx_done sample_tx2" "tx_writeset sample_tx2 \<noteq> []"
    "transaction_commit_id (sys_inner sample_s2) < u64_MAX" "timestamp (ts_oracle (sys_inner sample_s2)) < u64_MAX"
    by (simp_all add: sample_tx2_def sample_s2_inner word_less_nat_alt unat_u64_MAX)
  from undisturbed_commit_agrees [OF sample_reachable2 this sample_commit, of "[]" "[]" 0] show ?thesis
    by (auto simp: sample_s3_def)
qed

text \<open>
  C10: The handshake between commits and the version collector, at the grain of single accesses.  Whatever
  any number of writers, collectors and readers do in between, the store shows at every snapshot that is
  not below a collection exactly the writes that took effect, in their order; a finished writer's writes
  are all among them, although the collector may take an entry out of the store while a writer waits for
  its lock; and a reader that has an answer read those writes.  The runs are tidy: writes of one key come
  in the order of their versions, and collections stay below the snapshots that are reading.
\<close>
theorem collector_keeps_concurrent_writes:
  assumes "pool_steps coll_next coll_tidy (coll_start ds wss m n) (s, ts)" and "store_wf ds"
  shows "(\<forall>k v. nd_cut s \<le> v \<longrightarrow> entry_read s k v = history_value (nd_history s) k v)
    \<and> (\<forall>ver ws k x. Putter ver ws (PGet []) \<in> set ts \<longrightarrow> (k, x) \<in> set ws \<longrightarrow>
         (k, \<lparr>version = ver, value_of = x\<rparr>) \<in> set (nd_history s))
    \<and> (\<forall>v k y. Finder (SGot v k y) \<in> set ts \<longrightarrow> y = history_value (nd_history s) k v)"
  using tidy_collection [OF assms] by blast

theorem collector_keeps_concurrent_writes_witness:
  "\<exists>s. pool_steps coll_next coll_tidy (coll_start [([1], [\<lparr>version = 3, value_of = None\<rparr>])] [(8, [([1], Some [7])])] 1 1)
      (s, [Putter 8 [([1], Some [7])] (PGet []), Collector GNext, Finder (SGot 8 [1] (Some [7]))])
    \<and> nd_removed (nd_heap s ! 0) \<and> Some [7] = history_value (nd_history s) [1] 8
    \<and> ([1], \<lparr>version = 8, value_of = Some [7]\<rparr>) \<in> set (nd_history s)"
proof -
  let ?p = "coll_start [([1], [\<lparr>version = 3, value_of = None\<rparr>])] [(8, [([1], Some [7])])] 1 1"
  let ?sched = "[(0, 0, [])] @ replicate 6 (1, 5, [1]) @ replicate 9 (0, 0, []) @ replicate 3 (2, 8, [1])"
  let ?ts = "[Putter 8 [([1], Some [7])] (PGet []), Collector GNext, Finder (SGot 8 [1] (Some [7]))]"
  have "map_option (\<lambda>(s, ts). (ts, nd_removed (nd_heap s ! 0))) (pool_run coll_next coll_tidy ?sched ?p) = Some (?ts, True)"
    by code_simp
  then obtain s where s: "pool_run coll_next coll_tidy ?sched ?p = Some (s, ?ts)" "nd_removed (nd_heap s ! 0)" by auto
  note run = pool_run_steps [OF s(1)]
  have "store_wf [([1], [\<lparr>version = 3, value_of = None\<rparr>])]" by (simp add: store_wf_def versions_wf_def om_wf_def)
  note kept = collector_keeps_concurrent_writes [OF run this]
  have "Some [7] = history_value (nd_history s) [1] 8" by (rule kept [THEN conjunct2, THEN conjunct2, rule_format]) simp
  moreover have "([1], \<lparr>version = 8, value_of = Some [7]\<rparr>) \<in> set (nd_history s)"
    by (rule kept [THEN conjunct2, THEN conjunct1, rule_format, of 8 "[([1], Some [7])]"]) simp_all
  ultimately show ?thesis using run s(2) by blast
qed

text \<open>
  C15: No write is stuck.  From every state that writers, collectors and readers can reach in any order,
  every writer can still finish: locks are always released, and a writer that finds its entry removed
  finds or makes another one.
\<close>
theorem every_chain_write_can_finish:
  assumes "pool_steps coll_next coll_any (coll_start ds wss m n) (s, ts)" and "store_wf ds"
    and "i < length ts" and "ts ! i = Putter ver ws pc"
  shows "\<exists>s' ts'. pool_steps coll_next coll_any (s, ts) (s', ts') \<and> ts' ! i = Putter ver ws (PGet [])"
  by (rule write_can_finish [OF links_steps [OF assms(1) links_start [OF assms(2)]] assms(3,4)])

theorem every_chain_write_can_finish_witness:
  "\<exists>s' ts'. pool_steps coll_next coll_any (coll_start [] [(8, [([1], Some [7])]), (9, [([1], None)])] 1 1) (s', ts')
    \<and> ts' ! 1 = Putter 9 [([1], None)] (PGet [])"
  using every_chain_write_can_finish [of "[]" "[(8, [([1], Some [7])]), (9, [([1], None)])]" 1 1
      "fst (coll_start [] [(8, [([1], Some [7])]), (9, [([1], None)])] 1 1)"
      "snd (coll_start [] [(8, [([1], Some [7])]), (9, [([1], None)])] 1 1)" 1 9 "[([1], None)]" "PGet [([1], None)]"]
  by (simp add: coll_start_def store_wf_def om_wf_def)

text \<open>
  C19: Undisturbed, a writer and a collector of the interleaved protocol are the sequential functions: the
  writer leaves the data store and the queue of dirty keys that the loop of the sequential commit leaves,
  and the collector the data store after \<open>gc_key\<close>.
\<close>
theorem undisturbed_writes_agree:
  assumes "store_wf ds"
  shows "(\<exists>n s'. (put_alone ver ^^ n) (PGet ws, nodes_of ds) = (PGet [], s')
        \<and> store_of s' = fold (ds_write ver) ws ds \<and> nd_dirty s' = map fst ws)
    \<and> (\<exists>n s'. (collect_alone ^^ n) (GFind c k, nodes_of ds) = (GNext, s') \<and> store_of s' = gc_key_store k c ds)"
proof
  note q = nodes_of_quiet [OF assms]
  have d: "nd_dirty (nodes_of ds) = []" by (simp add: nodes_of_def)
  from put_alone_all [OF q(1,2), of ver ws] q(3) d
  show "\<exists>n s'. (put_alone ver ^^ n) (PGet ws, nodes_of ds) = (PGet [], s')
        \<and> store_of s' = fold (ds_write ver) ws ds \<and> nd_dirty s' = map fst ws" by auto
  from collect_alone_key [OF q(1,2), of c k] q(3)
  show "\<exists>n s'. (collect_alone ^^ n) (GFind c k, nodes_of ds) = (GNext, s') \<and> store_of s' = gc_key_store k c ds" by auto
qed

theorem undisturbed_writes_agree_witness:
  "\<exists>n s'. (collect_alone ^^ n) (GFind 9 [1], nodes_of [([1], [\<lparr>version = 3, value_of = None\<rparr>])]) = (GNext, s')
    \<and> store_of s' = gc_key_store [1] 9 [([1], [\<lparr>version = 3, value_of = None\<rparr>])]"
  using undisturbed_writes_agree [of "[([1], [\<lparr>version = 3, value_of = None\<rparr>])]"]
  by (simp add: store_wf_def versions_wf_def om_wf_def)


section \<open>Client programs\<close>

text \<open>
  C16: The example programs, end to end.  On every fresh database, with the background threads taking steps
  anywhere between the calls, each program runs to its end and every run of it returns the same results:
  the first reads what it wrote and committed; under snapshot isolation both doctors go off call; under
  serializable snapshot isolation the second commit is refused with a read conflict and one stays; two
  serializable transactions without a common key both commit.
\<close>
theorem example_programs_observe:
  assumes "new_with_options opts (Some unix) clk = Some db" and "unix < 2 ^ 63"
  shows "observes db basic_main
      [done_ok, done_ok, RBool (Inr True), found ''value1'', found ''value2'', done_ok,
       found ''value1'', found ''value2'', done_ok, done_ok, done_ok, found ''value3'', absent, found ''value2'']
    \<and> observes db write_skew_si
      [done_ok, done_ok, done_ok, found ''true'', done_ok, found ''true'', done_ok, done_ok, done_ok, found ''false'', found ''false'']
    \<and> observes db write_skew_ssi
      [done_ok, done_ok, done_ok, found ''true'', done_ok, found ''true'', done_ok, done_ok, RUnit (Inl KeyReadConflict),
       found ''false'', found ''true'']
    \<and> observes db ssi_no_conflict [absent, done_ok, absent, done_ok, done_ok, done_ok]"
  by (intro conjI observesI [OF assms(1)] basic_main_results write_skew_si_results write_skew_ssi_results ssi_no_conflict_results)
    (use assms(2) in \<open>simp_all add: basic_main_def write_skew_si_def write_skew_ssi_def ssi_no_conflict_def
      skew_setup_def skew_body_def\<close>)

theorem example_programs_observe_witness:
  "observes sample_db write_skew_ssi
      [done_ok, done_ok, done_ok, found ''true'', done_ok, found ''true'', done_ok, done_ok, RUnit (Inl KeyReadConflict),
       found ''false'', found ''true'']"
  using example_programs_observe [OF sample_new] by simp



section \<open>The server\<close>

text \<open>
  The server is a map.  From every state in which the numbers are not exhausted, each routed request
  returns the answer the map of current contents gives (a conflict for an insertion of a present
  key) and leaves the contents that answer prescribes; every other method and path is unrouted.
\<close>
theorem server_refines_map:
  assumes "serving s"
  shows "case map_server lossy m path req (contents s) of
      None \<Rightarrow> make_app lossy w (sys_db s) m path req = None
    | Some (r, c) \<Rightarrow> \<exists>db'. make_app lossy w (sys_db s) m path req = Some (Some (r, db'))
        \<and> reachable (s\<lparr>sys_db := db'\<rparr>) \<and> contents (s\<lparr>sys_db := db'\<rparr>) = c"
  by (rule make_app_serves [OF assms])

theorem server_refines_map_witness:
  "\<exists>db'. make_app id sample_world (sys_db sample_s0) POST ''/update'' (WriteRequest [1] [2])
      = Some (Some (Inr (WriteResponse [1] [2]), db'))
    \<and> contents (sample_s0\<lparr>sys_db := db'\<rparr>) = (contents sample_s0)([1] \<mapsto> [2])"
  using server_refines_map [where s = sample_s0 and m = POST and path = "''/update''" and req = "WriteRequest [1] [2]"
    and w = sample_world and lossy = id] sample_serving by auto

text \<open>
  C11: Sessions of the server are sessions of a map.  Whatever requests come one after another, with steps of
  the background threads in between, the answers and the contents left are those of the map; and in every
  state with numbers to spare the next request to a route is answered.
\<close>
theorem server_sessions_refine_map:
  assumes "session lossy s reqs rs s'" and "reachable s"
  shows "map_session lossy reqs (contents s) = Some (rs, contents s')
    \<and> (serving s' \<and> map_server lossy m path req (contents s') \<noteq> None \<longrightarrow>
        (\<exists>r s''. session lossy s (reqs @ [(m, path, req)]) (rs @ [r]) s''))"
  using session_answers [OF assms] session_continues [OF assms(1)] by blast

theorem server_sessions_refine_map_witness:
  "\<exists>r s'. session id sample_s0 [(POST, ''/update'', WriteRequest [1] [2])] [r] s'
    \<and> map_session id [(POST, ''/update'', WriteRequest [1] [2])] (contents sample_s0) = Some ([r], contents s')"
proof -
  have "reachable sample_s0" using sample_serving by (simp add: serving_def)
  note base = server_sessions_refine_map [OF session_end this]
  have "\<exists>r s'. session id sample_s0 [(POST, ''/update'', WriteRequest [1] [2])] [r] s'"
    using base [of id POST "''/update''" "WriteRequest [1] [2]"] sample_serving by simp
  then show ?thesis using server_sessions_refine_map [OF _ \<open>reachable sample_s0\<close>] by blast
qed

section \<open>The C interface\<close>





text \<open>
  A read with a place for the value and none for its length hands out a dangling pointer: the call
  succeeds, the caller's pointer is set, and the block it points to has been freed.
\<close>
theorem c_read_without_length_dangles:
  assumes "c_wf h" and "sk_tx_get a k True False eo h = Some (r, h')" and "code r = SK_OK"
  shows "val_ptr r \<noteq> 0 \<and> h_values h' (val_ptr r) = None"
  using assms(1,2)
proof (cases rule: sk_tx_get_cases)
  case (found v h1)
  with hand_out_heap [OF found(1,4)] show ?thesis by simp
next
  case (error c msg h1)
  with guard_heap(1) [OF error(2,5)] assms(3) show ?thesis by (simp add: sk_codes)
qed (use assms(3) in \<open>simp_all add: ret_def sk_codes\<close>)

theorem c_read_without_length_dangles_witness:
  "\<exists>r h'. sk_tx_get 6 (Buf [1]) True False True (store_tx 6 5 (snd (set_value [1] [2] sample_tx)) sample_heap) = Some (r, h')
    \<and> val_ptr r \<noteq> 0 \<and> h_values h' (val_ptr r) = None"
proof -
  let ?h = "store_tx 6 5 (snd (set_value [1] [2] sample_tx)) sample_heap"
  have wf: "c_wf ?h" by (rule store_tx_wf [OF sample_heap_wf]) (simp add: sample_heap_def)
  have "get inner [1] (snd (set_value [1] [2] sample_tx)) = (Inr (Some [2]), snd (set_value [1] [2] sample_tx))" for inner
    by (simp add: get_def set_value_def)
  moreover have "lock_tx 6 ?h = Some (5, sys_db sample_s1, Some (snd (set_value [1] [2] sample_tx)))"
    by (simp add: lock_tx_def store_tx_def sample_heap_def)
  ultimately obtain r h' where r: "sk_tx_get 6 (Buf [1]) True False True ?h = Some (r, h')" "code r = SK_OK"
    by (cases "hand_out [2] True False (store_tx 6 5 (snd (set_value [1] [2] sample_tx)) ?h)")
      (use value_result in \<open>auto simp: sk_tx_get_def\<close>)
  from c_read_without_length_dangles [OF wf r] r show ?thesis by blast
qed

section \<open>The Python interface\<close>

text \<open>
  C39: Leaving a \<open>with\<close> block hides a failed commit: when the commit of the block's transaction fails, no
  exception is raised, the object is closed, and the explicit commit that should show the error
  raises \<open>TxClosed\<close> instead.
\<close>
theorem python_exit_hides_failed_commit:
  assumes "\<not> tx_done t" and "commit w t db = Some (Inl e, t', db')"
  shows "py_exit w True (Some t) db = Some (False, Some t', db') \<and> py_closed (Some t')
    \<and> py_commit w (Some t') db' = Some (Inl (tx_err_to_py TxClosed), Some t', db')"
  using assms commit_done [OF assms(2)] by (simp add: py_exit_def py_closed_def py_commit_def commit_closed)

theorem python_exit_hides_failed_commit_witness:
  "\<exists>w t db t' db'. commit w t db = Some (Inl KeyWriteConflict, t', db')
    \<and> py_exit w True (Some t) db = Some (False, Some t', db')"
proof -
  from sample_conflict obtain s s' tx where s: "step s (Committed 1 (Inl KeyWriteConflict)) s'" "map_of (live s) 1 = Some tx"
    by blast
  then obtain w t' inner' where c: "commit w tx (sys_inner s) = Some (Inl KeyWriteConflict, t', inner')"
    by (cases rule: step.cases) auto
  then have "\<not> tx_done tx" by (auto simp: commit_closed)
  from python_exit_hides_failed_commit [OF this c] c show ?thesis by blast
qed

section \<open>Divergences\<close>

text \<open>
  A log that grew while a snapshot was taken is not cut down to the part after the snapshot: the
  bytes after the cut-off are appended once more and everything before it stays.
\<close>
theorem grown_log_is_not_truncated:
  assumes "no_faults env" and "aol p" and "unat position < length (file_of p (aol_path p))"
  shows "fst (truncate_aol env position p) = Inr ()
    \<and> file_of (snd (truncate_aol env position p)) (aol_path p)
      = file_of p (aol_path p) @ drop (unat position) (file_of p (aol_path p))"
  using truncate_grown [OF assms] by simp

theorem grown_log_is_not_truncated_witness:
  "file_of (snd (truncate_aol quiet_env 1 (write_file ''/d/aol.bin'' [1, 2, 3] sample_p))) ''/d/aol.bin'' = [1, 2, 3, 2, 3]"
proof -
  have "no_faults quiet_env" by (simp add: quiet_env_def)
  from grown_log_is_not_truncated [OF this, of "write_file ''/d/aol.bin'' [1, 2, 3] sample_p" 1] show ?thesis
    by (simp add: file_of_def)
qed

text \<open>
  A key deleted in the same transaction reads as absent, but \<open>exists\<close> still answers true for it and
  \<open>put\<close> refuses it as already existing.
\<close>
theorem deleted_key_still_exists:
  assumes "\<not> tx_done tx" and "tx_write tx"
  shows "fst (get db k (snd (del k tx))) = Inr None \<and> fst (exists db k (snd (del k tx))) = Inr True
    \<and> fst (put db k v (snd (del k tx))) = Inl KeyAlreadyExists"
  using assms by (simp add: get_def exists_def put_def del_def map_of_om_insert)

theorem deleted_key_still_exists_witness:
  "fst (exists (db_inner sample_db) [1] (snd (del [1] sample_tx))) = Inr True"
  using deleted_key_still_exists [of sample_tx "db_inner sample_db" "[1]" "[]"] by simp


text \<open>
  A database opened on existing files starts its oracle at the wall clock, whatever versions the
  files hold, so entries newer than the clock are outside every snapshot taken until the clock or a
  commit passes them.
\<close>
theorem load_does_not_move_oracle:
  assumes "new_with_persistence cdc env opts popts disk (Some n) clk = Some (Inr db)"
    and "transaction db wr = Some (tx, db')"
  shows "tx_version tx = of_nat n"
proof -
  obtain inner p ds where i: "Inner_new opts (Some n) clk = Some inner"
    "db = start_workers opts (Database_of opts (inner\<lparr>datastore := ds, persistence := Some p\<rparr>))"
    by (rule new_with_persistence_parts [OF assms(1)])
  from i(1) have t: "timestamp (ts_oracle inner) = of_nat n" "gc_floor inner = 0" "counter_by_oracle inner = Counters_new"
    by (auto simp: Inner_new_def Oracle_new_def current_unix_ns_def background_resync_def)
  obtain a b where d: "db_inner db = inner\<lparr>datastore := ds, persistence := Some p, transaction_cleanup_handle := a,
      garbage_collection_handle := b\<rparr>"
    using start_workers_inner [of opts "Database_of opts (inner\<lparr>datastore := ds, persistence := Some p\<rparr>)"]
    by (auto simp: i(2) Database_of_def)
  have "counters_inv (counter_by_oracle (db_inner db)) {#}" using t counters_inv_new by (simp add: d)
  from register_version_ok [OF this] t obtain c tv where
    "register_version (db_inner db) = Some (of_nat n, c, (db_inner db)\<lparr>counter_by_oracle := tv\<rparr>)"
    by (auto simp: d)
  with assms(2) show ?thesis
    by (auto simp: transaction_def Pool_get_eq_new TransactionInner_new_def split: option.splits)
qed

theorem load_does_not_move_oracle_witness:
  "\<exists>tx db'. transaction sample_pdb True = Some (tx, db') \<and> tx_version tx = 1000"
proof -
  have r: "reachable \<lparr>sys_db = sample_pdb, live = []\<rparr>"
    by (rule reachable_loaded [OF sample_pdb_new(1)]) (simp add: sample_pdb_new store_newest_le_def)
  obtain tx db' where t: "transaction sample_pdb True = Some (tx, db')"
    using begin_returns [OF reachable_inv [OF r], of True] by auto
  with load_does_not_move_oracle [OF sample_pdb_new(1) t] show ?thesis by auto
qed

text \<open>
  Dropping a repeated value forgets the version that repeated it: after a newer write of the same
  value, a late write of an older version changes what the newer snapshot reads.
\<close>
theorem repeated_value_is_forgotten:
  assumes "u < v" and "v < w" and "a \<noteq> b"
  shows "fetch_version (push (push [\<lparr>version = u, value_of = Some a\<rparr>] \<lparr>version = w, value_of = Some a\<rparr>)
    \<lparr>version = v, value_of = Some b\<rparr>) w = Some b"
proof -
  have "push [\<lparr>version = u, value_of = Some a\<rparr>] \<lparr>version = w, value_of = Some a\<rparr> = [\<lparr>version = u, value_of = Some a\<rparr>]"
    using less_trans [OF assms(1,2)] by (simp add: push_def Let_def)
  moreover have "push [\<lparr>version = u, value_of = Some a\<rparr>] \<lparr>version = v, value_of = Some b\<rparr>
      = [\<lparr>version = u, value_of = Some a\<rparr>, \<lparr>version = v, value_of = Some b\<rparr>]"
    using assms by (simp add: push_def Let_def)
  moreover have "versions_wf [\<lparr>version = u, value_of = Some a\<rparr>, \<lparr>version = v, value_of = Some b\<rparr>]"
    using assms by (simp add: versions_wf_def)
  ultimately show ?thesis using assms by (simp add: fetch_version_value_at value_at_def less_imp_le)
qed

theorem repeated_value_is_forgotten_witness:
  "fetch_version (push (push [\<lparr>version = 10, value_of = Some [1]\<rparr>] \<lparr>version = 30, value_of = Some [1]\<rparr>)
    \<lparr>version = 20, value_of = Some [2]\<rparr>) 30 = Some [2]"
  by (rule repeated_value_is_forgotten) simp_all

end
